(* ===== verification/Prelude.thy ===== *)
theory Prelude
  imports Main "HOL-Library.Word" "HOL-Library.Monad_Syntax"
begin

unbundle bit_operations_syntax

text \<open>
  Shared vocabulary of the development: the C integer types as machine words, the
  flat byte memory in which packet buffers live, the library calls \<^verbatim>\<open>memcpy\<close>,
  \<^verbatim>\<open>memset\<close>, \<^verbatim>\<open>memcmp\<close> and the byte-order conversions \<^verbatim>\<open>htons\<close>/\<^verbatim>\<open>ntohs\<close>, with the
  lemmas on them that every component uses.

  Conventions.  A pointer into packet memory is a \<open>nat\<close> address, so \<^verbatim>\<open>&cpkt[8]\<close> is
  \<open>p + 8\<close>.  Memory is a total function from addresses to bytes: which addresses an
  operation reads or writes is stated by lemmas (locality and frame), not by the type.
  A call of \<^verbatim>\<open>abort()\<close> is the value \<open>None\<close> of an option type.
\<close>

section \<open>Collections\<close>

named_theorems hdr_simps \<open>big-endian reading of the header accessors\<close>
named_theorems byte_simps \<open>assembling and taking apart multi-byte words\<close>
named_theorems field_defs \<open>definitions of the header accessors\<close>

section \<open>C integer types\<close>

type_synonym u8 = "8 word"
type_synonym u16 = "16 word"
type_synonym u32 = "32 word"
type_synonym u64 = "64 word"

text \<open>C's \<^verbatim>\<open>int\<close>, kept as its 32-bit pattern.\<close>
type_synonym cint = "32 word"

text \<open>The C idiom \<^verbatim>\<open>!!x\<close> as an \<^verbatim>\<open>int\<close>.\<close>
definition notnot :: "cint \<Rightarrow> cint" where
  "notnot x = (if x \<noteq> 0 then 1 else 0)"

section \<open>Bytes of words\<close>

definition nth_byte :: "'a::len word \<Rightarrow> nat \<Rightarrow> u8" where
  "nth_byte x n = ucast (drop_bit (8 * n) x)"

definition mk16 :: "u8 \<Rightarrow> u8 \<Rightarrow> u16" where
  "mk16 b1 b0 = push_bit 8 (ucast b1) OR ucast b0"

definition mk32 :: "u8 \<Rightarrow> u8 \<Rightarrow> u8 \<Rightarrow> u8 \<Rightarrow> u32" where
  "mk32 b3 b2 b1 b0 =
     push_bit 24 (ucast b3) OR push_bit 16 (ucast b2) OR push_bit 8 (ucast b1) OR ucast b0"

definition mk64 :: "u8 \<Rightarrow> u8 \<Rightarrow> u8 \<Rightarrow> u8 \<Rightarrow> u8 \<Rightarrow> u8 \<Rightarrow> u8 \<Rightarrow> u8 \<Rightarrow> u64" where
  "mk64 b7 b6 b5 b4 b3 b2 b1 b0 =
     push_bit 56 (ucast b7) OR push_bit 48 (ucast b6) OR push_bit 40 (ucast b5) OR
     push_bit 32 (ucast b4) OR push_bit 24 (ucast b3) OR push_bit 16 (ucast b2) OR
     push_bit 8 (ucast b1) OR ucast b0"

section \<open>Host byte order\<close>

text \<open>
  The byte order of the machine.  It is fixed to little-endian, the order of the
  x86 targets, so every statement of the development is about a little-endian host.  The
  definitions that depend on the order are written for both.
\<close>

datatype endian = LittleEndian | BigEndian

definition host_endian :: endian where
  "host_endian = LittleEndian"

definition bswap16 :: "u16 \<Rightarrow> u16" where
  "bswap16 x = mk16 (nth_byte x 0) (nth_byte x 1)"

definition bswap32 :: "u32 \<Rightarrow> u32" where
  "bswap32 x = mk32 (nth_byte x 0) (nth_byte x 1) (nth_byte x 2) (nth_byte x 3)"

definition bswap64 :: "u64 \<Rightarrow> u64" where
  "bswap64 x = mk64 (nth_byte x 0) (nth_byte x 1) (nth_byte x 2) (nth_byte x 3)
     (nth_byte x 4) (nth_byte x 5) (nth_byte x 6) (nth_byte x 7)"

definition ntohs :: "u16 \<Rightarrow> u16" where
  "ntohs x = (case host_endian of LittleEndian \<Rightarrow> bswap16 x | BigEndian \<Rightarrow> x)"

definition htons :: "u16 \<Rightarrow> u16" where
  "htons x = (case host_endian of LittleEndian \<Rightarrow> bswap16 x | BigEndian \<Rightarrow> x)"

definition ntohl :: "u32 \<Rightarrow> u32" where
  "ntohl x = (case host_endian of LittleEndian \<Rightarrow> bswap32 x | BigEndian \<Rightarrow> x)"

definition htonl :: "u32 \<Rightarrow> u32" where
  "htonl x = (case host_endian of LittleEndian \<Rightarrow> bswap32 x | BigEndian \<Rightarrow> x)"

section \<open>Memory\<close>

type_synonym ptr = nat
type_synonym mem = "nat \<Rightarrow> u8"

definition memcpy :: "mem \<Rightarrow> ptr \<Rightarrow> ptr \<Rightarrow> nat \<Rightarrow> mem" where
  "memcpy m dst src n = (\<lambda>a. if dst \<le> a \<and> a < dst + n then m (src + (a - dst)) else m a)"

definition memset :: "mem \<Rightarrow> ptr \<Rightarrow> u8 \<Rightarrow> nat \<Rightarrow> mem" where
  "memset m dst c n = (\<lambda>a. if dst \<le> a \<and> a < dst + n then c else m a)"

definition mem_write :: "mem \<Rightarrow> ptr \<Rightarrow> u8 list \<Rightarrow> mem" where
  "mem_write m dst bs = (\<lambda>a. if dst \<le> a \<and> a < dst + length bs then bs ! (a - dst) else m a)"

definition mem_bytes :: "mem \<Rightarrow> ptr \<Rightarrow> nat \<Rightarrow> u8 list" where
  "mem_bytes m p n = map (\<lambda>i. m (p + i)) [0..<n]"

text \<open>Two memories agree on the \<open>n\<close> bytes from \<open>p\<close>.\<close>
definition mem_agree :: "mem \<Rightarrow> mem \<Rightarrow> ptr \<Rightarrow> nat \<Rightarrow> bool" where
  "mem_agree m m' p n \<longleftrightarrow> (\<forall>i < n. m (p + i) = m' (p + i))"

section \<open>Lemmas on bytes and words\<close>

lemma nth_byte_0 [simp]: "nth_byte (x :: u8) 0 = x"
  by (simp add: nth_byte_def)

lemma nth_byte_mk16 [simp, byte_simps]:
  "nth_byte (mk16 b1 b0) 0 = b0"
  "nth_byte (mk16 b1 b0) (Suc 0) = b1"
  by (rule bit_word_eqI;
      auto simp: nth_byte_def mk16_def bit_simps dest: bit_imp_le_length)+

lemma mk16_nth_byte [simp, byte_simps]: "mk16 (nth_byte x (Suc 0)) (nth_byte x 0) = x"
  by (rule bit_word_eqI)
    (auto simp: nth_byte_def mk16_def bit_simps dest: bit_imp_le_length)

lemma nth_byte_mk32 [simp, byte_simps]:
  "nth_byte (mk32 b3 b2 b1 b0) 0 = b0"
  "nth_byte (mk32 b3 b2 b1 b0) (Suc 0) = b1"
  "nth_byte (mk32 b3 b2 b1 b0) 2 = b2"
  "nth_byte (mk32 b3 b2 b1 b0) 3 = b3"
  by (rule bit_word_eqI;
      auto simp: nth_byte_def mk32_def bit_simps dest: bit_imp_le_length)+

lemma mk32_nth_byte [simp, byte_simps]:
  "mk32 (nth_byte x 3) (nth_byte x 2) (nth_byte x (Suc 0)) (nth_byte x 0) = x"
proof (rule bit_word_eqI)
  fix n assume "n < LENGTH(32)"
  then consider "n < 8" | "8 \<le> n" "n < 16" | "16 \<le> n" "n < 24" | "24 \<le> n" "n < 32"
    by (auto, linarith)
  then show "bit (mk32 (nth_byte x 3) (nth_byte x 2) (nth_byte x (Suc 0)) (nth_byte x 0)) n = bit x n"
    by cases (auto simp: nth_byte_def mk32_def bit_simps dest: bit_imp_le_length)
qed

lemma bswap16_bswap16 [simp]: "bswap16 (bswap16 x) = x"
  by (simp add: bswap16_def)

lemma bswap32_bswap32 [simp]: "bswap32 (bswap32 x) = x"
  by (simp add: bswap32_def)

lemma ntohs_htons [simp]: "ntohs (htons x) = x" and htons_ntohs [simp]: "htons (ntohs x) = x"
  by (simp_all add: ntohs_def htons_def split: endian.split)

lemma ntohl_htonl [simp]: "ntohl (htonl x) = x" and htonl_ntohl [simp]: "htonl (ntohl x) = x"
  by (simp_all add: ntohl_def htonl_def split: endian.split)

lemma unat_u8_less: "unat (b :: u8) < 256"
  using unsigned_less [of b, where ?'a = nat] by simp

lemma unat_u16_less: "unat (x :: u16) < 65536"
  using unsigned_less [of x, where ?'a = nat] by simp

lemma unat_u32_less: "unat (x :: u32) < 4294967296"
  using unsigned_less [of x, where ?'a = nat] by simp

lemma unat_ucast_u8_u16 [simp]: "unat (ucast (b :: u8) :: u16) = unat b"
  using unat_u8_less [of b] by (simp add: unsigned_ucast_eq take_bit_nat_eq_self_iff)

lemma unat_ucast_u8_u32 [simp]: "unat (ucast (b :: u8) :: u32) = unat b"
  using unat_u8_less [of b] by (simp add: unsigned_ucast_eq take_bit_nat_eq_self_iff)

lemma unat_ucast_u16_u32 [simp]: "unat (ucast (x :: u16) :: u32) = unat x"
  using unat_u16_less [of x] by (simp add: unsigned_ucast_eq take_bit_nat_eq_self_iff)

lemma unat_mk16: "unat (mk16 b1 b0) = 256 * unat b1 + unat b0"
proof -
  have "mk16 b1 b0 = push_bit 8 (ucast b1) + ucast b0"
    unfolding mk16_def
    by (rule disjunctive_add_eq_or [symmetric], rule bit_word_eqI)
      (auto simp: bit_simps dest: bit_imp_le_length)
  also have "unat \<dots> = (unat (push_bit 8 (ucast b1 :: u16)) + unat b0) mod 65536"
    by (simp add: unat_word_ariths)
  also have "unat (push_bit 8 (ucast b1 :: u16)) = 256 * unat b1"
    using unat_u8_less [of b1]
    by (simp add: push_bit_eq_mult unat_word_ariths mult.commute)
  finally show ?thesis
    using unat_u8_less [of b1] unat_u8_less [of b0] by simp
qed

lemma unat_nth_bytes16: "256 * unat (nth_byte x (Suc 0)) + unat (nth_byte x 0) = unat (x :: u16)"
  by (metis mk16_nth_byte unat_mk16)

lemma not_bit_if_small:
  assumes "unat (w :: 'a::len word) < 2 ^ k" "k \<le> n"
  shows "\<not> bit w n"
proof -
  have "unat w < 2 ^ n"
    using assms by (meson le_less_trans less_le_trans nat_less_le one_le_numeral power_increasing)
  then have "\<not> bit (unat w) n" by (simp add: bit_iff_odd)
  then show ?thesis by (simp add: bit_unsigned_iff)
qed

lemma and_push_bit_1:
  "(ucast (c :: u8) :: cint) AND push_bit k 1 = (if bit c k then push_bit k 1 else 0)"
  by (rule bit_word_eqI) (auto simp: bit_simps bit_1_iff)

lemma notnot_simps [simp]:
  "notnot 0 = 0" "x \<noteq> 0 \<Longrightarrow> notnot x = 1" "notnot x = 0 \<longleftrightarrow> x = 0"
  by (simp_all add: notnot_def)

text \<open>Equality of bytes as equality of their eight bits, for masks given as numerals.\<close>

lemma u8_eq_iff:
  "(x :: u8) = y \<longleftrightarrow>
     bit x 0 = bit y 0 \<and> bit x (Suc 0) = bit y (Suc 0) \<and> bit x 2 = bit y 2 \<and> bit x 3 = bit y 3 \<and>
     bit x 4 = bit y 4 \<and> bit x 5 = bit y 5 \<and> bit x 6 = bit y 6 \<and> bit x 7 = bit y 7"
proof
  assume R: "bit x 0 = bit y 0 \<and> bit x (Suc 0) = bit y (Suc 0) \<and> bit x 2 = bit y 2 \<and>
     bit x 3 = bit y 3 \<and> bit x 4 = bit y 4 \<and> bit x 5 = bit y 5 \<and> bit x 6 = bit y 6 \<and> bit x 7 = bit y 7"
  show "x = y"
  proof (rule bit_word_eqI)
    fix n assume "n < LENGTH(8)"
    then have "n = 0 \<or> n = Suc 0 \<or> n = 2 \<or> n = 3 \<or> n = 4 \<or> n = 5 \<or> n = 6 \<or> n = 7"
      by auto
    with R show "bit x n = bit y n" by metis
  qed
qed simp

lemma u16_eq_iff:
  "(x :: u16) = y \<longleftrightarrow>
     bit x 0 = bit y 0 \<and> bit x (Suc 0) = bit y (Suc 0) \<and> bit x 2 = bit y 2 \<and> bit x 3
     = bit y 3 \<and> bit x 4 = bit y 4 \<and> bit x 5 = bit y 5 \<and> bit x 6 = bit y 6 \<and> bit
     x 7 = bit y 7 \<and> bit x 8 = bit y 8 \<and> bit x 9 = bit y 9 \<and> bit x 10 = bit y 10
     \<and> bit x 11 = bit y 11 \<and> bit x 12 = bit y 12 \<and> bit x 13 = bit y 13 \<and> bit x
     14 = bit y 14 \<and> bit x 15 = bit y 15"
  (is "_ \<longleftrightarrow> ?R")
proof
  assume R: ?R
  show "x = y"
  proof (rule bit_word_eqI)
    fix n assume "n < LENGTH(16)"
    then have "n \<in> set [0, Suc 0, 2, 3, 4, 5, 6, 7] \<union> set [8, 9, 10, 11, 12, 13, 14, 15]"
      by (cases "n < 8") (simp_all, linarith+)
    with R show "bit x n = bit y n" by auto
  qed
qed simp

section \<open>Lemmas on memory\<close>

lemma memcpy_apply:
  "memcpy m dst src n a = (if dst \<le> a \<and> a < dst + n then m (src + (a - dst)) else m a)"
  by (simp add: memcpy_def)

lemma memcpy_outside: "a < dst \<or> dst + n \<le> a \<Longrightarrow> memcpy m dst src n a = m a"
  by (auto simp: memcpy_def)

lemma memcpy_inside: "i < n \<Longrightarrow> memcpy m dst src n (dst + i) = m (src + i)"
  by (simp add: memcpy_def)

lemma memcpy_0 [simp]: "memcpy m dst src 0 = m"
  by (rule ext) (auto simp: memcpy_def)

lemma length_mem_bytes [simp]: "length (mem_bytes m p n) = n"
  by (simp add: mem_bytes_def)

lemma nth_mem_bytes [simp]: "i < n \<Longrightarrow> mem_bytes m p n ! i = m (p + i)"
  by (simp add: mem_bytes_def)

lemma mem_bytes_cong: "mem_agree m m' p n \<Longrightarrow> mem_bytes m p n = mem_bytes m' p n"
  by (auto simp: mem_bytes_def mem_agree_def)

lemma mem_bytes_memcpy: "mem_bytes (memcpy m dst src n) dst n = mem_bytes m src n"
  by (simp add: mem_bytes_def memcpy_inside)

lemma mem_agreeI: "(\<And>i. i < n \<Longrightarrow> m (p + i) = m' (p + i)) \<Longrightarrow> mem_agree m m' p n"
  by (simp add: mem_agree_def)

lemma mem_agreeD: "mem_agree m m' p n \<Longrightarrow> i < n \<Longrightarrow> m (p + i) = m' (p + i)"
  by (simp add: mem_agree_def)

lemma mem_agree_refl [simp]: "mem_agree m m p n"
  by (simp add: mem_agree_def)

lemma mem_agree_mono: "mem_agree m m' p n \<Longrightarrow> k \<le> n \<Longrightarrow> mem_agree m m' p k"
  by (simp add: mem_agree_def)

end
