(* ===== verification/Hdr.thy ===== *)
theory Hdr
  imports Prelude
begin

text \<open>
  The unaligned access functions of \<^verbatim>\<open>src/misc/hdr.h\<close> and the byte swaps of
  \<^verbatim>\<open>src/misc/byteswap.h\<close>.  The \<^verbatim>\<open>h\<close> functions use the host byte order, the \<^verbatim>\<open>n\<close>
  functions network order.  The lemmas \<open>hdr_get16n_be\<close> and its companions show that the
  network-order functions read and write big-endian on the little-endian host; all
  later proofs rest on them.  The locale \<open>header_field\<close> is the contract of a header field
  with a getter and a setter.
\<close>

section \<open>byteswap.h\<close>

definition byteswap16 :: "u16 \<Rightarrow> u16" where
  "byteswap16 x = bswap16 x"

definition byteswap32 :: "u32 \<Rightarrow> u32" where
  "byteswap32 x = bswap32 x"

definition byteswap64 :: "u64 \<Rightarrow> u64" where
  "byteswap64 x = bswap64 x"

section \<open>hdr.h\<close>

definition hdr_get64h :: "mem \<Rightarrow> ptr \<Rightarrow> u64" where
  "hdr_get64h m p = (case host_endian of
     LittleEndian \<Rightarrow> mk64 (m (p + 7)) (m (p + 6)) (m (p + 5)) (m (p + 4))
       (m (p + 3)) (m (p + 2)) (m (p + 1)) (m p)
   | BigEndian \<Rightarrow> mk64 (m p) (m (p + 1)) (m (p + 2)) (m (p + 3))
       (m (p + 4)) (m (p + 5)) (m (p + 6)) (m (p + 7)))"

definition hdr_get32h :: "mem \<Rightarrow> ptr \<Rightarrow> u32" where
  "hdr_get32h m p = (case host_endian of
     LittleEndian \<Rightarrow> mk32 (m (p + 3)) (m (p + 2)) (m (p + 1)) (m p)
   | BigEndian \<Rightarrow> mk32 (m p) (m (p + 1)) (m (p + 2)) (m (p + 3)))"

definition hdr_get16h :: "mem \<Rightarrow> ptr \<Rightarrow> u16" where
  "hdr_get16h m p = (case host_endian of
     LittleEndian \<Rightarrow> mk16 (m (p + 1)) (m p)
   | BigEndian \<Rightarrow> mk16 (m p) (m (p + 1)))"

definition hdr_get8h :: "mem \<Rightarrow> ptr \<Rightarrow> u8" where
  "hdr_get8h m p = m p"

definition hdr_set64h :: "mem \<Rightarrow> ptr \<Rightarrow> u64 \<Rightarrow> mem" where
  "hdr_set64h m p v = (case host_endian of
     LittleEndian \<Rightarrow> m(p := nth_byte v 0, p + 1 := nth_byte v 1, p + 2 := nth_byte v 2,
       p + 3 := nth_byte v 3, p + 4 := nth_byte v 4, p + 5 := nth_byte v 5,
       p + 6 := nth_byte v 6, p + 7 := nth_byte v 7)
   | BigEndian \<Rightarrow> m(p := nth_byte v 7, p + 1 := nth_byte v 6, p + 2 := nth_byte v 5,
       p + 3 := nth_byte v 4, p + 4 := nth_byte v 3, p + 5 := nth_byte v 2,
       p + 6 := nth_byte v 1, p + 7 := nth_byte v 0))"

definition hdr_set32h :: "mem \<Rightarrow> ptr \<Rightarrow> u32 \<Rightarrow> mem" where
  "hdr_set32h m p v = (case host_endian of
     LittleEndian \<Rightarrow> m(p := nth_byte v 0, p + 1 := nth_byte v 1, p + 2 := nth_byte v 2,
       p + 3 := nth_byte v 3)
   | BigEndian \<Rightarrow> m(p := nth_byte v 3, p + 1 := nth_byte v 2, p + 2 := nth_byte v 1,
       p + 3 := nth_byte v 0))"

definition hdr_set16h :: "mem \<Rightarrow> ptr \<Rightarrow> u16 \<Rightarrow> mem" where
  "hdr_set16h m p v = (case host_endian of
     LittleEndian \<Rightarrow> m(p := nth_byte v 0, p + 1 := nth_byte v 1)
   | BigEndian \<Rightarrow> m(p := nth_byte v 1, p + 1 := nth_byte v 0))"

definition hdr_set8h :: "mem \<Rightarrow> ptr \<Rightarrow> u8 \<Rightarrow> mem" where
  "hdr_set8h m p v = m(p := v)"

definition hdr_get32n :: "mem \<Rightarrow> ptr \<Rightarrow> u32" where
  "hdr_get32n m p = ntohl (hdr_get32h m p)"

definition hdr_get16n :: "mem \<Rightarrow> ptr \<Rightarrow> u16" where
  "hdr_get16n m p = ntohs (hdr_get16h m p)"

definition hdr_set32n :: "mem \<Rightarrow> ptr \<Rightarrow> u32 \<Rightarrow> mem" where
  "hdr_set32n m p v = hdr_set32h m p (htonl v)"

definition hdr_set16n :: "mem \<Rightarrow> ptr \<Rightarrow> u16 \<Rightarrow> mem" where
  "hdr_set16n m p v = hdr_set16h m p (htons v)"

section \<open>Network order is big-endian\<close>

lemma hdr_get16n_be [hdr_simps]: "hdr_get16n m p = mk16 (m p) (m (p + 1))"
  by (simp add: hdr_get16n_def hdr_get16h_def ntohs_def bswap16_def split: endian.split)

lemma hdr_get32n_be [hdr_simps]:
  "hdr_get32n m p = mk32 (m p) (m (p + 1)) (m (p + 2)) (m (p + 3))"
  by (simp add: hdr_get32n_def hdr_get32h_def ntohl_def bswap32_def split: endian.split)

lemma hdr_set16n_be [hdr_simps]:
  "hdr_set16n m p v = m(p := nth_byte v 1, p + 1 := nth_byte v 0)"
  by (simp add: hdr_set16n_def hdr_set16h_def htons_def bswap16_def split: endian.split)

lemma hdr_set32n_be [hdr_simps]:
  "hdr_set32n m p v = m(p := nth_byte v 3, p + 1 := nth_byte v 2,
     p + 2 := nth_byte v 1, p + 3 := nth_byte v 0)"
  by (simp add: hdr_set32n_def hdr_set32h_def htonl_def bswap32_def split: endian.split)

lemmas hdr_byte_simps [hdr_simps] = hdr_get8h_def hdr_set8h_def

lemma hdr_get16n_set16n [simp]: "hdr_get16n (hdr_set16n m p v) p = v"
  by (simp add: hdr_simps)

lemma hdr_get32n_set32n [simp]: "hdr_get32n (hdr_set32n m p v) p = v"
  by (simp add: hdr_simps)

lemma hdr_set16n_apply:
  "hdr_set16n m p v a =
     (if a = p then nth_byte v 1 else if a = p + 1 then nth_byte v 0 else m a)"
  by (simp add: hdr_simps)

lemma hdr_set32n_apply:
  "hdr_set32n m p v a =
     (if a = p then nth_byte v 3 else if a = p + 1 then nth_byte v 2
      else if a = p + 2 then nth_byte v 1 else if a = p + 3 then nth_byte v 0 else m a)"
  by (simp add: hdr_simps)

lemma hdr_get32n_halves:
  "ucast (drop_bit 16 (hdr_get32n m p)) = hdr_get16n m p"
  "ucast (hdr_get32n m p) = hdr_get16n m (p + 2)"
  by (rule bit_word_eqI;
      auto simp: hdr_simps mk16_def mk32_def bit_simps numeral_3_eq_3 dest: bit_imp_le_length)+

lemma hdr_set32n_halves:
  "hdr_set32n m p v =
     hdr_set16n (hdr_set16n m p (ucast (drop_bit 16 v))) (p + 2) (ucast v)"
proof -
  have "nth_byte (ucast (drop_bit 16 v) :: u16) k = nth_byte v (k + 2)" if "k < 2" for k
    using that by (intro bit_word_eqI) (auto simp: nth_byte_def bit_simps ac_simps)
  moreover have "nth_byte (ucast v :: u16) k = nth_byte v k" if "k < 2" for k
    using that by (intro bit_word_eqI) (auto simp: nth_byte_def bit_simps)
  ultimately show ?thesis
    by (simp add: hdr_simps numeral_eq_Suc)
qed

section \<open>The contract of a header field\<close>

text \<open>
  A field is stored in \<open>len\<close> bytes at offset \<open>off\<close> of its header.  The getter depends on
  those bytes only, the setter changes those bytes only, and the getter returns what the
  setter stored.  Independence of two fields at disjoint offsets follows once and for all.
\<close>

locale header_field =
  fixes get :: "mem \<Rightarrow> ptr \<Rightarrow> 'v"
    and set :: "mem \<Rightarrow> ptr \<Rightarrow> 'v \<Rightarrow> mem"
    and off :: nat
    and len :: nat
  assumes get_set: "get (set m p v) p = v"
    and get_local: "mem_agree m m' (p + off) len \<Longrightarrow> get m p = get m' p"
    and set_frame: "a < p + off \<or> p + off + len \<le> a \<Longrightarrow> set m p v a = m a"
begin

lemma get_frame:
  assumes "\<And>a. p + off \<le> a \<Longrightarrow> a < p + off + len \<Longrightarrow> m' a = m a"
  shows "get m' p = get m p"
  by (rule get_local) (auto intro!: mem_agreeI assms)

lemma set_agree:
  "q + n \<le> p + off \<or> p + off + len \<le> q \<Longrightarrow> mem_agree (set m p v) m q n"
  by (rule mem_agreeI) (auto intro!: set_frame)

lemma get_set_twice: "get (set (set m p v) p w) p = w"
  by (rule get_set)

end

locale disjoint_fields = f1: header_field get1 set1 off1 len1 + f2: header_field get2 set2 off2 len2
  for get1 :: "mem \<Rightarrow> ptr \<Rightarrow> 'v" and set1 off1 len1
    and get2 :: "mem \<Rightarrow> ptr \<Rightarrow> 'w" and set2 off2 len2 +
  assumes disjoint: "off1 + len1 \<le> off2 \<or> off2 + len2 \<le> off1"
begin

lemma get1_set2: "get1 (set2 m p w) p = get1 m p"
  using disjoint by (intro f1.get_frame f2.set_frame) auto

lemma get2_set1: "get2 (set1 m p v) p = get2 m p"
  using disjoint by (intro f2.get_frame f1.set_frame) auto

end

text \<open>The accessors of \<^verbatim>\<open>hdr.h\<close> satisfy the contract at any fixed offset.\<close>

interpretation field16: header_field "\<lambda>m p. hdr_get16n m (p + k)" "\<lambda>m p. hdr_set16n m (p + k)" k 2
proof unfold_locales
  fix m m' :: mem and p :: ptr
  assume "mem_agree m m' (p + k) 2"
  from mem_agreeD [OF this, of 0] mem_agreeD [OF this, of 1]
  show "hdr_get16n m (p + k) = hdr_get16n m' (p + k)" by (simp add: hdr_simps)
qed (auto simp: hdr_set16n_apply)

interpretation field32: header_field "\<lambda>m p. hdr_get32n m (p + k)" "\<lambda>m p. hdr_set32n m (p + k)" k 4
proof unfold_locales
  fix m m' :: mem and p :: ptr
  assume "mem_agree m m' (p + k) 4"
  from mem_agreeD [OF this, of 0] mem_agreeD [OF this, of 1]
    mem_agreeD [OF this, of 2] mem_agreeD [OF this, of 3]
  show "hdr_get32n m (p + k) = hdr_get32n m' (p + k)" by (simp add: hdr_simps)
qed (auto simp: hdr_set32n_apply)

interpretation field8: header_field "\<lambda>m p. hdr_get8h m (p + k)" "\<lambda>m p. hdr_set8h m (p + k)" k 1
proof unfold_locales
  fix m m' :: mem and p :: ptr
  assume "mem_agree m m' (p + k) 1"
  from mem_agreeD [OF this, of 0]
  show "hdr_get8h m (p + k) = hdr_get8h m' (p + k)" by (simp add: hdr_simps)
qed (auto simp: hdr_simps)

end
