(* ===== verification/PcpHdr.thy ===== *)
theory PcpHdr
  imports Hdr
begin

text \<open>
  The Port Control Protocol accessors of \<^verbatim>\<open>src/iphdr/iphdr.h\<close>.  Getters take the memory
  and the address of the PCP message; setters return the new memory.
\<close>

section \<open>Common header\<close>

definition pcp_version :: "mem \<Rightarrow> ptr \<Rightarrow> u8" where
  [field_defs]: "pcp_version m p = m (p + 0)"

definition pcp_set_version :: "mem \<Rightarrow> ptr \<Rightarrow> u8 \<Rightarrow> mem" where
  [field_defs]: "pcp_set_version m p version = m(p + 0 := version)"

definition pcp_r :: "mem \<Rightarrow> ptr \<Rightarrow> u8" where
  [field_defs]: "pcp_r m p = drop_bit 7 (m (p + 1))"

definition pcp_set_r :: "mem \<Rightarrow> ptr \<Rightarrow> cint \<Rightarrow> mem" where
  [field_defs]: "pcp_set_r m p val =
     (let m = m(p + 1 := m (p + 1) AND NOT (push_bit 7 1))
      in m(p + 1 := m (p + 1) OR ucast (push_bit 7 (notnot val))))"

definition pcp_opcode :: "mem \<Rightarrow> ptr \<Rightarrow> u8" where
  [field_defs]: "pcp_opcode m p = m (p + 1) AND NOT (push_bit 7 1)"

definition pcp_set_opcode :: "mem \<Rightarrow> ptr \<Rightarrow> u8 \<Rightarrow> mem" where
  [field_defs]: "pcp_set_opcode m p opcode =
     m(p + 1 := m (p + 1) OR (opcode AND NOT (push_bit 7 1)))"

definition pcp_req_set_reserved :: "mem \<Rightarrow> ptr \<Rightarrow> u16 \<Rightarrow> mem" where
  [field_defs]: "pcp_req_set_reserved m p val = hdr_set16n m (p + 2) val"

definition pcp_resp_set_reserved :: "mem \<Rightarrow> ptr \<Rightarrow> u8 \<Rightarrow> mem" where
  [field_defs]: "pcp_resp_set_reserved m p val = m(p + 2 := val)"

definition pcp_resp_rcode :: "mem \<Rightarrow> ptr \<Rightarrow> u8" where
  [field_defs]: "pcp_resp_rcode m p = m (p + 3)"

definition pcp_resp_set_rcode :: "mem \<Rightarrow> ptr \<Rightarrow> u8 \<Rightarrow> mem" where
  [field_defs]: "pcp_resp_set_rcode m p rcode = m(p + 3 := rcode)"

definition pcp_lifetime :: "mem \<Rightarrow> ptr \<Rightarrow> u32" where
  [field_defs]: "pcp_lifetime m p = hdr_get32n m (p + 4)"

definition pcp_set_lifetime :: "mem \<Rightarrow> ptr \<Rightarrow> u32 \<Rightarrow> mem" where
  [field_defs]: "pcp_set_lifetime m p lifetime = hdr_set32n m (p + 4) lifetime"

definition pcp_req_is_ipv4 :: "mem \<Rightarrow> ptr \<Rightarrow> bool" where
  [field_defs]: "pcp_req_is_ipv4 m p \<longleftrightarrow>
     mem_bytes m (p + 8) 12 = [0, 0, 0, 0, 0, 0, 0, 0, 0, 0, 0xff, 0xff]"

definition pcp_req_get_ipv4 :: "mem \<Rightarrow> ptr \<Rightarrow> u32" where
  [field_defs]: "pcp_req_get_ipv4 m p = hdr_get32n m (p + (8 + 12))"

definition pcp_resp_epoch_time :: "mem \<Rightarrow> ptr \<Rightarrow> u32" where
  [field_defs]: "pcp_resp_epoch_time m p = hdr_get32n m (p + 8)"

definition pcp_resp_set_epoch_time :: "mem \<Rightarrow> ptr \<Rightarrow> u32 \<Rightarrow> mem" where
  [field_defs]: "pcp_resp_set_epoch_time m p epoch_time = hdr_set32n m (p + 8) epoch_time"

definition pcp_resp_zero_reserved2 :: "mem \<Rightarrow> ptr \<Rightarrow> mem" where
  [field_defs]: "pcp_resp_zero_reserved2 m p = memset m (p + 12) 0 (96 div 8)"

section \<open>MAP requests and responses\<close>

definition pcp_mapreq_nonce :: "ptr \<Rightarrow> ptr" where
  [field_defs]: "pcp_mapreq_nonce p = p + 24"

definition pcp_mapreq_protocol :: "mem \<Rightarrow> ptr \<Rightarrow> u8" where
  [field_defs]: "pcp_mapreq_protocol m p = m (p + 36)"

definition pcp_mapreq_int_port :: "mem \<Rightarrow> ptr \<Rightarrow> u16" where
  [field_defs]: "pcp_mapreq_int_port m p = hdr_get16n m (p + 40)"

definition pcp_mapreq_sugg_ext_port :: "mem \<Rightarrow> ptr \<Rightarrow> u16" where
  [field_defs]: "pcp_mapreq_sugg_ext_port m p = hdr_get16n m (p + 42)"

definition pcp_mapreq_sugg_ext_ip :: "ptr \<Rightarrow> ptr" where
  [field_defs]: "pcp_mapreq_sugg_ext_ip p = p + 44"

definition pcp_mapreq_options :: "ptr \<Rightarrow> ptr" where
  [field_defs]: "pcp_mapreq_options p = p + 60"

definition pcp_mapresp_set_nonce :: "mem \<Rightarrow> ptr \<Rightarrow> ptr \<Rightarrow> mem" where
  [field_defs]: "pcp_mapresp_set_nonce m p nonce = memcpy m (p + 24) nonce (96 div 8)"

definition pcp_mapresp_set_protocol :: "mem \<Rightarrow> ptr \<Rightarrow> u8 \<Rightarrow> mem" where
  [field_defs]: "pcp_mapresp_set_protocol m p proto = m(p + 36 := proto)"

definition pcp_mapresp_zero_reserved :: "mem \<Rightarrow> ptr \<Rightarrow> mem" where
  [field_defs]: "pcp_mapresp_zero_reserved m p = hdr_set16n (m(p + 37 := 0)) (p + 38) 0"

definition pcp_mapresp_set_int_port :: "mem \<Rightarrow> ptr \<Rightarrow> u16 \<Rightarrow> mem" where
  [field_defs]: "pcp_mapresp_set_int_port m p int_port = hdr_set16n m (p + 40) int_port"

definition pcp_mapresp_set_ext_port :: "mem \<Rightarrow> ptr \<Rightarrow> u16 \<Rightarrow> mem" where
  [field_defs]: "pcp_mapresp_set_ext_port m p ext_port = hdr_set16n m (p + 42) ext_port"

definition pcp_mapresp_set_ext_ipv4 :: "mem \<Rightarrow> ptr \<Rightarrow> u32 \<Rightarrow> mem" where
  [field_defs]: "pcp_mapresp_set_ext_ipv4 m p ext_ipv4 =
     hdr_set32n (memset (memset m (p + 44) 0 10) (p + 54) 0xff 2) (p + 56) ext_ipv4"

definition pcp_option_code :: "mem \<Rightarrow> ptr \<Rightarrow> u8" where
  [field_defs]: "pcp_option_code m p = m (p + 0)"

definition pcp_option_paylength :: "mem \<Rightarrow> ptr \<Rightarrow> u16" where
  [field_defs]: "pcp_option_paylength m p = hdr_get16n m (p + 2)"

section \<open>Properties\<close>

lemma pcp_r_set_r: "pcp_r (pcp_set_r m p val) p = (if val = 0 then 0 else 1)"
  by (auto simp: u8_eq_iff field_defs Let_def notnot_def bit_simps)

lemma pcp_opcode_set_r: "pcp_opcode (pcp_set_r m p val) p = pcp_opcode m p"
  by (auto simp: u8_eq_iff field_defs Let_def notnot_def bit_simps)

lemma pcp_r_set_opcode: "pcp_r (pcp_set_opcode m p opc) p = pcp_r m p"
  by (auto simp: u8_eq_iff field_defs bit_simps)

text \<open>
  The opcode setter only ORs bits in: it gives the disjunction of the old and the new
  opcode, so it stores the requested opcode only where no other bit was set before.
\<close>

lemma pcp_opcode_set_opcode:
  "pcp_opcode (pcp_set_opcode m p opc) p = pcp_opcode m p OR (opc AND NOT (push_bit 7 1))"
  by (auto simp: u8_eq_iff field_defs bit_simps)

end
