(* ===== verification/LinkHdr.thy ===== *)
theory LinkHdr
  imports Hdr
begin

text \<open>
  The ICMP, ARP and Ethernet accessors of \<^verbatim>\<open>src/iphdr/iphdr.h\<close>.  Functions that return a
  pointer into the packet (\<^verbatim>\<open>ether_payload\<close>, \<^verbatim>\<open>arp_sha\<close>, \dots) map an address to an
  address.
\<close>

section \<open>ICMP\<close>

definition icmp_type :: "mem \<Rightarrow> ptr \<Rightarrow> u8" where
  [field_defs]: "icmp_type m p = m (p + 0)"

definition icmp_code :: "mem \<Rightarrow> ptr \<Rightarrow> u8" where
  [field_defs]: "icmp_code m p = m (p + 1)"

definition icmp_checksum :: "mem \<Rightarrow> ptr \<Rightarrow> u16" where
  [field_defs]: "icmp_checksum m p = hdr_get16n m (p + 2)"

definition icmp_header_data :: "mem \<Rightarrow> ptr \<Rightarrow> u32" where
  [field_defs]: "icmp_header_data m p = hdr_get32n m (p + 4)"

definition icmp_echo_identifier :: "mem \<Rightarrow> ptr \<Rightarrow> u16" where
  [field_defs]: "icmp_echo_identifier m p = hdr_get16n m (p + 4)"

definition icmp_set_type :: "mem \<Rightarrow> ptr \<Rightarrow> u8 \<Rightarrow> mem" where
  [field_defs]: "icmp_set_type m p type = m(p + 0 := type)"

definition icmp_set_code :: "mem \<Rightarrow> ptr \<Rightarrow> u8 \<Rightarrow> mem" where
  [field_defs]: "icmp_set_code m p code = m(p + 1 := code)"

definition icmp_set_checksum :: "mem \<Rightarrow> ptr \<Rightarrow> u16 \<Rightarrow> mem" where
  [field_defs]: "icmp_set_checksum m p checksum = hdr_set16n m (p + 2) checksum"

definition icmp_set_header_data :: "mem \<Rightarrow> ptr \<Rightarrow> u32 \<Rightarrow> mem" where
  [field_defs]: "icmp_set_header_data m p header_data = hdr_set32n m (p + 4) header_data"

definition icmp_set_echo_identifier :: "mem \<Rightarrow> ptr \<Rightarrow> u16 \<Rightarrow> mem" where
  [field_defs]: "icmp_set_echo_identifier m p echo_identifier =
     hdr_set16n m (p + 4) echo_identifier"

definition icmp_payload :: "ptr \<Rightarrow> ptr" where
  [field_defs]: "icmp_payload p = p + 8"

definition icmp_const_payload :: "ptr \<Rightarrow> ptr" where
  [field_defs]: "icmp_const_payload p = p + 8"

section \<open>ARP\<close>

definition arp_is_valid_reqresp :: "mem \<Rightarrow> ptr \<Rightarrow> bool" where
  [field_defs]: "arp_is_valid_reqresp m p =
     (if hdr_get16n m (p + 0) \<noteq> 1 then False
      else if hdr_get16n m (p + 2) \<noteq> 0x0800 then False
      else if m (p + 4) \<noteq> 6 then False
      else if m (p + 5) \<noteq> 4 then False
      else (let oper = hdr_get16n m (p + 6)
            in if oper \<noteq> 1 \<and> oper \<noteq> 2 then False else True))"

definition arp_is_req :: "mem \<Rightarrow> ptr \<Rightarrow> bool" where
  [field_defs]: "arp_is_req m p \<longleftrightarrow> hdr_get16n m (p + 6) = 1"

definition arp_is_resp :: "mem \<Rightarrow> ptr \<Rightarrow> bool" where
  [field_defs]: "arp_is_resp m p \<longleftrightarrow> hdr_get16n m (p + 6) = 2"

definition arp_sha :: "ptr \<Rightarrow> ptr" where
  [field_defs]: "arp_sha p = p + 8"

definition arp_tha :: "ptr \<Rightarrow> ptr" where
  [field_defs]: "arp_tha p = p + 18"

definition arp_const_sha :: "ptr \<Rightarrow> ptr" where
  [field_defs]: "arp_const_sha p = p + 8"

definition arp_const_tha :: "ptr \<Rightarrow> ptr" where
  [field_defs]: "arp_const_tha p = p + 18"

definition arp_spa :: "mem \<Rightarrow> ptr \<Rightarrow> u32" where
  [field_defs]: "arp_spa m p = hdr_get32n m (p + 14)"

definition arp_tpa :: "mem \<Rightarrow> ptr \<Rightarrow> u32" where
  [field_defs]: "arp_tpa m p = hdr_get32n m (p + 24)"

definition arp_set_spa :: "mem \<Rightarrow> ptr \<Rightarrow> u32 \<Rightarrow> mem" where
  [field_defs]: "arp_set_spa m p addr = hdr_set32n m (p + 14) addr"

definition arp_set_ether :: "mem \<Rightarrow> ptr \<Rightarrow> mem" where
  [field_defs]: "arp_set_ether m p =
     (hdr_set16n (hdr_set16n m (p + 0) 1) (p + 2) 0x0800)(p + 4 := 6, p + 5 := 4)"

definition arp_set_req :: "mem \<Rightarrow> ptr \<Rightarrow> mem" where
  [field_defs]: "arp_set_req m p = hdr_set16n m (p + 6) 1"

definition arp_set_resp :: "mem \<Rightarrow> ptr \<Rightarrow> mem" where
  [field_defs]: "arp_set_resp m p = hdr_set16n m (p + 6) 2"

definition arp_set_tpa :: "mem \<Rightarrow> ptr \<Rightarrow> u32 \<Rightarrow> mem" where
  [field_defs]: "arp_set_tpa m p addr = hdr_set32n m (p + 24) addr"

section \<open>Ethernet\<close>

definition ether_dst :: "ptr \<Rightarrow> ptr" where
  [field_defs]: "ether_dst p = p + 0"

definition ether_src :: "ptr \<Rightarrow> ptr" where
  [field_defs]: "ether_src p = p + 6"

definition ether_const_dst :: "ptr \<Rightarrow> ptr" where
  [field_defs]: "ether_const_dst p = p + 0"

definition ether_const_src :: "ptr \<Rightarrow> ptr" where
  [field_defs]: "ether_const_src p = p + 6"

definition ether_type :: "mem \<Rightarrow> ptr \<Rightarrow> u16" where
  [field_defs]: "ether_type m p = hdr_get16n m (p + 12)"

definition ether_set_type :: "mem \<Rightarrow> ptr \<Rightarrow> u16 \<Rightarrow> mem" where
  [field_defs]: "ether_set_type m p type = hdr_set16n m (p + 12) type"

definition ether_payload :: "ptr \<Rightarrow> ptr" where
  [field_defs]: "ether_payload p = p + 14"

definition ether_const_payload :: "ptr \<Rightarrow> ptr" where
  [field_defs]: "ether_const_payload p = p + 14"

abbreviation (input) ETHER_HDR_LEN :: nat where "ETHER_HDR_LEN \<equiv> 14"
abbreviation (input) ETHER_TYPE_IP :: u16 where "ETHER_TYPE_IP \<equiv> 0x0800"
abbreviation (input) ETHER_TYPE_ARP :: u16 where "ETHER_TYPE_ARP \<equiv> 0x0806"
abbreviation (input) ETHER_TYPE_IPV6 :: u16 where "ETHER_TYPE_IPV6 \<equiv> 0x86DD"
abbreviation (input) IP_HDR_MINLEN :: nat where "IP_HDR_MINLEN \<equiv> 20"

section \<open>Field contracts\<close>

interpretation icmp_checksum_f: header_field icmp_checksum icmp_set_checksum 2 2
  unfolding icmp_checksum_def [abs_def] icmp_set_checksum_def [abs_def]
  by (rule field16.header_field_axioms)

interpretation icmp_echo_identifier_f: header_field icmp_echo_identifier icmp_set_echo_identifier 4 2
  unfolding icmp_echo_identifier_def [abs_def] icmp_set_echo_identifier_def [abs_def]
  by (rule field16.header_field_axioms)

interpretation ether_type_f: header_field ether_type ether_set_type 12 2
  unfolding ether_type_def [abs_def] ether_set_type_def [abs_def]
  by (rule field16.header_field_axioms)

interpretation arp_spa_tpa: disjoint_fields arp_spa arp_set_spa 14 4 arp_tpa arp_set_tpa 24 4
  unfolding arp_spa_def [abs_def] arp_set_spa_def [abs_def] arp_tpa_def [abs_def] arp_set_tpa_def [abs_def]
  by (intro disjoint_fields.intro field32.header_field_axioms disjoint_fields_axioms.intro) simp

end
