(* ===== verification/IpHdr.thy ===== *)
theory IpHdr
  imports LinkHdr
begin

text \<open>
  The IPv4, IPv6 and version-independent (\<^verbatim>\<open>ip46\<close>) accessors of \<^verbatim>\<open>src/iphdr/iphdr.h\<close>,
  and the walk over IPv6 extension headers.  A function that calls \<^verbatim>\<open>abort()\<close> on a
  precondition violation returns \<open>None\<close> there.
\<close>

section \<open>IPv6 fields\<close>

definition ip_version :: "mem \<Rightarrow> ptr \<Rightarrow> u8" where
  [field_defs]: "ip_version m p = drop_bit 4 (hdr_get8h m (p + 0)) AND 0xF"

definition ipv6_traffic_class :: "mem \<Rightarrow> ptr \<Rightarrow> u8" where
  [field_defs]: "ipv6_traffic_class m p =
     (hdr_get8h m (p + 0) AND 0xF) OR (drop_bit 4 (hdr_get8h m (p + 1)) AND 0xF)"

definition ipv6_set_traffic_class :: "mem \<Rightarrow> ptr \<Rightarrow> u8 \<Rightarrow> mem" where
  [field_defs]: "ipv6_set_traffic_class m p cls =
     (let ch = hdr_get8h m (p + 0);
          m = hdr_set8h m (p + 0) ((ch AND 0xF0) OR drop_bit 4 cls);
          ch = hdr_get8h m (p + 1)
      in hdr_set8h m (p + 1) ((ch AND 0x0F) OR push_bit 4 (cls AND 0xF)))"

definition ipv6_set_flow_label :: "mem \<Rightarrow> ptr \<Rightarrow> u32 \<Rightarrow> mem" where
  [field_defs]: "ipv6_set_flow_label m p fl =
     (let ch = hdr_get8h m (p + 1);
          m = hdr_set8h m (p + 1) ((ch AND 0xF0) OR ucast (drop_bit 16 fl AND 0xF))
      in hdr_set16n m (p + 2) (ucast (fl AND 0xFFFF)))"

definition ip46_set_flow_label :: "mem \<Rightarrow> ptr \<Rightarrow> u32 \<Rightarrow> mem option" where
  [field_defs]: "ip46_set_flow_label m p fl =
     (if ip_version m p = 4 then (if fl \<noteq> 0 then None else Some m)
      else if ip_version m p = 6 then Some (ipv6_set_flow_label m p fl)
      else None)"

definition ipv6_set_payload_len :: "mem \<Rightarrow> ptr \<Rightarrow> u16 \<Rightarrow> mem" where
  [field_defs]: "ipv6_set_payload_len m p paylen = hdr_set16n m (p + 4) paylen"

definition ipv6_set_nexthdr :: "mem \<Rightarrow> ptr \<Rightarrow> u8 \<Rightarrow> mem" where
  [field_defs]: "ipv6_set_nexthdr m p nexthdr = hdr_set8h m (p + 6) nexthdr"

definition ipv6_set_hop_limit :: "mem \<Rightarrow> ptr \<Rightarrow> u8 \<Rightarrow> mem" where
  [field_defs]: "ipv6_set_hop_limit m p hl = hdr_set8h m (p + 7) hl"

definition ipv6_flow_label :: "mem \<Rightarrow> ptr \<Rightarrow> u32" where
  [field_defs]: "ipv6_flow_label m p =
     push_bit 16 (ucast (hdr_get8h m (p + 1)) AND 0xF) OR ucast (hdr_get16n m (p + 2))"

definition ip46_flow_label :: "mem \<Rightarrow> ptr \<Rightarrow> u32 option" where
  [field_defs]: "ip46_flow_label m p =
     (if ip_version m p = 4 then Some 0
      else if ip_version m p = 6 then Some (ipv6_flow_label m p)
      else None)"

definition ipv6_payload_len :: "mem \<Rightarrow> ptr \<Rightarrow> u16" where
  [field_defs]: "ipv6_payload_len m p = hdr_get16n m (p + 4)"

definition ipv6_nexthdr :: "mem \<Rightarrow> ptr \<Rightarrow> u8" where
  [field_defs]: "ipv6_nexthdr m p = hdr_get8h m (p + 6)"

definition ipv6_nexthdr_ptr :: "ptr \<Rightarrow> ptr" where
  [field_defs]: "ipv6_nexthdr_ptr p = p + 40"

definition ipv6_nexthdr_const_ptr :: "ptr \<Rightarrow> ptr" where
  [field_defs]: "ipv6_nexthdr_const_ptr p = p + 40"

definition ipv6_hop_limit :: "mem \<Rightarrow> ptr \<Rightarrow> u8" where
  [field_defs]: "ipv6_hop_limit m p = hdr_get8h m (p + 7)"

definition ipv6_src :: "ptr \<Rightarrow> ptr" where
  [field_defs]: "ipv6_src p = p + 8"

definition ipv6_dst :: "ptr \<Rightarrow> ptr" where
  [field_defs]: "ipv6_dst p = p + (8 + 16)"

definition ipv6_const_src :: "ptr \<Rightarrow> ptr" where
  [field_defs]: "ipv6_const_src p = p + 8"

definition ipv6_const_dst :: "ptr \<Rightarrow> ptr" where
  [field_defs]: "ipv6_const_dst p = p + (8 + 16)"

section \<open>Addresses of either version\<close>

definition ip_src_ptr :: "ptr \<Rightarrow> ptr" where
  [field_defs]: "ip_src_ptr p = p + 12"

definition ip_dst_ptr :: "ptr \<Rightarrow> ptr" where
  [field_defs]: "ip_dst_ptr p = p + 16"

definition ip46_src :: "mem \<Rightarrow> ptr \<Rightarrow> ptr option" where
  [field_defs]: "ip46_src m p =
     (if ip_version m p = 4 then Some (ip_src_ptr p)
      else if ip_version m p = 6 then Some (ipv6_src p)
      else None)"

definition ip46_set_src :: "mem \<Rightarrow> ptr \<Rightarrow> ptr \<Rightarrow> mem option" where
  [field_defs]: "ip46_set_src m p addr =
     (if ip_version m p = 4 then Some (memcpy m (ip_src_ptr p) addr 4)
      else if ip_version m p = 6 then Some (memcpy m (ipv6_src p) addr 16)
      else None)"

definition ip46_dst :: "mem \<Rightarrow> ptr \<Rightarrow> ptr option" where
  [field_defs]: "ip46_dst m p =
     (if ip_version m p = 4 then Some (ip_dst_ptr p)
      else if ip_version m p = 6 then Some (ipv6_dst p)
      else None)"

definition ip46_set_dst :: "mem \<Rightarrow> ptr \<Rightarrow> ptr \<Rightarrow> mem option" where
  [field_defs]: "ip46_set_dst m p addr =
     (if ip_version m p = 4 then Some (memcpy m (ip_dst_ptr p) addr 4)
      else if ip_version m p = 6 then Some (memcpy m (ipv6_dst p) addr 16)
      else None)"

definition ip_const_src_ptr :: "ptr \<Rightarrow> ptr" where
  [field_defs]: "ip_const_src_ptr p = p + 12"

definition ip_const_dst_ptr :: "ptr \<Rightarrow> ptr" where
  [field_defs]: "ip_const_dst_ptr p = p + 16"

definition ip46_const_src :: "mem \<Rightarrow> ptr \<Rightarrow> ptr option" where
  [field_defs]: "ip46_const_src m p =
     (if ip_version m p = 4 then Some (ip_const_src_ptr p)
      else if ip_version m p = 6 then Some (ipv6_const_src p)
      else None)"

definition ip46_const_dst :: "mem \<Rightarrow> ptr \<Rightarrow> ptr option" where
  [field_defs]: "ip46_const_dst m p =
     (if ip_version m p = 4 then Some (ip_const_dst_ptr p)
      else if ip_version m p = 6 then Some (ipv6_const_dst p)
      else None)"

section \<open>IPv6 extension headers\<close>

definition ipv6_extlen :: "u8 \<Rightarrow> u8 \<Rightarrow> u32" where
  "ipv6_extlen nexthdr lenfield =
     (if nexthdr = 44 then 8
      else if nexthdr = 51 then ucast lenfield * 4 + 8
      else ucast lenfield * 8 + 8)"

definition is_ipv6_nexthdr :: "u8 \<Rightarrow> bool" where
  "is_ipv6_nexthdr nexthdr \<longleftrightarrow>
     nexthdr = 0 \<or> nexthdr = 60 \<or> nexthdr = 43 \<or> nexthdr = 44 \<or> nexthdr = 51"

definition ipv6_frag_off :: "mem \<Rightarrow> ptr \<Rightarrow> u16" where
  [field_defs]: "ipv6_frag_off m frag = hdr_get16n m (frag + 2) AND 0xFFF8"

definition ipv6_more_frags :: "mem \<Rightarrow> ptr \<Rightarrow> u16" where
  [field_defs]: "ipv6_more_frags m frag = (if hdr_get16n m (frag + 2) AND 1 \<noteq> 0 then 1 else 0)"

text \<open>
  What \<^verbatim>\<open>ipv6_proto_hdr_2\<close> writes through its pointer arguments: the last two only when a
  fragment header was seen.
\<close>

record proto_hdr =
  ph_ptr :: ptr
  ph_proto :: u8
  ph_is_fragmented :: bool
  ph_frag_hdr_off :: "u16 option"
  ph_proto_hdr_off_from_frag :: "u16 option"

definition ipv6_proto_hdr_result :: "ptr \<Rightarrow> u16 \<Rightarrow> u8 \<Rightarrow> bool \<Rightarrow> u16 \<Rightarrow> proto_hdr" where
  "ipv6_proto_hdr_result ipv6 off nexthdr is_fragmented frag_hdr_off =
     \<lparr>ph_ptr = ipv6 + unat off, ph_proto = nexthdr, ph_is_fragmented = is_fragmented,
      ph_frag_hdr_off = (if is_fragmented then Some frag_hdr_off else None),
      ph_proto_hdr_off_from_frag = (if is_fragmented then Some (off - frag_hdr_off) else None)\<rparr>"

text \<open>
  The loop of the walk.  The outer option is the loop itself (\<open>None\<close>: it does not end), the
  inner one the returned pointer (\<open>None\<close>: \<^verbatim>\<open>NULL\<close>).  \<^verbatim>\<open>off\<close> is a \<^verbatim>\<open>uint16_t\<close>, so the addition
  to it truncates; the comparisons are made in 32 bits.
\<close>

partial_function (option) ipv6_proto_hdr_loop ::
  "mem \<Rightarrow> ptr \<Rightarrow> u32 \<Rightarrow> u16 \<Rightarrow> u8 \<Rightarrow> bool \<Rightarrow> u16 \<Rightarrow> proto_hdr option option"
where
  "ipv6_proto_hdr_loop m ipv6 tlen off nexthdr is_fragmented frag_hdr_off =
     (if \<not> is_ipv6_nexthdr nexthdr
      then Some (Some (ipv6_proto_hdr_result ipv6 off nexthdr is_fragmented frag_hdr_off))
      else if ucast off + 8 > tlen then Some None
      else if nexthdr = 44 \<and> ipv6_frag_off m (ipv6 + unat off) > 0
      then Some (Some (ipv6_proto_hdr_result ipv6 off nexthdr True off))
      else if ucast off +
          ipv6_extlen (m (ipv6 + unat off)) (m (ipv6 + (unat off + 1))) > tlen
      then Some None
      else ipv6_proto_hdr_loop m ipv6 tlen
        (off + ucast (ipv6_extlen (m (ipv6 + unat off)) (m (ipv6 + (unat off + 1)))))
        (m (ipv6 + unat off))
        (is_fragmented \<or> nexthdr = 44)
        (if nexthdr = 44 then off else frag_hdr_off))"

definition ipv6_proto_hdr_2 :: "mem \<Rightarrow> ptr \<Rightarrow> proto_hdr option option" where
  "ipv6_proto_hdr_2 m ipv6 =
     ipv6_proto_hdr_loop m ipv6 (ucast (ipv6_payload_len m ipv6) + 40) 40 (ipv6_nexthdr m ipv6) False 0"

definition ipv6_const_proto_hdr_2 :: "mem \<Rightarrow> ptr \<Rightarrow> proto_hdr option option" where
  "ipv6_const_proto_hdr_2 m ipv6 =
     ipv6_proto_hdr_loop m ipv6 (ucast (ipv6_payload_len m ipv6) + 40) 40 (ipv6_nexthdr m ipv6) False 0"

text \<open>The short forms pass \<^verbatim>\<open>NULL\<close> for the fragmentation results.\<close>

definition ipv6_proto_hdr :: "mem \<Rightarrow> ptr \<Rightarrow> (ptr \<times> u8) option option" where
  "ipv6_proto_hdr m ipv6 =
     map_option (map_option (\<lambda>r. (ph_ptr r, ph_proto r))) (ipv6_proto_hdr_2 m ipv6)"

definition ipv6_const_proto_hdr :: "mem \<Rightarrow> ptr \<Rightarrow> (ptr \<times> u8) option option" where
  "ipv6_const_proto_hdr m ipv6 =
     map_option (map_option (\<lambda>r. (ph_ptr r, ph_proto r))) (ipv6_const_proto_hdr_2 m ipv6)"

section \<open>IPv4 fields\<close>

definition ip_set_version :: "mem \<Rightarrow> ptr \<Rightarrow> u8 \<Rightarrow> mem" where
  [field_defs]: "ip_set_version m p version =
     (let uch = m (p + 0);
          uch = uch AND NOT 0xF0;
          uch = uch OR push_bit 4 (version AND 0xF)
      in m(p + 0 := uch))"

definition ip_hdr_len :: "mem \<Rightarrow> ptr \<Rightarrow> u8" where
  [field_defs]: "ip_hdr_len m p = (hdr_get8h m (p + 0) AND 0xF) * 4"

definition ip46_hdr_len :: "mem \<Rightarrow> ptr \<Rightarrow> u8 option" where
  [field_defs]: "ip46_hdr_len m p =
     (if ip_version m p = 4 then Some (ip_hdr_len m p)
      else if ip_version m p = 6 then Some 40
      else None)"

definition ip_set_hdr_len :: "mem \<Rightarrow> ptr \<Rightarrow> u8 \<Rightarrow> mem option" where
  [field_defs]: "ip_set_hdr_len m p hdr_len =
     (let uch = m (p + 0)
      in if hdr_len mod 4 \<noteq> 0 then None
         else (let hdr_len = hdr_len div 4;
                   uch = uch AND NOT 0xF;
                   uch = uch OR (hdr_len AND 0xF)
               in Some (m(p + 0 := uch))))"

definition ip46_set_hdr_len :: "mem \<Rightarrow> ptr \<Rightarrow> u8 \<Rightarrow> mem option" where
  [field_defs]: "ip46_set_hdr_len m p hdr_len =
     (if ip_version m p = 4 then ip_set_hdr_len m p hdr_len
      else if ip_version m p = 6 then (if hdr_len \<noteq> 40 then None else Some m)
      else None)"

definition ip46_set_min_hdr_len :: "mem \<Rightarrow> ptr \<Rightarrow> mem option" where
  [field_defs]: "ip46_set_min_hdr_len m p =
     (if ip_version m p = 4 then ip_set_hdr_len m p 20
      else if ip_version m p = 6 then Some m
      else None)"

definition ip_total_len :: "mem \<Rightarrow> ptr \<Rightarrow> u16" where
  [field_defs]: "ip_total_len m p = hdr_get16n m (p + 2)"

definition ip_set_total_len :: "mem \<Rightarrow> ptr \<Rightarrow> u16 \<Rightarrow> mem" where
  [field_defs]: "ip_set_total_len m p total_len = hdr_set16n m (p + 2) total_len"

definition ip46_set_total_len :: "mem \<Rightarrow> ptr \<Rightarrow> u16 \<Rightarrow> mem option" where
  [field_defs]: "ip46_set_total_len m p total_len =
     (if ip_version m p = 4 then Some (ip_set_total_len m p total_len)
      else if ip_version m p = 6
      then (if total_len < 40 then None else Some (ipv6_set_payload_len m p (total_len - 40)))
      else None)"

definition ip46_set_payload_len :: "mem \<Rightarrow> ptr \<Rightarrow> u16 \<Rightarrow> mem option" where
  [field_defs]: "ip46_set_payload_len m p payload_len =
     (if ip_version m p = 4 then Some (ip_set_total_len m p (payload_len + 20))
      else if ip_version m p = 6 then Some (ipv6_set_payload_len m p payload_len)
      else None)"

definition ip46_total_len :: "mem \<Rightarrow> ptr \<Rightarrow> u16 option" where
  [field_defs]: "ip46_total_len m p =
     (if ip_version m p = 4 then Some (ip_total_len m p)
      else if ip_version m p = 6 then Some (ipv6_payload_len m p + 40)
      else None)"

definition ip46_payload_len :: "mem \<Rightarrow> ptr \<Rightarrow> u16 option" where
  [field_defs]: "ip46_payload_len m p =
     (if ip_version m p = 4 then Some (ip_total_len m p - ucast (ip_hdr_len m p))
      else if ip_version m p = 6 then Some (ipv6_payload_len m p)
      else None)"

definition ip_more_frags :: "mem \<Rightarrow> ptr \<Rightarrow> cint" where
  [field_defs]: "ip_more_frags m p = ucast (hdr_get8h m (p + 6)) AND push_bit 5 1"

definition ip_set_more_frags :: "mem \<Rightarrow> ptr \<Rightarrow> cint \<Rightarrow> mem" where
  [field_defs]: "ip_set_more_frags m p b =
     (let b = notnot b;
          u8 = hdr_get8h m (p + 6);
          u8 = u8 AND NOT (push_bit 5 1);
          u8 = u8 OR ucast (push_bit 5 b)
      in hdr_set8h m (p + 6) u8)"

definition ip_dont_frag :: "mem \<Rightarrow> ptr \<Rightarrow> cint" where
  [field_defs]: "ip_dont_frag m p = ucast (hdr_get8h m (p + 6)) AND push_bit 6 1"

definition ip_set_dont_frag :: "mem \<Rightarrow> ptr \<Rightarrow> cint \<Rightarrow> mem" where
  [field_defs]: "ip_set_dont_frag m p b =
     (let b = notnot b;
          u8 = hdr_get8h m (p + 6);
          u8 = u8 AND NOT (push_bit 6 1);
          u8 = u8 OR ucast (push_bit 6 b)
      in hdr_set8h m (p + 6) u8)"

definition ip46_set_dont_frag :: "mem \<Rightarrow> ptr \<Rightarrow> cint \<Rightarrow> mem option" where
  [field_defs]: "ip46_set_dont_frag m p b =
     (if ip_version m p = 4 then Some (ip_set_dont_frag m p b)
      else if ip_version m p = 6 then (if b = 0 then None else Some m)
      else None)"

definition ip_rsvd_bit :: "mem \<Rightarrow> ptr \<Rightarrow> cint" where
  [field_defs]: "ip_rsvd_bit m p = ucast (hdr_get8h m (p + 6)) AND push_bit 7 1"

definition ip_set_rsvd_bit :: "mem \<Rightarrow> ptr \<Rightarrow> cint \<Rightarrow> mem" where
  [field_defs]: "ip_set_rsvd_bit m p b =
     (let b = notnot b;
          u8 = hdr_get8h m (p + 6);
          u8 = u8 AND NOT (push_bit 7 1);
          u8 = u8 OR ucast (push_bit 7 b)
      in hdr_set8h m (p + 6) u8)"

definition ip_id :: "mem \<Rightarrow> ptr \<Rightarrow> u16" where
  [field_defs]: "ip_id m p = hdr_get16n m (p + 4)"

definition ip_set_id :: "mem \<Rightarrow> ptr \<Rightarrow> u16 \<Rightarrow> mem" where
  [field_defs]: "ip_set_id m p ipid = hdr_set16n m (p + 4) ipid"

definition ip46_set_id :: "mem \<Rightarrow> ptr \<Rightarrow> u16 \<Rightarrow> mem option" where
  [field_defs]: "ip46_set_id m p ipid =
     (if ip_version m p = 4 then Some (ip_set_id m p ipid)
      else if ip_version m p = 6 then (if ipid \<noteq> 0 then None else Some m)
      else None)"

definition ip_frag_off :: "mem \<Rightarrow> ptr \<Rightarrow> u16" where
  [field_defs]: "ip_frag_off m p = (hdr_get16n m (p + 6) AND 0x1FFF) * 8"

definition ip_set_frag_off :: "mem \<Rightarrow> ptr \<Rightarrow> u16 \<Rightarrow> mem option" where
  [field_defs]: "ip_set_frag_off m p frag_off =
     (if frag_off mod 8 \<noteq> 0 then None
      else (let frag_off = frag_off div 8;
                c6 = m (p + 6);
                c6 = c6 AND NOT 0x1F;
                c6 = c6 OR ucast (drop_bit 8 frag_off AND 0x1F)
            in Some (m(p + 6 := c6, p + 7 := ucast (frag_off AND 0xFF)))))"

definition ip_ttl :: "mem \<Rightarrow> ptr \<Rightarrow> u8" where
  [field_defs]: "ip_ttl m p = hdr_get8h m (p + 8)"

definition ip_set_ttl :: "mem \<Rightarrow> ptr \<Rightarrow> u8 \<Rightarrow> mem" where
  [field_defs]: "ip_set_ttl m p ttl = hdr_set8h m (p + 8) ttl"

definition ip_decr_ttl :: "mem \<Rightarrow> ptr \<Rightarrow> (mem \<times> bool) option" where
  [field_defs]: "ip_decr_ttl m p =
     (let ttl = ip_ttl m p
      in if ttl = 0 then None
         else (let ttl = ttl - 1 in Some (ip_set_ttl m p ttl, ttl > 0)))"

definition ip_proto :: "mem \<Rightarrow> ptr \<Rightarrow> u8" where
  [field_defs]: "ip_proto m p = hdr_get8h m (p + 9)"

definition ip46_proto :: "mem \<Rightarrow> ptr \<Rightarrow> u8 option" where
  [field_defs]: "ip46_proto m p =
     (if ip_version m p = 4 then Some (ip_proto m p)
      else if ip_version m p = 6 then Some (ipv6_nexthdr m p)
      else None)"

definition ip_set_proto :: "mem \<Rightarrow> ptr \<Rightarrow> u8 \<Rightarrow> mem" where
  [field_defs]: "ip_set_proto m p proto = hdr_set8h m (p + 9) proto"

definition ip46_set_proto :: "mem \<Rightarrow> ptr \<Rightarrow> u8 \<Rightarrow> mem option" where
  [field_defs]: "ip46_set_proto m p proto =
     (if ip_version m p = 4 then Some (ip_set_proto m p proto)
      else if ip_version m p = 6 then Some (ipv6_set_nexthdr m p proto)
      else None)"

definition ip46_ttl :: "mem \<Rightarrow> ptr \<Rightarrow> u8 option" where
  [field_defs]: "ip46_ttl m p =
     (if ip_version m p = 4 then Some (ip_ttl m p)
      else if ip_version m p = 6 then Some (ipv6_hop_limit m p)
      else None)"

definition ip46_set_ttl :: "mem \<Rightarrow> ptr \<Rightarrow> u8 \<Rightarrow> mem option" where
  [field_defs]: "ip46_set_ttl m p ttl =
     (if ip_version m p = 4 then Some (ip_set_ttl m p ttl)
      else if ip_version m p = 6 then Some (ipv6_set_hop_limit m p ttl)
      else None)"

definition ip_hdr_cksum :: "mem \<Rightarrow> ptr \<Rightarrow> u16" where
  [field_defs]: "ip_hdr_cksum m p = hdr_get16n m (p + 10)"

definition ip_set_hdr_cksum :: "mem \<Rightarrow> ptr \<Rightarrow> u16 \<Rightarrow> mem" where
  [field_defs]: "ip_set_hdr_cksum m p hdr_cksum = hdr_set16n m (p + 10) hdr_cksum"

definition ip_src :: "mem \<Rightarrow> ptr \<Rightarrow> u32" where
  [field_defs]: "ip_src m p = hdr_get32n m (p + 12)"

definition ip_dst :: "mem \<Rightarrow> ptr \<Rightarrow> u32" where
  [field_defs]: "ip_dst m p = hdr_get32n m (p + 16)"

definition ip_set_src :: "mem \<Rightarrow> ptr \<Rightarrow> u32 \<Rightarrow> mem" where
  [field_defs]: "ip_set_src m p src = hdr_set32n m (p + 12) src"

definition ip_set_dst :: "mem \<Rightarrow> ptr \<Rightarrow> u32 \<Rightarrow> mem" where
  [field_defs]: "ip_set_dst m p dst = hdr_set32n m (p + 16) dst"

definition ip_payload :: "mem \<Rightarrow> ptr \<Rightarrow> ptr" where
  [field_defs]: "ip_payload m p = p + unat (ip_hdr_len m p)"

definition ip46_payload :: "mem \<Rightarrow> ptr \<Rightarrow> ptr option" where
  [field_defs]: "ip46_payload m p = map_option (\<lambda>l. p + unat l) (ip46_hdr_len m p)"

definition ip_const_payload :: "mem \<Rightarrow> ptr \<Rightarrow> ptr" where
  [field_defs]: "ip_const_payload m p = p + unat (ip_hdr_len m p)"

definition ip46_const_payload :: "mem \<Rightarrow> ptr \<Rightarrow> ptr option" where
  [field_defs]: "ip46_const_payload m p = map_option (\<lambda>l. p + unat l) (ip46_hdr_len m p)"

section \<open>Field contracts\<close>

interpretation ip_total_len_f: header_field ip_total_len ip_set_total_len 2 2
  unfolding ip_total_len_def [abs_def] ip_set_total_len_def [abs_def]
  by (rule field16.header_field_axioms)

interpretation ip_id_f: header_field ip_id ip_set_id 4 2
  unfolding ip_id_def [abs_def] ip_set_id_def [abs_def]
  by (rule field16.header_field_axioms)

interpretation ip_ttl_proto: disjoint_fields ip_ttl ip_set_ttl 8 1 ip_proto ip_set_proto 9 1
  unfolding ip_ttl_def [abs_def] ip_set_ttl_def [abs_def] ip_proto_def [abs_def] ip_set_proto_def [abs_def]
  by (intro disjoint_fields.intro field8.header_field_axioms disjoint_fields_axioms.intro) simp

interpretation ip_hdr_cksum_f: header_field ip_hdr_cksum ip_set_hdr_cksum 10 2
  unfolding ip_hdr_cksum_def [abs_def] ip_set_hdr_cksum_def [abs_def]
  by (rule field16.header_field_axioms)

interpretation ip_src_dst: disjoint_fields ip_src ip_set_src 12 4 ip_dst ip_set_dst 16 4
  unfolding ip_src_def [abs_def] ip_set_src_def [abs_def] ip_dst_def [abs_def] ip_set_dst_def [abs_def]
  by (intro disjoint_fields.intro field32.header_field_axioms disjoint_fields_axioms.intro) simp

section \<open>Fragment offset and flags share two bytes\<close>

lemma ip_hdr_len_le: "unat (ip_hdr_len m p) \<le> 60"
proof -
  have "unat (m p AND 0xF) \<le> unat (0xF :: u8)"
    using word_and_le1 [of "m p" "0xF"] by (simp add: word_le_nat_alt and.commute)
  then show ?thesis
    by (simp add: ip_hdr_len_def hdr_simps unat_word_ariths)
qed

lemma ip_flag_bits:
  "ip_more_frags m p = (if bit (m (p + 6)) 5 then push_bit 5 1 else 0)"
  "ip_dont_frag m p = (if bit (m (p + 6)) 6 then push_bit 6 1 else 0)"
  "ip_rsvd_bit m p = (if bit (m (p + 6)) 7 then push_bit 7 1 else 0)"
  by (simp_all only: ip_more_frags_def ip_dont_frag_def ip_rsvd_bit_def hdr_get8h_def and_push_bit_1)

lemma ip_set_more_frags_bit:
  "ip_set_more_frags m p b = m(p + 6 :=
     if b = 0 then m (p + 6) AND NOT (push_bit 5 1) else m (p + 6) OR push_bit 5 1)"
  by (rule ext) (simp add: ip_set_more_frags_def hdr_simps notnot_def u8_eq_iff bit_simps)

lemma ip_set_more_frags_correct:
  "ip_more_frags (ip_set_more_frags m p b) p \<noteq> 0 \<longleftrightarrow> b \<noteq> 0"
  "ip_dont_frag (ip_set_more_frags m p b) p = ip_dont_frag m p"
  "ip_rsvd_bit (ip_set_more_frags m p b) p = ip_rsvd_bit m p"
  "ip_frag_off (ip_set_more_frags m p b) p = ip_frag_off m p"
proof -
  have mask: "mk16 c x AND 0x1FFF = mk16 (c AND 0x1F) x" for c x
    by (auto simp: u16_eq_iff mk16_def bit_simps dest: bit_imp_le_length)
  have "(c AND NOT (push_bit 5 1)) AND 0x1F = c AND 0x1F" "(c OR push_bit 5 1) AND 0x1F = c AND 0x1F"
    for c :: u8
    by (simp_all add: u8_eq_iff bit_simps)
  then show "ip_frag_off (ip_set_more_frags m p b) p = ip_frag_off m p"
    by (simp add: ip_set_more_frags_bit ip_frag_off_def hdr_simps mask)
qed (simp_all add: ip_set_more_frags_bit ip_flag_bits bit_simps)

lemma frag_off_bits:
  assumes "unat (k :: u16) < 8192"
  shows "mk16 (c AND NOT 0x1F OR ucast (drop_bit 8 k AND 0x1F)) (ucast (k AND 0xFF)) AND 0x1FFF = k"
  using not_bit_if_small [of k 13] assms
  by (simp add: u16_eq_iff mk16_def bit_simps)

lemma ip_set_frag_off_correct:
  assumes "frag_off mod 8 = 0"
  obtains m' where "ip_set_frag_off m p frag_off = Some m'" "ip_frag_off m' p = frag_off"
    "ip_more_frags m' p = ip_more_frags m p" "ip_dont_frag m' p = ip_dont_frag m p"
    "ip_rsvd_bit m' p = ip_rsvd_bit m p" "\<And>a. a \<noteq> p + 6 \<Longrightarrow> a \<noteq> p + 7 \<Longrightarrow> m' a = m a"
proof -
  define k where "k = frag_off div 8"
  define m' where "m' = m(p + 6 := m (p + 6) AND NOT 0x1F OR ucast (drop_bit 8 k AND 0x1F),
    p + 7 := ucast (k AND 0xFF))"
  have k: "unat k < 8192"
    using unat_u16_less [of frag_off] by (simp add: k_def unat_div)
  have d: "k * 8 = frag_off"
    using assms word_mod_div_equality [of frag_off 8] by (simp add: k_def)
  have 1: "ip_set_frag_off m p frag_off = Some m'"
    using assms by (simp add: ip_set_frag_off_def m'_def k_def Let_def)
  have 2: "ip_frag_off m' p = frag_off"
    using frag_off_bits [OF k, of "m (p + 6)"] d
    by (simp add: ip_frag_off_def hdr_simps m'_def add.commute [of p])
  show ?thesis
    by (rule that [OF 1 2]) (simp_all add: m'_def ip_flag_bits bit_simps)
qed

lemma ip_set_frag_off_unaligned: "frag_off mod 8 \<noteq> 0 \<Longrightarrow> ip_set_frag_off m p frag_off = None"
  by (simp add: ip_set_frag_off_def)

section \<open>The walk over IPv6 extension headers\<close>

lemma ipv6_extlen_bounds: "8 \<le> unat (ipv6_extlen n l)" "unat (ipv6_extlen n l) \<le> 2048"
  using unat_u8_less [of l]
  by (simp_all add: ipv6_extlen_def unat_word_ariths)

lemma unat_word16_add:
  "unat (off :: u16) + unat (e :: u32) < 65536 \<Longrightarrow> unat (off + ucast e) = unat off + unat e"
  by (simp add: unat_word_ariths unsigned_ucast_eq take_bit_nat_def)

lemma unat_word32_add:
  "unat (off :: u16) + unat (e :: u32) < 65536 * 65536 \<Longrightarrow> unat (ucast off + e) = unat off + unat e"
  by (simp add: unat_word_ariths)

lemma ipv6_proto_hdr_loop_returns:
  assumes "unat tlen < 65536" "40 \<le> unat off" "unat off \<le> unat tlen"
  shows "\<exists>r. ipv6_proto_hdr_loop m p tlen off nh fr fo = Some r \<and>
    (\<forall>h. r = Some h \<longrightarrow> p + 40 \<le> ph_ptr h \<and> ph_ptr h \<le> p + unat tlen)"
  using assms(2,3)
proof (induction "65536 - unat off" arbitrary: off nh fr fo rule: less_induct)
  case less
  let ?e = "ipv6_extlen (m (p + unat off)) (m (p + (unat off + 1)))"
  note b = ipv6_extlen_bounds [of "m (p + unat off)" "m (p + (unat off + 1))"]
  note u = unat_u16_less [of off]
  show ?case
  proof (cases "is_ipv6_nexthdr nh \<and> \<not> ucast off + 8 > tlen \<and>
      \<not> (nh = 44 \<and> ipv6_frag_off m (p + unat off) > 0) \<and> \<not> ucast off + ?e > tlen")
    case False
    then show ?thesis
      using less.prems
      by (subst ipv6_proto_hdr_loop.simps) (auto simp: ipv6_proto_hdr_result_def)
  next
    case True
    then have "unat (ucast off + ?e) \<le> unat tlen" by (simp add: word_less_nat_alt not_less)
    then have le: "unat off + unat ?e \<le> unat tlen" using b u by (simp add: unat_word32_add)
    then have o: "unat (off + ucast ?e) = unat off + unat ?e"
      using assms(1) by (simp add: unat_word16_add)
    have "65536 - unat (off + ucast ?e) < 65536 - unat off" using o b u le assms(1) by linarith
    moreover have "40 \<le> unat (off + ucast ?e)" "unat (off + ucast ?e) \<le> unat tlen"
      using o le less.prems by linarith+
    moreover have "ipv6_proto_hdr_loop m p tlen off nh fr fo = ipv6_proto_hdr_loop m p tlen
        (off + ucast ?e) (m (p + unat off)) (fr \<or> nh = 44) (if nh = 44 then off else fo)"
      using True by (subst ipv6_proto_hdr_loop.simps) auto
    ultimately show ?thesis by (simp only: less.hyps)
  qed
qed

text \<open>
  C21: For every IPv6 packet whose total length fits in 16 bits, the walk over the extension
  headers ends, and a non-\<^verbatim>\<open>NULL\<close> result points behind the fixed header and not past the end
  of the packet.
\<close>

theorem ipv6_proto_hdr_2_returns:
  assumes "unat (ipv6_payload_len m p) + 40 < 65536"
  shows "\<exists>r. ipv6_proto_hdr_2 m p = Some r \<and>
    (\<forall>h. r = Some h \<longrightarrow> p + 40 \<le> ph_ptr h \<and> ph_ptr h \<le> p + 40 + unat (ipv6_payload_len m p))"
proof -
  let ?t = "ucast (ipv6_payload_len m p) + 40 :: u32"
  have "unat ?t = unat (ipv6_payload_len m p) + 40"
    using assms by (simp add: unat_word_ariths)
  moreover have "unat (40 :: u16) = 40" by simp
  ultimately show ?thesis
    using ipv6_proto_hdr_loop_returns [of ?t 40 m p "ipv6_nexthdr m p" False 0] assms
    unfolding ipv6_proto_hdr_2_def by (simp only: add.assoc add.commute [of 40])
qed

theorem ipv6_proto_hdr_2_returns_witness:
  "\<exists>r. ipv6_proto_hdr_2 (\<lambda>_. 0) 0 = Some r \<and>
    (\<forall>h. r = Some h \<longrightarrow> 0 + 40 \<le> ph_ptr h \<and> ph_ptr h \<le> 0 + 40 + unat (ipv6_payload_len (\<lambda>_. 0) 0))"
  by (rule ipv6_proto_hdr_2_returns) (simp add: field_defs hdr_simps mk16_def)

text \<open>
  The largest payload lengths make \<^verbatim>\<open>tlen\<close> exceed the range of the 16-bit \<^verbatim>\<open>off\<close>.  In this
  packet every extension header is a hop-by-hop header of 8 bytes, but for the last one, whose
  16 bytes lead past offset 65535 and, by truncation, back into the source address.
\<close>

definition ipv6_cyclic_pkt :: mem where
  "ipv6_cyclic_pkt = (\<lambda>_. 0)(0 := 0x60, 4 := 0xff, 5 := 0xff, 65529 := 1)"



text \<open>Every header of this packet points to a header of the same packet.\<close>

lemma ipv6_cyclic_step:
  fixes off :: u16
  assumes "8 \<le> unat off" "unat off mod 8 = 0"
  defines "e \<equiv> ipv6_extlen (ipv6_cyclic_pkt (unat off)) (ipv6_cyclic_pkt (unat off + 1))"
  shows "ipv6_cyclic_pkt (unat off) = 0" "\<not> ucast off + 8 > (65575 :: u32)"
    "\<not> ucast off + e > 65575" "8 \<le> unat (off + ucast e)" "unat (off + ucast e) mod 8 = 0"
proof -
  from assms(1,2) show b0: "ipv6_cyclic_pkt (unat off) = 0"
    by (auto simp: ipv6_cyclic_pkt_def)
  from assms(1,2) have e: "e = (if unat off = 65528 then 16 else 8)"
    unfolding e_def b0 by (auto simp: ipv6_cyclic_pkt_def ipv6_extlen_def)
  from assms(2) obtain q where "unat off = 8 * q" by (metis dvd_def mod_0_imp_dvd)
  then have le: "unat off \<le> 65528" using unat_u16_less [of off] by simp
  then have "unat (ucast off + (8 :: u32)) = unat off + 8" "unat (ucast off + (16 :: u32)) = unat off + 16"
    by (simp_all add: unat_word_ariths)
  with le show "\<not> ucast off + 8 > (65575 :: u32)" "\<not> ucast off + e > 65575"
    by (simp_all add: e word_less_nat_alt)
  have "unat (off + ucast e) = (if unat off = 65528 then 8 else unat off + 8)"
    using le assms(2) by (simp add: e unat_word_ariths)
  then show "8 \<le> unat (off + ucast e)" "unat (off + ucast e) mod 8 = 0"
    using assms(1,2) by simp_all
qed

lemma ipv6_loop_cyclic:
  assumes "ipv6_proto_hdr_loop m p tlen off nh fr fo = Some r"
  shows "\<not> (m = ipv6_cyclic_pkt \<and> p = 0 \<and> tlen = 65575 \<and> nh = 0 \<and> 8 \<le> unat off \<and> unat off mod 8 = 0)"
proof (rule ipv6_proto_hdr_loop.raw_induct [where P = "\<lambda>m p tlen off nh fr fo r.
    \<not> (m = ipv6_cyclic_pkt \<and> p = 0 \<and> tlen = 65575 \<and> nh = 0 \<and> 8 \<le> unat off \<and> unat off mod 8 = 0)",
    OF _ assms], goal_cases)
  case (1 loop m p tlen off nh fr fo r)
  show ?case
  proof
    assume s: "m = ipv6_cyclic_pkt \<and> p = 0 \<and> tlen = 65575 \<and> nh = 0 \<and> 8 \<le> unat off \<and> unat off mod 8 = 0"
    then have "8 \<le> unat off" "unat off mod 8 = 0" by auto
    note step = ipv6_cyclic_step [OF this]
    from 1(2) s step have "loop m p tlen
        (off + ucast (ipv6_extlen (m (p + unat off)) (m (p + (unat off + 1))))) 0 fr fo = Some r"
      by (simp add: is_ipv6_nexthdr_def)
    from 1(1) [OF this] s step(4,5) show False by simp
  qed
qed

text \<open>
  C22: The walk does not end on the IPv6 packet \<open>ipv6_cyclic_pkt\<close>, which has payload length
  65535: the 16-bit offset wraps around and the loop visits the same headers for ever.
\<close>

theorem ipv6_proto_hdr_2_diverges:
  "ip_version ipv6_cyclic_pkt 0 = 6 \<and> ipv6_proto_hdr_2 ipv6_cyclic_pkt 0 = None"
proof -
  have "ipv6_proto_hdr_loop ipv6_cyclic_pkt 0 65575 40 0 False 0 \<noteq> Some r" for r
    using ipv6_loop_cyclic [of ipv6_cyclic_pkt 0 65575 40 0 False 0 r] by auto
  then have "ipv6_proto_hdr_loop ipv6_cyclic_pkt 0 65575 40 0 False 0 = None" by auto
  then show ?thesis
    by (simp add: ipv6_proto_hdr_2_def field_defs hdr_simps ipv6_cyclic_pkt_def mk16_def)
qed

text \<open>
  The length of an extension header is computed from the type of the header that follows
  it.  When a first hop-by-hop header announces a fragment header, the walk always continues
  8 bytes further, whatever the length field of the hop-by-hop header says.
\<close>

theorem ipv6_ext_len_from_next_type:
  assumes "ipv6_nexthdr m p = 0" "m (p + 40) = 44" "8 \<le> unat (ipv6_payload_len m p)"
  shows "ipv6_proto_hdr_2 m p =
    ipv6_proto_hdr_loop m p (ucast (ipv6_payload_len m p) + 40) 48 44 False 0"
proof -
  have "unat (ucast (ipv6_payload_len m p) + 40 :: u32) = unat (ipv6_payload_len m p) + 40"
    using unat_u16_less [of "ipv6_payload_len m p"] by (simp add: unat_word_ariths)
  with assms(3) have "\<not> (48 :: u32) > ucast (ipv6_payload_len m p) + 40"
    by (simp add: word_less_nat_alt)
  with assms(1,2) show ?thesis
    unfolding ipv6_proto_hdr_2_def
    by (subst ipv6_proto_hdr_loop.simps) (simp add: is_ipv6_nexthdr_def ipv6_extlen_def)
qed

theorem ipv6_ext_len_from_next_type_witness:
  "let m = (\<lambda>_. 0)(0 := 0x60, 5 := 24, 40 := 44, 41 := 1 :: u8) in
   ipv6_proto_hdr_2 m 0 = ipv6_proto_hdr_loop m 0 64 48 44 False 0"
  using ipv6_ext_len_from_next_type [of "(\<lambda>_. 0)(0 := 0x60, 5 := 24, 40 := 44, 41 := 1)" 0]
  by (simp add: field_defs hdr_simps mk16_def)

section \<open>Traffic class\<close>

text \<open>
  The traffic class getter ORs the two nibbles without shifting the upper one, so it
  returns what the setter stored exactly for the classes below 16.
\<close>

theorem ipv6_traffic_class_get_set:
  "ipv6_traffic_class (ipv6_set_traffic_class m p cls) p = cls \<longleftrightarrow> drop_bit 4 cls = 0"
  by (auto simp: field_defs hdr_simps Let_def u8_eq_iff bit_simps dest: bit_imp_le_length)

section \<open>Time to live\<close>

text \<open>
  Decrementing the TTL aborts exactly on a zero TTL; otherwise the TTL byte alone
  changes, it becomes one less, and the result says whether it is still positive.
\<close>

theorem ip_decr_ttl_correct:
  "ip_decr_ttl m p = (if ip_ttl m p = 0 then None
     else Some (m(p + 8 := ip_ttl m p - 1), 1 < unat (ip_ttl m p)))"
proof (cases "ip_ttl m p = 0")
  case False
  then have "unat (ip_ttl m p - 1) = unat (ip_ttl m p) - 1"
    by (metis unat_minus_one)
  then show ?thesis
    using False by (auto simp: ip_decr_ttl_def ip_set_ttl_def hdr_simps word_less_nat_alt Let_def)
qed (simp add: ip_decr_ttl_def)

section \<open>Fragmentation fields\<close>

text \<open>
  Storing a fragment offset that is a multiple of 8 makes the getter return it, leaves the
  three flag bits that share its bytes alone, and changes no other byte; storing any other
  offset aborts.
\<close>

theorem ip_set_frag_off_roundtrip:
  "if frag_off mod 8 = 0
   then (\<exists>m'. ip_set_frag_off m p frag_off = Some m' \<and> ip_frag_off m' p = frag_off \<and>
     ip_more_frags m' p = ip_more_frags m p \<and> ip_dont_frag m' p = ip_dont_frag m p \<and>
     ip_rsvd_bit m' p = ip_rsvd_bit m p \<and> (\<forall>a. a = p + 6 \<or> a = p + 7 \<or> m' a = m a))
   else ip_set_frag_off m p frag_off = None"
proof (cases "frag_off mod 8 = 0")
  case True
  from ip_set_frag_off_correct [OF this, of m p] show ?thesis
    unfolding if_P [OF True] by metis
qed (simp add: ip_set_frag_off_unaligned)

end
