(* ===== verification/L4Hdr.thy ===== *)
theory L4Hdr
  imports Hdr
begin

text \<open>
  The TCP and UDP accessors of \<^verbatim>\<open>src/iphdr/iphdr.h\<close> and the records that the TCP option
  parsers fill in.  The \<^verbatim>\<open>!!\<close> of a flag is a \<open>bool\<close> here.
\<close>

section \<open>TCP\<close>

definition tcp_src_port :: "mem \<Rightarrow> ptr \<Rightarrow> u16" where
  [field_defs]: "tcp_src_port m p = hdr_get16n m (p + 0)"

definition tcp_dst_port :: "mem \<Rightarrow> ptr \<Rightarrow> u16" where
  [field_defs]: "tcp_dst_port m p = hdr_get16n m (p + 2)"

definition tcp_set_src_port :: "mem \<Rightarrow> ptr \<Rightarrow> u16 \<Rightarrow> mem" where
  [field_defs]: "tcp_set_src_port m p src_port = hdr_set16n m (p + 0) src_port"

definition tcp_set_dst_port :: "mem \<Rightarrow> ptr \<Rightarrow> u16 \<Rightarrow> mem" where
  [field_defs]: "tcp_set_dst_port m p dst_port = hdr_set16n m (p + 2) dst_port"

definition tcp_ack :: "mem \<Rightarrow> ptr \<Rightarrow> bool" where
  [field_defs]: "tcp_ack m p \<longleftrightarrow> hdr_get8h m (p + 13) AND push_bit 4 1 \<noteq> 0"

definition tcp_set_ack_on :: "mem \<Rightarrow> ptr \<Rightarrow> mem" where
  [field_defs]: "tcp_set_ack_on m p = hdr_set8h m (p + 13) (hdr_get8h m (p + 13) OR push_bit 4 1)"

definition tcp_set_ack_off :: "mem \<Rightarrow> ptr \<Rightarrow> mem" where
  [field_defs]: "tcp_set_ack_off m p =
     hdr_set8h m (p + 13) (hdr_get8h m (p + 13) AND NOT (push_bit 4 1))"

definition tcp_rst :: "mem \<Rightarrow> ptr \<Rightarrow> bool" where
  [field_defs]: "tcp_rst m p \<longleftrightarrow> hdr_get8h m (p + 13) AND push_bit 2 1 \<noteq> 0"

definition tcp_set_rst_on :: "mem \<Rightarrow> ptr \<Rightarrow> mem" where
  [field_defs]: "tcp_set_rst_on m p = hdr_set8h m (p + 13) (hdr_get8h m (p + 13) OR push_bit 2 1)"

definition tcp_syn :: "mem \<Rightarrow> ptr \<Rightarrow> bool" where
  [field_defs]: "tcp_syn m p \<longleftrightarrow> hdr_get8h m (p + 13) AND push_bit 1 1 \<noteq> 0"

definition tcp_set_syn_on :: "mem \<Rightarrow> ptr \<Rightarrow> mem" where
  [field_defs]: "tcp_set_syn_on m p = hdr_set8h m (p + 13) (hdr_get8h m (p + 13) OR push_bit 1 1)"

definition tcp_fin :: "mem \<Rightarrow> ptr \<Rightarrow> bool" where
  [field_defs]: "tcp_fin m p \<longleftrightarrow> hdr_get8h m (p + 13) AND push_bit 0 1 \<noteq> 0"

definition tcp_set_fin_on :: "mem \<Rightarrow> ptr \<Rightarrow> mem" where
  [field_defs]: "tcp_set_fin_on m p = hdr_set8h m (p + 13) (hdr_get8h m (p + 13) OR push_bit 0 1)"

definition tcp_cksum :: "mem \<Rightarrow> ptr \<Rightarrow> u16" where
  [field_defs]: "tcp_cksum m p = hdr_get16n m (p + 16)"

definition tcp_set_cksum :: "mem \<Rightarrow> ptr \<Rightarrow> u16 \<Rightarrow> mem" where
  [field_defs]: "tcp_set_cksum m p checksum = hdr_set16n m (p + 16) checksum"

section \<open>UDP\<close>

definition udp_src_port :: "mem \<Rightarrow> ptr \<Rightarrow> u16" where
  [field_defs]: "udp_src_port m p = hdr_get16n m (p + 0)"

definition udp_dst_port :: "mem \<Rightarrow> ptr \<Rightarrow> u16" where
  [field_defs]: "udp_dst_port m p = hdr_get16n m (p + 2)"

definition udp_set_src_port :: "mem \<Rightarrow> ptr \<Rightarrow> u16 \<Rightarrow> mem" where
  [field_defs]: "udp_set_src_port m p src_port = hdr_set16n m (p + 0) src_port"

definition udp_set_dst_port :: "mem \<Rightarrow> ptr \<Rightarrow> u16 \<Rightarrow> mem" where
  [field_defs]: "udp_set_dst_port m p dst_port = hdr_set16n m (p + 2) dst_port"

definition udp_total_len :: "mem \<Rightarrow> ptr \<Rightarrow> u16" where
  [field_defs]: "udp_total_len m p = hdr_get16n m (p + 4)"

definition udp_set_total_len :: "mem \<Rightarrow> ptr \<Rightarrow> u16 \<Rightarrow> mem" where
  [field_defs]: "udp_set_total_len m p total_len = hdr_set16n m (p + 4) total_len"

definition udp_cksum :: "mem \<Rightarrow> ptr \<Rightarrow> u16" where
  [field_defs]: "udp_cksum m p = hdr_get16n m (p + 6)"

definition udp_set_cksum :: "mem \<Rightarrow> ptr \<Rightarrow> u16 \<Rightarrow> mem" where
  [field_defs]: "udp_set_cksum m p cksum = hdr_set16n m (p + 6) cksum"

section \<open>TCP sequence space, window and data offset\<close>

definition tcp_seq_number :: "mem \<Rightarrow> ptr \<Rightarrow> u32" where
  [field_defs]: "tcp_seq_number m p = hdr_get32n m (p + 4)"

definition tcp_ack_number :: "mem \<Rightarrow> ptr \<Rightarrow> u32" where
  [field_defs]: "tcp_ack_number m p = hdr_get32n m (p + 8)"

definition tcp_set_seq_number :: "mem \<Rightarrow> ptr \<Rightarrow> u32 \<Rightarrow> mem" where
  [field_defs]: "tcp_set_seq_number m p seq_number = hdr_set32n m (p + 4) seq_number"

definition tcp_set_ack_number :: "mem \<Rightarrow> ptr \<Rightarrow> u32 \<Rightarrow> mem" where
  [field_defs]: "tcp_set_ack_number m p ack_number = hdr_set32n m (p + 8) ack_number"

definition tcp_window :: "mem \<Rightarrow> ptr \<Rightarrow> u16" where
  [field_defs]: "tcp_window m p = hdr_get16n m (p + 14)"

definition tcp_set_window :: "mem \<Rightarrow> ptr \<Rightarrow> u16 \<Rightarrow> mem" where
  [field_defs]: "tcp_set_window m p window = hdr_set16n m (p + 14) window"

definition tcp_set_data_offset :: "mem \<Rightarrow> ptr \<Rightarrow> u8 \<Rightarrow> mem option" where
  [field_defs]: "tcp_set_data_offset m p data_off =
     (if data_off mod 4 \<noteq> 0 \<or> data_off > 60 then None
      else (let val = hdr_get8h m (p + 12);
                val = val AND NOT 0xF0;
                val = val OR push_bit 4 (data_off div 4)
            in Some (hdr_set8h m (p + 12) val)))"

definition tcp_data_offset :: "mem \<Rightarrow> ptr \<Rightarrow> u8" where
  [field_defs]: "tcp_data_offset m p = drop_bit 4 (hdr_get8h m (p + 12)) * 4"

section \<open>Option records\<close>

record sack_ts_headers =
  sackoff :: u8
  sacklen :: u8
  tsoff :: u8

record tcp_information =
  options_valid :: u8
  wscale :: u8
  mss :: u16
  sack_permitted :: u8
  mssoff :: u8
  ts_present :: u8
  ts :: u32
  tsecho :: u32

definition tcp_tsval :: "mem \<Rightarrow> ptr \<Rightarrow> sack_ts_headers \<Rightarrow> u32 option" where
  [field_defs]: "tcp_tsval m p hdrs =
     (if tsoff hdrs < 20 then None else Some (hdr_get32n m (p + (unat (tsoff hdrs) + 2))))"

definition tcp_tsecho :: "mem \<Rightarrow> ptr \<Rightarrow> sack_ts_headers \<Rightarrow> u32 option" where
  [field_defs]: "tcp_tsecho m p hdrs =
     (if tsoff hdrs < 20 then None else Some (hdr_get32n m (p + (unat (tsoff hdrs) + 6))))"

section \<open>Field contracts\<close>

interpretation tcp_cksum_f: header_field tcp_cksum tcp_set_cksum 16 2
  unfolding tcp_cksum_def [abs_def] tcp_set_cksum_def [abs_def]
  by (rule field16.header_field_axioms)

interpretation udp_cksum_f: header_field udp_cksum udp_set_cksum 6 2
  unfolding udp_cksum_def [abs_def] udp_set_cksum_def [abs_def]
  by (rule field16.header_field_axioms)

interpretation tcp_ports: disjoint_fields
  tcp_src_port tcp_set_src_port 0 2 tcp_dst_port tcp_set_dst_port 2 2
  unfolding tcp_src_port_def [abs_def] tcp_set_src_port_def [abs_def]
    tcp_dst_port_def [abs_def] tcp_set_dst_port_def [abs_def]
  by (intro disjoint_fields.intro field16.header_field_axioms disjoint_fields_axioms.intro) simp

interpretation tcp_seq_ack: disjoint_fields
  tcp_seq_number tcp_set_seq_number 4 4 tcp_ack_number tcp_set_ack_number 8 4
  unfolding tcp_seq_number_def [abs_def] tcp_set_seq_number_def [abs_def]
    tcp_ack_number_def [abs_def] tcp_set_ack_number_def [abs_def]
  by (intro disjoint_fields.intro field32.header_field_axioms disjoint_fields_axioms.intro) simp

lemma tcp_flags_ack_off:
  "\<not> tcp_ack (tcp_set_ack_off m p) p"
  "tcp_syn (tcp_set_ack_off m p) p = tcp_syn m p"
  "tcp_fin (tcp_set_ack_off m p) p = tcp_fin m p"
  "tcp_rst (tcp_set_ack_off m p) p = tcp_rst m p"
  by (auto simp: field_defs hdr_simps u8_eq_iff bit_simps)

lemma tcp_data_offset_set:
  assumes "data_off mod 4 = 0" "data_off \<le> 60"
  shows "\<exists>m'. tcp_set_data_offset m p data_off = Some m' \<and> tcp_data_offset m' p = data_off \<and>
     (\<forall>a. a \<noteq> p + 12 \<longrightarrow> m' a = m a)"
proof -
  define k where "k = data_off div 4"
  have k: "unat k \<le> 15" and d: "data_off = k * 4"
  proof -
    have "unat data_off \<le> 60" using assms(2) by (simp add: word_le_nat_alt)
    then show "unat k \<le> 15" by (simp add: k_def unat_div)
    have "data_off = data_off div 4 * 4 + data_off mod 4" by (simp add: word_mod_div_equality)
    then show "data_off = k * 4" using assms(1) by (simp add: k_def)
  qed
  have bits: "\<not> bit k n" if "4 \<le> n" for n
    using k that by (intro not_bit_if_small [of k 4]) auto
  have "drop_bit 4 (push_bit 4 k) = k"
    by (simp add: u8_eq_iff bit_simps bits)
  then have "drop_bit 4 (push_bit 4 (data_off div 4)) * 4 = data_off"
    by (simp only: k_def [symmetric] d [symmetric])
  with assms show ?thesis
    by (auto simp: tcp_set_data_offset_def tcp_data_offset_def hdr_byte_simps Let_def)
qed

end
