(* ===== verification/IpCksum.thy ===== *)
theory IpCksum
  imports IpHdr L4Hdr
begin

text \<open>
  Internet checksum of \<^verbatim>\<open>src/iphdr/ipcksum.c\<close> and the full-computation half of
  \<^verbatim>\<open>src/iphdr/ipcksum.h\<close>.  The code adds 16-bit words in host byte order, eight at a time,
  into a 32-bit accumulator, folds the carries at the end and swaps the result.  The
  reference \<open>rfc1071\<close> is the definition of the RFC: the one's complement of the one's
  complement sum of the big-endian words of the data.  The lemmas show that the two agree,
  and that a header whose checksum field was set verifies.
\<close>

section \<open>The accumulator\<close>

record ip_cksum_ctx =
  ctx_sum :: u32

definition IP_CKSUM_CTX_INITER :: ip_cksum_ctx where
  "IP_CKSUM_CTX_INITER = \<lparr>ctx_sum = 0\<rparr>"

text \<open>The loop that folds the carries into the low 16 bits.\<close>

function ip_cksum_fold :: "u32 \<Rightarrow> u32" where
  "ip_cksum_fold s =
     (if drop_bit 16 s \<noteq> 0 then ip_cksum_fold ((s AND 0xffff) + drop_bit 16 s) else s)"
  by auto

lemma unat_fold_step:
  "unat ((s AND 0xffff) + drop_bit 16 s :: u32) = unat s mod 65536 + unat s div 65536"
proof -
  have "s AND 0xffff = take_bit 16 s"
    by (simp add: take_bit_eq_mask mask_eq_exp_minus_1)
  then have "unat (s AND 0xffff) = unat s mod 65536"
    by (simp add: take_bit_eq_mod unat_mod)
  moreover have "unat (drop_bit 16 s) = unat s div 65536"
    by (simp add: drop_bit_eq_div unat_div)
  ultimately show ?thesis
    using unat_u32_less [of s] by (simp add: unat_word_ariths)
qed

lemma drop_bit_16_eq_0: "drop_bit 16 (s :: u32) = 0 \<longleftrightarrow> unat s < 65536"
  by (simp add: drop_bit_eq_div unat_div word_unat_eq_iff div_eq_0_iff)

lemma fold_step_split: "(n :: nat) = n mod 65536 + n div 65536 + 65535 * (n div 65536)"
proof -
  define q r where "q = n div 65536" and "r = n mod 65536"
  have "n = q * 65536 + r" unfolding q_def r_def by (rule div_mult_mod_eq [symmetric])
  then show ?thesis unfolding q_def [symmetric] r_def [symmetric] by simp
qed

termination ip_cksum_fold
proof (relation "measure unat")
  fix s :: u32
  assume "drop_bit 16 s \<noteq> 0"
  then have "unat s div 65536 \<noteq> 0" by (simp add: drop_bit_16_eq_0 div_eq_0_iff)
  with fold_step_split [of "unat s"] have "unat s mod 65536 + unat s div 65536 < unat s"
    by (metis less_add_same_cancel1 mult_is_0 neq0_conv zero_neq_numeral)
  then show "((s AND 0xffff) + drop_bit 16 s, s) \<in> measure unat"
    by (simp only: in_measure unat_fold_step)
qed simp

declare ip_cksum_fold.simps [simp del]

definition ip_cksum_postprocess :: "ip_cksum_ctx \<Rightarrow> u16" where
  "ip_cksum_postprocess ctx = ntohs (ucast (NOT (ip_cksum_fold (ctx_sum ctx))))"

definition ip_cksum_add16 :: "ip_cksum_ctx \<Rightarrow> u16 \<Rightarrow> ip_cksum_ctx" where
  "ip_cksum_add16 ctx val16 = ctx\<lparr>ctx_sum := ctx_sum ctx + ucast val16\<rparr>"

definition ip_cksum_add_leftover :: "ip_cksum_ctx \<Rightarrow> u8 \<Rightarrow> ip_cksum_ctx" where
  "ip_cksum_add_leftover ctx val = ctx\<lparr>ctx_sum := ctx_sum ctx + ucast (htons (push_bit 8 (ucast val)))\<rparr>"

definition ip_cksum_feed32ptr :: "ip_cksum_ctx \<Rightarrow> mem \<Rightarrow> ptr \<Rightarrow> ip_cksum_ctx" where
  "ip_cksum_feed32ptr ctx m buf =
     ip_cksum_add16 (ip_cksum_add16 ctx (hdr_get16h m (buf + 0))) (hdr_get16h m (buf + 2))"

text \<open>The two loops and the odd byte of \<^verbatim>\<open>ip_cksum_feed\<close>.\<close>

fun ip_cksum_feed_loop16 :: "ip_cksum_ctx \<Rightarrow> mem \<Rightarrow> ptr \<Rightarrow> nat \<Rightarrow> ip_cksum_ctx \<times> ptr \<times> nat" where
  "ip_cksum_feed_loop16 ctx m cbuf sz =
     (if 16 \<le> sz then
        (let ctx = ip_cksum_add16 ctx (hdr_get16h m (cbuf + 0));
             ctx = ip_cksum_add16 ctx (hdr_get16h m (cbuf + 2));
             ctx = ip_cksum_add16 ctx (hdr_get16h m (cbuf + 4));
             ctx = ip_cksum_add16 ctx (hdr_get16h m (cbuf + 6));
             ctx = ip_cksum_add16 ctx (hdr_get16h m (cbuf + 8));
             ctx = ip_cksum_add16 ctx (hdr_get16h m (cbuf + 10));
             ctx = ip_cksum_add16 ctx (hdr_get16h m (cbuf + 12));
             ctx = ip_cksum_add16 ctx (hdr_get16h m (cbuf + 14))
         in ip_cksum_feed_loop16 ctx m (cbuf + 16) (sz - 16))
      else (ctx, cbuf, sz))"

fun ip_cksum_feed_loop2 :: "ip_cksum_ctx \<Rightarrow> mem \<Rightarrow> ptr \<Rightarrow> nat \<Rightarrow> ip_cksum_ctx \<times> ptr \<times> nat" where
  "ip_cksum_feed_loop2 ctx m cbuf sz =
     (if 2 \<le> sz
      then ip_cksum_feed_loop2 (ip_cksum_add16 ctx (hdr_get16h m (cbuf + 0))) m (cbuf + 2) (sz - 2)
      else (ctx, cbuf, sz))"

declare ip_cksum_feed_loop16.simps [simp del] ip_cksum_feed_loop2.simps [simp del]

definition ip_cksum_feed :: "ip_cksum_ctx \<Rightarrow> mem \<Rightarrow> ptr \<Rightarrow> nat \<Rightarrow> ip_cksum_ctx" where
  "ip_cksum_feed ctx m buf sz =
     (let (ctx2, cbuf, sz) = ip_cksum_feed_loop16 ctx m buf sz;
          (ctx2, cbuf, sz) = ip_cksum_feed_loop2 ctx2 m cbuf sz
      in if 1 \<le> sz then ip_cksum_add_leftover ctx2 (hdr_get8h m (cbuf + 0)) else ctx2)"

section \<open>Checksums of headers and segments\<close>

definition ip_hdr_cksum_calc :: "mem \<Rightarrow> ptr \<Rightarrow> u16 \<Rightarrow> u16 option" where
  "ip_hdr_cksum_calc m iphdr iplen =
     (let ihl = ip_hdr_len m iphdr
      in if ucast ihl > iplen then None
         else Some (ip_cksum_postprocess (ip_cksum_feed IP_CKSUM_CTX_INITER m iphdr (unat ihl))))"

text \<open>
  \<^verbatim>\<open>ip_cksum_feed32ptr(&ctx, &u32)\<close> on a local variable: the variable is an object of its
  own, four bytes in host order.
\<close>

definition feed32var :: "ip_cksum_ctx \<Rightarrow> u32 \<Rightarrow> ip_cksum_ctx" where
  "feed32var ctx u32 = ip_cksum_feed32ptr ctx (hdr_set32h (\<lambda>_. 0) 0 u32) 0"

definition tcp_cksum_calc :: "mem \<Rightarrow> ptr \<Rightarrow> u16 \<Rightarrow> ptr \<Rightarrow> u16 \<Rightarrow> u16 option" where
  "tcp_cksum_calc m iphdr iplen tcphdr tcplen =
     (if iplen < 20 then None
      else let ctx = IP_CKSUM_CTX_INITER;
               ctx = feed32var ctx (htonl (ip_src m iphdr));
               ctx = feed32var ctx (htonl (ip_dst m iphdr));
               ctx = ip_cksum_add16 ctx (htons 6);
               ctx = ip_cksum_add16 ctx (htons tcplen);
               ctx = ip_cksum_feed ctx m tcphdr (unat tcplen)
           in Some (ip_cksum_postprocess ctx))"

definition tcp6_cksum_calc :: "mem \<Rightarrow> ptr \<Rightarrow> u16 \<Rightarrow> ptr \<Rightarrow> u16 \<Rightarrow> u16 option" where
  "tcp6_cksum_calc m iphdr iplen tcphdr tcplen =
     (if iplen < 40 then None
      else let ctx = IP_CKSUM_CTX_INITER;
               addr = ipv6_const_src iphdr;
               ctx = feed32var ctx (htonl (hdr_get32n m (addr + 0)));
               ctx = feed32var ctx (htonl (hdr_get32n m (addr + 4)));
               ctx = feed32var ctx (htonl (hdr_get32n m (addr + 8)));
               ctx = feed32var ctx (htonl (hdr_get32n m (addr + 12)));
               addr = ipv6_const_dst iphdr;
               ctx = feed32var ctx (htonl (hdr_get32n m (addr + 0)));
               ctx = feed32var ctx (htonl (hdr_get32n m (addr + 4)));
               ctx = feed32var ctx (htonl (hdr_get32n m (addr + 8)));
               ctx = feed32var ctx (htonl (hdr_get32n m (addr + 12)));
               ctx = feed32var ctx (htonl (ucast tcplen));
               ctx = feed32var ctx (htonl 6);
               ctx = ip_cksum_feed ctx m tcphdr (unat tcplen)
           in Some (ip_cksum_postprocess ctx))"

definition udp_cksum_calc :: "mem \<Rightarrow> ptr \<Rightarrow> u16 \<Rightarrow> ptr \<Rightarrow> u16 \<Rightarrow> u16 option" where
  "udp_cksum_calc m iphdr iplen udphdr udplen =
     (if iplen < 20 then None
      else let ctx = IP_CKSUM_CTX_INITER;
               ctx = feed32var ctx (htonl (ip_src m iphdr));
               ctx = feed32var ctx (htonl (ip_dst m iphdr));
               ctx = ip_cksum_add16 ctx (htons 17);
               ctx = ip_cksum_add16 ctx (htons udplen);
               ctx = ip_cksum_feed ctx m udphdr (unat udplen)
           in Some (ip_cksum_postprocess ctx))"

definition udp6_cksum_calc :: "mem \<Rightarrow> ptr \<Rightarrow> u16 \<Rightarrow> ptr \<Rightarrow> u16 \<Rightarrow> u16 option" where
  "udp6_cksum_calc m iphdr iplen tcphdr tcplen =
     (if iplen < 40 then None
      else let ctx = IP_CKSUM_CTX_INITER;
               addr = ipv6_const_src iphdr;
               ctx = feed32var ctx (hdr_get32h m (addr + 0));
               ctx = feed32var ctx (hdr_get32h m (addr + 4));
               ctx = feed32var ctx (hdr_get32h m (addr + 8));
               ctx = feed32var ctx (hdr_get32h m (addr + 12));
               addr = ipv6_const_dst iphdr;
               ctx = feed32var ctx (hdr_get32h m (addr + 0));
               ctx = feed32var ctx (hdr_get32h m (addr + 4));
               ctx = feed32var ctx (hdr_get32h m (addr + 8));
               ctx = feed32var ctx (hdr_get32h m (addr + 12));
               ctx = feed32var ctx (htonl (ucast tcplen));
               ctx = feed32var ctx (htonl 17);
               ctx = ip_cksum_feed ctx m tcphdr (unat tcplen)
           in Some (ip_cksum_postprocess ctx))"

definition ip46_hdr_cksum_calc :: "mem \<Rightarrow> ptr \<Rightarrow> u16 option" where
  "ip46_hdr_cksum_calc m iphdr =
     do { iplen \<leftarrow> ip46_hdr_len m iphdr;
          if ip_version m iphdr = 4 then ip_hdr_cksum_calc m iphdr (ucast iplen)
          else if ip_version m iphdr = 6 then Some 0
          else None }"

definition tcp46_cksum_calc :: "mem \<Rightarrow> ptr \<Rightarrow> u16 option" where
  "tcp46_cksum_calc m iphdr =
     do { tcplen \<leftarrow> ip46_payload_len m iphdr;
          iplen \<leftarrow> ip46_hdr_len m iphdr;
          tcphdr \<leftarrow> ip46_const_payload m iphdr;
          proto \<leftarrow> ip46_proto m iphdr;
          if proto \<noteq> 6 then None
          else if ip_version m iphdr = 4 then tcp_cksum_calc m iphdr (ucast iplen) tcphdr tcplen
          else if ip_version m iphdr = 6 then tcp6_cksum_calc m iphdr (ucast iplen) tcphdr tcplen
          else None }"

definition ip_set_hdr_cksum_calc :: "mem \<Rightarrow> ptr \<Rightarrow> u16 \<Rightarrow> mem option" where
  "ip_set_hdr_cksum_calc m iphdr iplen =
     (if iplen < 20 then None
      else do { let m = ip_set_hdr_cksum m iphdr 0;
                cksum \<leftarrow> ip_hdr_cksum_calc m iphdr iplen;
                Some (ip_set_hdr_cksum m iphdr cksum) })"

definition ip46_set_hdr_cksum_calc :: "mem \<Rightarrow> ptr \<Rightarrow> mem option" where
  "ip46_set_hdr_cksum_calc m iphdr =
     (if ip_version m iphdr = 4 then ip_set_hdr_cksum_calc m iphdr (ucast (ip_hdr_len m iphdr))
      else if ip_version m iphdr = 6 then Some m
      else None)"

definition tcp_set_cksum_calc :: "mem \<Rightarrow> ptr \<Rightarrow> u16 \<Rightarrow> ptr \<Rightarrow> u16 \<Rightarrow> mem option" where
  "tcp_set_cksum_calc m iphdr iplen tcphdr tcplen =
     (if iplen < 20 then None
      else if tcplen < 20 then None
      else do { let m = tcp_set_cksum m tcphdr 0;
                cksum \<leftarrow> tcp_cksum_calc m iphdr iplen tcphdr tcplen;
                Some (tcp_set_cksum m tcphdr cksum) })"

definition tcp6_set_cksum_calc :: "mem \<Rightarrow> ptr \<Rightarrow> u16 \<Rightarrow> ptr \<Rightarrow> u16 \<Rightarrow> mem option" where
  "tcp6_set_cksum_calc m iphdr iplen tcphdr tcplen =
     (if iplen < 40 then None
      else if tcplen < 20 then None
      else do { let m = tcp_set_cksum m tcphdr 0;
                cksum \<leftarrow> tcp6_cksum_calc m iphdr iplen tcphdr tcplen;
                Some (tcp_set_cksum m tcphdr cksum) })"

definition tcp46_set_cksum_calc :: "mem \<Rightarrow> ptr \<Rightarrow> mem option" where
  "tcp46_set_cksum_calc m iphdr =
     do { tcplen \<leftarrow> ip46_payload_len m iphdr;
          iplen \<leftarrow> ip46_hdr_len m iphdr;
          tcphdr \<leftarrow> ip46_payload m iphdr;
          proto \<leftarrow> ip46_proto m iphdr;
          if proto \<noteq> 6 then None
          else if ip_version m iphdr = 4 then tcp_set_cksum_calc m iphdr (ucast iplen) tcphdr tcplen
          else if ip_version m iphdr = 6 then tcp6_set_cksum_calc m iphdr (ucast iplen) tcphdr tcplen
          else None }"

definition udp_set_cksum_calc :: "mem \<Rightarrow> ptr \<Rightarrow> u16 \<Rightarrow> ptr \<Rightarrow> u16 \<Rightarrow> mem option" where
  "udp_set_cksum_calc m iphdr iplen udphdr udplen =
     (if iplen < 20 then None
      else if udplen < 8 then None
      else do { let m = udp_set_cksum m udphdr 0;
                cksum \<leftarrow> udp_cksum_calc m iphdr iplen udphdr udplen;
                Some (udp_set_cksum m udphdr cksum) })"

definition udp6_set_cksum_calc :: "mem \<Rightarrow> ptr \<Rightarrow> u16 \<Rightarrow> ptr \<Rightarrow> u16 \<Rightarrow> mem option" where
  "udp6_set_cksum_calc m iphdr iplen udphdr udplen =
     (if iplen < 40 then None
      else if udplen < 8 then None
      else do { let m = udp_set_cksum m udphdr 0;
                cksum \<leftarrow> udp6_cksum_calc m iphdr iplen udphdr udplen;
                Some (udp_set_cksum m udphdr cksum) })"

section \<open>The reference: RFC 1071\<close>

text \<open>The sum of the big-endian 16-bit words of the data, an odd last byte padded with zero.\<close>

fun be_sum :: "u8 list \<Rightarrow> nat" where
  "be_sum [] = 0"
| "be_sum [b] = 256 * unat b"
| "be_sum (b1 # b0 # bs) = 256 * unat b1 + unat b0 + be_sum bs"

text \<open>One's complement addition of 16-bit words: the representative in 1..65535 of a nonzero sum.\<close>

definition oc16 :: "nat \<Rightarrow> nat" where
  "oc16 n = (if n = 0 then 0 else (n - 1) mod 65535 + 1)"

definition rfc1071 :: "u8 list \<Rightarrow> u16" where
  "rfc1071 bs = of_nat (65535 - oc16 (be_sum bs))"

definition valid_sum :: "nat \<Rightarrow> bool" where
  "valid_sum n \<longleftrightarrow> n \<noteq> 0 \<and> n mod 65535 = 0"

section \<open>One's complement arithmetic\<close>

lemma oc16_le: "oc16 n \<le> 65535"
  by (simp add: oc16_def Suc_le_eq)

lemma oc16_0_iff: "oc16 n = 0 \<longleftrightarrow> n = 0"
  by (simp add: oc16_def)

lemma oc16_mod: "oc16 n mod 65535 = n mod 65535"
proof (cases n)
  case (Suc k)
  have "(k mod 65535 + 1) mod 65535 = (k + 1) mod 65535" by (rule mod_add_left_eq)
  then show ?thesis by (simp add: oc16_def Suc)
qed (simp add: oc16_def)

lemma mod_65535_cases:
  assumes "x \<le> 65535" "y \<le> 65535" "x mod 65535 = y mod 65535" "x = 0 \<longleftrightarrow> y = 0"
  shows "x = (y :: nat)"
  using assms by (cases "x = 65535"; cases "y = 65535") auto

lemma oc16_unique:
  assumes "x \<le> 65535" "x mod 65535 = n mod 65535" "x = 0 \<longleftrightarrow> n = 0"
  shows "x = oc16 n"
  using assms by - (rule mod_65535_cases, simp_all add: oc16_le oc16_mod oc16_0_iff)

lemma fold_step_mod: "(n mod 65536 + n div 65536) mod 65535 = (n :: nat) mod 65535"
proof -
  from fold_step_split [of n]
  have "n mod 65535 = (n mod 65536 + n div 65536 + 65535 * (n div 65536)) mod 65535"
    by (rule arg_cong)
  also have "\<dots> = (n mod 65536 + n div 65536) mod 65535" by (rule mod_mult_self2)
  finally show ?thesis by (rule sym)
qed

lemma unat_ip_cksum_fold: "unat (ip_cksum_fold s) = oc16 (unat s)"
proof (induction s rule: ip_cksum_fold.induct)
  case (1 s)
  show ?case
  proof (cases "drop_bit 16 s = 0")
    case True
    then show ?thesis
      by (subst ip_cksum_fold.simps) (simp add: drop_bit_16_eq_0 oc16_unique)
  next
    case False
    let ?s = "(s AND 0xffff) + drop_bit 16 s"
    have "ip_cksum_fold s = ip_cksum_fold ?s"
      using False by (subst ip_cksum_fold.simps) simp
    with 1 False have "unat (ip_cksum_fold s) = oc16 (unat ?s)" by simp
    also have "\<dots> = oc16 (unat s)"
    proof (rule oc16_unique)
      show "oc16 (unat ?s) mod 65535 = unat s mod 65535"
        by (simp only: oc16_mod unat_fold_step fold_step_mod)
      from False have "65536 \<le> unat s" by (simp add: drop_bit_16_eq_0)
      then have "unat s div 65536 \<noteq> 0" "unat s \<noteq> 0" by (simp_all add: div_eq_0_iff)
      then show "oc16 (unat ?s) = 0 \<longleftrightarrow> unat s = 0"
        by (simp only: oc16_0_iff unat_fold_step) simp
    qed (rule oc16_le)
    finally show ?thesis .
  qed
qed

section \<open>Host order and big-endian order\<close>

text \<open>
  Modulo 65535 a byte swap is multiplication by 256, so a sum of host-order words is
  \<open>host_mult\<close> times the big-endian sum.
\<close>

definition host_mult :: nat where
  "host_mult = (case host_endian of LittleEndian \<Rightarrow> 256 | BigEndian \<Rightarrow> 1)"

lemma bswap16_mod: "unat (bswap16 x) mod 65535 = 256 * unat x mod 65535"
proof -
  have "256 * unat x = unat (bswap16 x) + 65535 * unat (nth_byte x 1)"
    using unat_nth_bytes16 [of x] by (simp add: bswap16_def unat_mk16)
  then show ?thesis by (simp del: mod_mult_self4)
qed

lemma bswap16_0_iff: "bswap16 x = 0 \<longleftrightarrow> x = 0"
proof -
  have "bswap16 0 = 0" by (simp add: bswap16_def mk16_def nth_byte_def)
  with bswap16_bswap16 [of x] show ?thesis by (metis (no_types))
qed

lemma ntohs_eq_htons: "ntohs = htons"
  by (rule ext) (simp add: ntohs_def htons_def)

lemma htons_mod: "unat (htons x) mod 65535 = host_mult * unat x mod 65535"
  by (simp add: htons_def host_mult_def bswap16_mod split: endian.split)

lemma htons_0_iff: "htons x = 0 \<longleftrightarrow> x = 0"
  by (simp add: htons_def bswap16_0_iff split: endian.split)

lemma host_mult_square: "host_mult * (host_mult * n) mod 65535 = n mod 65535"
proof (cases host_endian)
  case LittleEndian
  then have "host_mult * (host_mult * n) = n + 65535 * n" by (simp add: host_mult_def)
  then show ?thesis by (simp only: mod_mult_self2)
qed (simp add: host_mult_def)

lemma hdr_get16h_htons: "hdr_get16h m p = htons (hdr_get16n m p)"
  by (simp add: hdr_get16n_def)

section \<open>The accumulator holds a multiple of the big-endian sum\<close>

text \<open>\<open>n\<close> words have been added, with big-endian sum \<open>B\<close>, and no carry was lost.\<close>

definition cksum_inv :: "ip_cksum_ctx \<Rightarrow> nat \<Rightarrow> nat \<Rightarrow> bool" where
  "cksum_inv ctx n B \<longleftrightarrow>
     unat (ctx_sum ctx) mod 65535 = host_mult * B mod 65535 \<and>
     (unat (ctx_sum ctx) = 0 \<longleftrightarrow> B = 0) \<and> unat (ctx_sum ctx) \<le> n * 65535"

lemma cksum_inv_init: "cksum_inv IP_CKSUM_CTX_INITER 0 0"
  by (simp add: cksum_inv_def IP_CKSUM_CTX_INITER_def)

lemma cksum_inv_add16:
  assumes "cksum_inv ctx n B" "n < 65537"
  shows "cksum_inv (ip_cksum_add16 ctx (htons v)) (n + 1) (B + unat v)"
proof -
  let ?s = "unat (ctx_sum ctx)" and ?v = "unat (htons v)"
  have le: "?s \<le> n * 65535" "?v \<le> 65535"
    using assms(1) unat_u16_less [of "htons v"] by (auto simp: cksum_inv_def)
  moreover have "n * 65535 \<le> 65536 * 65535" using assms(2) by simp
  ultimately have "?s + ?v < 4294967296" by linarith
  then have sum: "unat (ctx_sum (ip_cksum_add16 ctx (htons v))) = ?s + ?v"
    by (simp add: ip_cksum_add16_def unat_word_ariths)
  have "(?s + ?v) mod 65535 = (host_mult * B + host_mult * unat v) mod 65535"
    using assms(1) htons_mod [of v] by (intro mod_add_cong) (simp_all add: cksum_inv_def)
  moreover have "?v = 0 \<longleftrightarrow> unat v = 0"
    by (simp add: unsigned_eq_0_iff htons_0_iff)
  ultimately show ?thesis
    using assms(1) le unfolding cksum_inv_def sum by (simp add: algebra_simps)
qed

text \<open>Several words at once.\<close>

lemma cksum_inv_add_words:
  assumes "cksum_inv ctx n B" "n + length vs \<le> 65537"
  shows "cksum_inv (foldl (\<lambda>ctx v. ip_cksum_add16 ctx (htons v)) ctx vs) (n + length vs)
    (B + sum_list (map unat vs))"
  using assms
proof (induction vs arbitrary: ctx n B)
  case (Cons v vs)
  from Cons.IH [OF cksum_inv_add16 [OF Cons.prems(1), of v]] Cons.prems(2)
  show ?case by (simp add: add.assoc)
qed simp

lemma unat_NOT16: "unat (NOT w :: u16) = 65535 - unat w"
proof -
  have "NOT w = - 1 - w" by (simp add: not_eq_complement)
  moreover have "unat (- 1 :: u16) = 65535" by (simp add: unsigned_minus_1_eq_mask mask_eq_exp_minus_1)
  moreover have "w \<le> - 1" by (rule word_order.extremum)
  ultimately show ?thesis by (simp only: unat_sub)
qed

lemma ntohs_NOT: "ntohs (NOT w) = NOT (ntohs w)"
proof -
  have "nth_byte (NOT w) k = NOT (nth_byte w k)" if "k < 2" for k
    using that by (intro bit_word_eqI) (auto simp: nth_byte_def bit_simps)
  moreover have "mk16 (NOT a) (NOT b) = NOT (mk16 a b)" for a b
    by (rule bit_word_eqI) (auto simp: mk16_def bit_simps dest: bit_imp_le_length)
  ultimately show ?thesis by (simp add: ntohs_def bswap16_def split: endian.split)
qed

lemma unat_ip_cksum_postprocess:
  assumes "cksum_inv ctx n B"
  shows "unat (ip_cksum_postprocess ctx) = 65535 - oc16 B"
proof -
  let ?s = "unat (ctx_sum ctx)"
  define f :: u16 where "f = ucast (ip_cksum_fold (ctx_sum ctx))"
  have f: "unat f = oc16 ?s"
    using oc16_le [of ?s]
    by (simp add: f_def unsigned_ucast_eq unat_ip_cksum_fold take_bit_nat_eq_self_iff)
  have "unat (htons f) = oc16 B"
  proof (rule oc16_unique)
    have "unat (htons f) mod 65535 = host_mult * (?s mod 65535) mod 65535"
      unfolding htons_mod f by (metis mod_mult_right_eq oc16_mod)
    also have "\<dots> = host_mult * (host_mult * B) mod 65535"
      using assms by (simp only: cksum_inv_def mod_mult_right_eq)
    finally show "unat (htons f) mod 65535 = B mod 65535" by (simp only: host_mult_square)
    show "unat (htons f) = 0 \<longleftrightarrow> B = 0"
      using assms f unsigned_eq_0_iff [of f, where ?'a = nat]
      by (simp add: unsigned_eq_0_iff htons_0_iff oc16_0_iff cksum_inv_def)
  qed (use unat_u16_less [of "htons f"] in simp)
  moreover have "ip_cksum_postprocess ctx = NOT (htons f)"
  proof -
    have "(ucast (NOT (ip_cksum_fold (ctx_sum ctx))) :: u16) = NOT f"
      unfolding f_def by (rule bit_word_eqI) (auto simp: bit_simps)
    then show ?thesis
      by (simp only: ip_cksum_postprocess_def ntohs_NOT) (simp only: ntohs_eq_htons)
  qed
  ultimately show ?thesis by (simp only: unat_NOT16)
qed

section \<open>Feeding a buffer\<close>

lemma mem_bytes_Suc: "mem_bytes m p (Suc n) = m p # mem_bytes m (Suc p) n"
  by (simp add: mem_bytes_def upt_conv_Cons map_Suc_upt [symmetric] del: upt_Suc)

lemma be_sum_step:
  "2 \<le> n \<Longrightarrow> be_sum (mem_bytes m p n) = unat (hdr_get16n m p) + be_sum (mem_bytes m (p + 2) (n - 2))"
  by (cases n; cases "n - 1") (simp_all add: mem_bytes_Suc hdr_simps unat_mk16)

lemma be_sum_words:
  "be_sum (mem_bytes m p (2 * j + k)) =
     sum_list (map (\<lambda>i. unat (hdr_get16n m (p + 2 * i))) [0..<j]) + be_sum (mem_bytes m (p + 2 * j) k)"
proof (induction j arbitrary: k)
  case (Suc j)
  have "2 * Suc j + k = 2 * j + (k + 2)" by simp
  then show ?case
    by (simp only: Suc.IH) (simp add: be_sum_step algebra_simps)
qed simp

lemma half_minus:
  assumes "2 * j \<le> (n :: nat)"
  shows "(n - 2 * j) div 2 = n div 2 - j" "(n - 2 * j) mod 2 = n mod 2" "j \<le> n div 2"
proof -
  from assms obtain k where "n = k + j * 2" by (metis le_add_diff_inverse2 mult.commute)
  then show "(n - 2 * j) div 2 = n div 2 - j" "(n - 2 * j) mod 2 = n mod 2" "j \<le> n div 2"
    by simp_all
qed

lemma feed_loop2_inv:
  assumes "cksum_inv ctx n B" "n + sz div 2 \<le> 65537"
  shows "\<exists>ctx' p'. ip_cksum_feed_loop2 ctx m p sz = (ctx', p', sz mod 2) \<and>
    (\<exists>B'. cksum_inv ctx' (n + sz div 2) B' \<and>
      B' + be_sum (mem_bytes m p' (sz mod 2)) = B + be_sum (mem_bytes m p sz))"
  using assms
proof (induction sz arbitrary: ctx n B p rule: less_induct)
  case (less sz)
  show ?case
  proof (cases "2 \<le> sz")
    case True
    let ?c = "ip_cksum_add16 ctx (hdr_get16h m p)"
    have "cksum_inv ?c (n + 1) (B + unat (hdr_get16n m p))"
      using cksum_inv_add16 [OF less.prems(1)] less.prems(2) True by (simp add: hdr_get16h_htons)
    moreover have "(sz - 2) div 2 = sz div 2 - 1" "(sz - 2) mod 2 = sz mod 2" "1 \<le> sz div 2"
      using half_minus [of 1 sz] True by simp_all
    ultimately show ?thesis
      using less.IH [of "sz - 2" ?c "n + 1" "B + unat (hdr_get16n m p)" "p + 2"] less.prems(2) True
      by (subst ip_cksum_feed_loop2.simps) (simp add: be_sum_step add.assoc)
  next
    case False
    then show ?thesis using less.prems
      by (subst ip_cksum_feed_loop2.simps) auto
  qed
qed

lemma feed_loop16_inv:
  assumes "cksum_inv ctx n B" "n + sz div 2 \<le> 65537"
  shows "\<exists>ctx' p' sz'. ip_cksum_feed_loop16 ctx m p sz = (ctx', p', sz') \<and>
    (\<exists>n' B'. cksum_inv ctx' n' B' \<and> n' + sz' div 2 = n + sz div 2 \<and> sz' mod 2 = sz mod 2 \<and>
      B' + be_sum (mem_bytes m p' sz') = B + be_sum (mem_bytes m p sz))"
  using assms
proof (induction sz arbitrary: ctx n B p rule: less_induct)
  case (less sz)
  show ?case
  proof (cases "16 \<le> sz")
    case True
    define vs where "vs = map (\<lambda>i. hdr_get16n m (p + 2 * i)) [0..<8]"
    define c where "c = foldl (\<lambda>ctx v. ip_cksum_add16 ctx (htons v)) ctx vs"
    define B8 where "B8 = B + sum_list (map unat vs)"
    have d: "(sz - 16) div 2 = sz div 2 - 8" "(sz - 16) mod 2 = sz mod 2" "8 \<le> sz div 2"
      using half_minus [of 8 sz] True by simp_all
    have "cksum_inv c (n + 8) B8"
      using cksum_inv_add_words [of ctx n B vs] less.prems d(3) by (simp add: c_def B8_def vs_def)
    moreover have "B8 + be_sum (mem_bytes m (p + 16) (sz - 16)) = B + be_sum (mem_bytes m p sz)"
      using be_sum_words [of m p 8 "sz - 16"] True by (simp add: B8_def vs_def comp_def del: upt.simps)
    moreover have "ip_cksum_feed_loop16 ctx m p sz = ip_cksum_feed_loop16 c m (p + 16) (sz - 16)"
      using True by (subst ip_cksum_feed_loop16.simps) (simp add: c_def vs_def upt_rec hdr_get16h_htons Let_def)
    ultimately show ?thesis
      using less.IH [of "sz - 16" c "n + 8" B8 "p + 16"] less.prems(2) True d by simp
  next
    case False
    then show ?thesis using less.prems
      by (subst ip_cksum_feed_loop16.simps) auto
  qed
qed

lemma ip_cksum_feed_inv:
  assumes "cksum_inv ctx n B" "n + (sz + 1) div 2 \<le> 65537"
  shows "cksum_inv (ip_cksum_feed ctx m p sz) (n + (sz + 1) div 2) (B + be_sum (mem_bytes m p sz))"
proof -
  have le: "n + sz div 2 \<le> 65537" using assms(2) div_le_mono [of sz "sz + 1" 2] by simp
  from feed_loop16_inv [OF assms(1) this, of m p]
  obtain c1 p1 sz1 n1 B1 where 1: "ip_cksum_feed_loop16 ctx m p sz = (c1, p1, sz1)"
    "cksum_inv c1 n1 B1" "n1 + sz1 div 2 = n + sz div 2" "sz1 mod 2 = sz mod 2"
    "B1 + be_sum (mem_bytes m p1 sz1) = B + be_sum (mem_bytes m p sz)"
    by blast
  from feed_loop2_inv [OF 1(2), of sz1 m p1] 1(3) le
  obtain c2 p2 B2 where 2: "ip_cksum_feed_loop2 c1 m p1 sz1 = (c2, p2, sz1 mod 2)"
    "cksum_inv c2 (n + sz div 2) B2"
    "B2 + be_sum (mem_bytes m p2 (sz1 mod 2)) = B1 + be_sum (mem_bytes m p1 sz1)"
    by auto
  show ?thesis
  proof (cases "sz mod 2 = 0")
    case True
    then have "(sz + 1) div 2 = sz div 2" by (simp add: even_iff_mod_2_eq_zero [symmetric])
    with True 1 2 show ?thesis
      by (simp add: ip_cksum_feed_def mem_bytes_def)
  next
    case False
    then have odd: "sz mod 2 = 1" by simp
    have "odd sz" using False by (simp add: even_iff_mod_2_eq_zero)
    then have h: "(sz + 1) div 2 = sz div 2 + 1" by simp
    have "push_bit 8 (ucast (m p2)) = mk16 (m p2) 0" by (simp add: mk16_def)
    then have "unat (push_bit 8 (ucast (m p2)) :: u16) = be_sum (mem_bytes m p2 1)"
      by (simp only: unat_mk16) (simp add: mem_bytes_def)
    with cksum_inv_add16 [OF 2(2), of "push_bit 8 (ucast (m p2))"] h assms(2) odd 1 2
    show ?thesis
      by (simp add: ip_cksum_feed_def ip_cksum_add_leftover_def ip_cksum_add16_def hdr_simps
          del: unsigned_push_bit_eq)
  qed
qed

lemma be_sum_append: "even (length xs) \<Longrightarrow> be_sum (xs @ ys) = be_sum xs + be_sum ys"
  by (induction xs rule: be_sum.induct) auto

lemma unat_rfc1071: "unat (rfc1071 bs) = 65535 - oc16 (be_sum bs)"
proof -
  have "65535 - oc16 (be_sum bs) < 65536" by simp
  then show ?thesis unfolding rfc1071_def
    by (simp add: unsigned_of_nat take_bit_nat_eq_self_iff)
qed

lemma postprocess_feed:
  assumes "even (length bs)" "be_sum bs = sum_list (map unat vs)" "length vs \<le> 32768" "sz \<le> 65535"
  shows "ip_cksum_postprocess
      (ip_cksum_feed (foldl (\<lambda>ctx v. ip_cksum_add16 ctx (htons v)) IP_CKSUM_CTX_INITER vs) m p sz) =
    rfc1071 (bs @ mem_bytes m p sz)"
proof -
  have "(sz + 1) div 2 \<le> 32768" using assms(4) div_le_mono [of "sz + 1" 65536 2] by simp
  then have "cksum_inv (ip_cksum_feed (foldl (\<lambda>ctx v. ip_cksum_add16 ctx (htons v))
      IP_CKSUM_CTX_INITER vs) m p sz) (length vs + (sz + 1) div 2) (be_sum (bs @ mem_bytes m p sz))"
    using ip_cksum_feed_inv [OF cksum_inv_add_words [OF cksum_inv_init, of vs], of sz m p] assms
    by (simp add: be_sum_append)
  from unat_ip_cksum_postprocess [OF this] show ?thesis
    by (simp add: word_unat_eq_iff unat_rfc1071)
qed

section \<open>Pseudo-headers\<close>

definition pseudo_hdr4 :: "mem \<Rightarrow> ptr \<Rightarrow> u8 \<Rightarrow> u16 \<Rightarrow> u8 list" where
  "pseudo_hdr4 m ip proto len = mem_bytes m (ip + 12) 8 @ [0, proto, nth_byte len 1, nth_byte len 0]"

definition pseudo_hdr6 :: "mem \<Rightarrow> ptr \<Rightarrow> u8 \<Rightarrow> u16 \<Rightarrow> u8 list" where
  "pseudo_hdr6 m ip proto len =
     mem_bytes m (ip + 8) 32 @ [0, 0, nth_byte len 1, nth_byte len 0, 0, 0, 0, proto]"

lemma length_pseudo_hdr [simp]:
  "length (pseudo_hdr4 m ip proto len) = 12" "length (pseudo_hdr6 m ip proto len) = 40"
  by (simp_all add: pseudo_hdr4_def pseudo_hdr6_def)

lemma feed32var_htonl:
  "feed32var ctx (htonl v) =
     ip_cksum_add16 (ip_cksum_add16 ctx (htons (ucast (drop_bit 16 v)))) (htons (ucast v))"
proof -
  define m where "m = hdr_set32n (\<lambda>_. 0) 0 v"
  have "hdr_get32n m 0 = v" by (simp add: m_def)
  with hdr_get32n_halves [of m 0] show ?thesis
    unfolding feed32var_def ip_cksum_feed32ptr_def hdr_get16h_htons hdr_set32n_def [symmetric]
      m_def [symmetric] by simp
qed

lemma feed32var_get32n:
  "feed32var ctx (htonl (hdr_get32n m p)) =
     ip_cksum_add16 (ip_cksum_add16 ctx (htons (hdr_get16n m p))) (htons (hdr_get16n m (p + 2)))"
  by (simp only: feed32var_htonl hdr_get32n_halves)

lemma hdr_get32h_htonl: "hdr_get32h m p = htonl (hdr_get32n m p)"
  by (simp add: hdr_get32n_def)

lemma ip_hdr_cksum_calc_rfc1071:
  "ip_hdr_cksum_calc m p iplen =
     (if unat (ip_hdr_len m p) > unat iplen then None
      else Some (rfc1071 (mem_bytes m p (unat (ip_hdr_len m p)))))"
  using postprocess_feed [of "[]" "[]" "unat (ip_hdr_len m p)" m p] unat_u8_less [of "ip_hdr_len m p"]
  by (simp add: ip_hdr_cksum_calc_def word_less_nat_alt)

lemma be_sum_pseudo_hdr4:
  "be_sum (pseudo_hdr4 m ip proto len) = sum_list (map unat
     [hdr_get16n m (ip + 12), hdr_get16n m (ip + 14), hdr_get16n m (ip + 16), hdr_get16n m (ip + 18),
      ucast proto, len])"
  using be_sum_words [of m "ip + 12" 4 0] unat_nth_bytes16 [of len]
  by (simp add: pseudo_hdr4_def be_sum_append mem_bytes_def [of _ _ 0] upt_rec ac_simps)

lemma be_sum_pseudo_hdr6:
  "be_sum (pseudo_hdr6 m ip proto len) = sum_list (map unat
     [hdr_get16n m (ip + 8), hdr_get16n m (ip + 10), hdr_get16n m (ip + 12), hdr_get16n m (ip + 14),
      hdr_get16n m (ip + 16), hdr_get16n m (ip + 18), hdr_get16n m (ip + 20), hdr_get16n m (ip + 22),
      hdr_get16n m (ip + 24), hdr_get16n m (ip + 26), hdr_get16n m (ip + 28), hdr_get16n m (ip + 30),
      hdr_get16n m (ip + 32), hdr_get16n m (ip + 34), hdr_get16n m (ip + 36), hdr_get16n m (ip + 38),
      0, len, 0, ucast proto])"
  using be_sum_words [of m "ip + 8" 16 0] unat_nth_bytes16 [of len]
  by (simp add: pseudo_hdr6_def be_sum_append mem_bytes_def [of _ _ 0] upt_rec ac_simps)

lemma unat_le_16: "unat (len :: u16) \<le> 65535"
  using unat_u16_less [of len] by simp

lemma tcp_cksum_calc_rfc1071:
  "tcp_cksum_calc m ip iplen tcp len =
     (if unat iplen < 20 then None
      else Some (rfc1071 (pseudo_hdr4 m ip 6 len @ mem_bytes m tcp (unat len))))"
  using postprocess_feed [OF _ be_sum_pseudo_hdr4 [of m ip 6 len] _ unat_le_16 [of len], of m tcp]
  by (simp add: tcp_cksum_calc_def word_less_nat_alt Let_def ip_src_def ip_dst_def feed32var_get32n add.assoc
      del: add_2_eq_Suc add_2_eq_Suc')

lemma udp_cksum_calc_rfc1071:
  "udp_cksum_calc m ip iplen udp len =
     (if unat iplen < 20 then None
      else Some (rfc1071 (pseudo_hdr4 m ip 17 len @ mem_bytes m udp (unat len))))"
  using postprocess_feed [OF _ be_sum_pseudo_hdr4 [of m ip 17 len] _ unat_le_16 [of len], of m udp]
  by (simp add: udp_cksum_calc_def word_less_nat_alt Let_def ip_src_def ip_dst_def feed32var_get32n add.assoc
      del: add_2_eq_Suc add_2_eq_Suc')

lemma feed32var_htonl_16:
  "feed32var ctx (htonl (ucast (v :: u16))) = ip_cksum_add16 (ip_cksum_add16 ctx (htons 0)) (htons v)"
proof -
  have "ucast (drop_bit 16 (ucast v :: u32)) = (0 :: u16)"
    by (rule bit_word_eqI) (auto simp: bit_simps dest: bit_imp_le_length)
  moreover have "ucast (ucast v :: u32) = v"
    by (rule bit_word_eqI) (auto simp: bit_simps)
  ultimately show ?thesis by (simp only: feed32var_htonl)
qed

lemma tcp6_cksum_calc_rfc1071:
  "tcp6_cksum_calc m ip iplen tcp len =
     (if unat iplen < 40 then None
      else Some (rfc1071 (pseudo_hdr6 m ip 6 len @ mem_bytes m tcp (unat len))))"
  using feed32var_htonl_16 [of _ 6]
    postprocess_feed [OF _ be_sum_pseudo_hdr6 [of m ip 6 len] _ unat_le_16 [of len], of m tcp]
  by (simp add: tcp6_cksum_calc_def word_less_nat_alt Let_def ipv6_const_src_def ipv6_const_dst_def
      feed32var_get32n feed32var_htonl_16 add.assoc
      del: add_2_eq_Suc add_2_eq_Suc')

lemma udp6_cksum_calc_rfc1071:
  "udp6_cksum_calc m ip iplen udp len =
     (if unat iplen < 40 then None
      else Some (rfc1071 (pseudo_hdr6 m ip 17 len @ mem_bytes m udp (unat len))))"
  using feed32var_htonl_16 [of _ 17]
    postprocess_feed [OF _ be_sum_pseudo_hdr6 [of m ip 17 len] _ unat_le_16 [of len], of m udp]
  by (simp add: udp6_cksum_calc_def word_less_nat_alt Let_def ipv6_const_src_def ipv6_const_dst_def
      hdr_get32h_htonl feed32var_get32n feed32var_htonl_16 add.assoc
      del: add_2_eq_Suc add_2_eq_Suc')

section \<open>Verifying sums\<close>

lemma rfc1071_0_iff: "rfc1071 bs = 0 \<longleftrightarrow> valid_sum (be_sum bs)"
proof -
  have "rfc1071 bs = 0 \<longleftrightarrow> oc16 (be_sum bs) = 65535"
    using unat_rfc1071 [of bs] oc16_le [of "be_sum bs"] by (auto simp: word_unat_eq_iff)
  also have "\<dots> \<longleftrightarrow> valid_sum (be_sum bs)"
    unfolding valid_sum_def oc16_mod [of "be_sum bs", symmetric] oc16_0_iff [of "be_sum bs", symmetric]
    using mod_65535_cases [OF oc16_le [of "be_sum bs"], of 65535] by auto
  finally show ?thesis .
qed

lemma valid_sum_complement: "valid_sum (n + (65535 - oc16 n))"
proof -
  have "(n + (65535 - oc16 n)) mod 65535 = (oc16 n + (65535 - oc16 n)) mod 65535"
    by (rule mod_add_cong) (simp_all add: oc16_mod)
  then show ?thesis
    using oc16_le [of n] by (auto simp: valid_sum_def oc16_def)
qed

text \<open>Changing one aligned 16-bit word changes the sum by the difference of the words.\<close>

lemma be_sum_update16:
  assumes "even k" "k + 2 \<le> n" "\<And>i. i < n \<Longrightarrow> i \<noteq> k \<Longrightarrow> i \<noteq> k + 1 \<Longrightarrow> m' (p + i) = m (p + i)"
  shows "be_sum (mem_bytes m' p n) + unat (hdr_get16n m (p + k)) =
    be_sum (mem_bytes m p n) + unat (hdr_get16n m' (p + k))"
proof -
  from assms(1) obtain j where k: "k = 2 * j" by blast
  from assms(2) obtain r where n: "n = 2 * j + (r + 2)" unfolding k
    by (metis add.commute add.left_commute le_Suc_ex)
  have "hdr_get16n m' (p + 2 * i) = hdr_get16n m (p + 2 * i)" if "i < j" for i
    using assms(3) [of "2 * i"] assms(3) [of "2 * i + 1"] that by (simp add: hdr_simps k n)
  then have "(\<Sum>i\<leftarrow>[0..<j]. unat (hdr_get16n m' (p + 2 * i))) =
      (\<Sum>i\<leftarrow>[0..<j]. unat (hdr_get16n m (p + 2 * i)))"
    by (intro arg_cong [where f = sum_list] map_cong) simp_all
  moreover have "mem_bytes m' (p + 2 * j + 2) r = mem_bytes m (p + 2 * j + 2) r"
    using assms(3) [of "2 * j + 2 + i" for i] by (simp add: mem_bytes_def k n add.assoc)
  ultimately show ?thesis
    unfolding n be_sum_words k by (simp add: be_sum_step)
qed

lemma set16_then_valid:
  fixes m :: mem and p :: ptr
  assumes "even k" "k + 2 \<le> n" "even (length bs)"
  defines "m0 \<equiv> hdr_set16n m (p + k) 0"
  shows "rfc1071 (bs @ mem_bytes (hdr_set16n m0 (p + k) (rfc1071 (bs @ mem_bytes m0 p n))) p n) = 0"
    (is "rfc1071 (bs @ mem_bytes ?m' p n) = 0")
proof -
  have "be_sum (mem_bytes ?m' p n) + unat (hdr_get16n m0 (p + k)) =
      be_sum (mem_bytes m0 p n) + unat (hdr_get16n ?m' (p + k))"
    using assms(1,2) by (rule be_sum_update16) (simp add: hdr_set16n_apply)
  then have "be_sum (mem_bytes ?m' p n) =
      be_sum (mem_bytes m0 p n) + (65535 - oc16 (be_sum (bs @ mem_bytes m0 p n)))"
    by (simp add: m0_def unat_rfc1071)
  then have "be_sum (bs @ mem_bytes ?m' p n) =
      be_sum (bs @ mem_bytes m0 p n) + (65535 - oc16 (be_sum (bs @ mem_bytes m0 p n)))"
    using assms(3) by (simp add: be_sum_append)
  then show ?thesis by (simp only: rfc1071_0_iff valid_sum_complement)
qed

lemma ip_hdr_len_set_cksum [simp]: "ip_hdr_len (ip_set_hdr_cksum m p c) p = ip_hdr_len m p"
  by (simp add: field_defs hdr_simps)

lemma pseudo_hdr4_set16:
  "ip + 20 \<le> a \<Longrightarrow> pseudo_hdr4 (hdr_set16n m a c) ip proto len = pseudo_hdr4 m ip proto len"
  by (simp add: pseudo_hdr4_def mem_bytes_def hdr_set16n_apply)

lemma pseudo_hdr6_set16:
  "ip + 40 \<le> a \<Longrightarrow> pseudo_hdr6 (hdr_set16n m a c) ip proto len = pseudo_hdr6 m ip proto len"
  by (simp add: pseudo_hdr6_def mem_bytes_def hdr_set16n_apply)

section \<open>Properties of the full computation\<close>

text \<open>
  C2: The five checksum functions, which add words in the order of the little-endian host,
  compute the RFC 1071 checksum, which is defined on big-endian words: of the header bytes for IPv4, and of the pseudo-header followed by the segment for
  TCP and UDP over IPv4 and IPv6.  They abort exactly when the given header length is too small.
\<close>

theorem cksum_calc_rfc1071:
  "ip_hdr_cksum_calc m ip iplen =
     (if unat (ip_hdr_len m ip) > unat iplen then None
      else Some (rfc1071 (mem_bytes m ip (unat (ip_hdr_len m ip))))) \<and>
   tcp_cksum_calc m ip iplen l4 len =
     (if unat iplen < 20 then None
      else Some (rfc1071 (pseudo_hdr4 m ip 6 len @ mem_bytes m l4 (unat len)))) \<and>
   udp_cksum_calc m ip iplen l4 len =
     (if unat iplen < 20 then None
      else Some (rfc1071 (pseudo_hdr4 m ip 17 len @ mem_bytes m l4 (unat len)))) \<and>
   tcp6_cksum_calc m ip iplen l4 len =
     (if unat iplen < 40 then None
      else Some (rfc1071 (pseudo_hdr6 m ip 6 len @ mem_bytes m l4 (unat len)))) \<and>
   udp6_cksum_calc m ip iplen l4 len =
     (if unat iplen < 40 then None
      else Some (rfc1071 (pseudo_hdr6 m ip 17 len @ mem_bytes m l4 (unat len))))"
  by (intro conjI ip_hdr_cksum_calc_rfc1071 tcp_cksum_calc_rfc1071 udp_cksum_calc_rfc1071
      tcp6_cksum_calc_rfc1071 udp6_cksum_calc_rfc1071)

lemma ip_set_hdr_cksum_calc_ok:
  assumes "20 \<le> unat (ip_hdr_len m ip)" "unat (ip_hdr_len m ip) \<le> unat iplen"
  shows "\<exists>m'. ip_set_hdr_cksum_calc m ip iplen = Some m' \<and> ip_hdr_cksum_calc m' ip iplen = Some 0 \<and>
    (\<forall>a. a = ip + 10 \<or> a = ip + 11 \<or> m' a = m a) \<and> ip_hdr_cksum m' ip \<noteq> 0xFFFF"
proof -
  let ?n = "unat (ip_hdr_len m ip)" and ?m0 = "ip_set_hdr_cksum m ip 0"
  let ?m' = "ip_set_hdr_cksum ?m0 ip (rfc1071 (mem_bytes ?m0 ip ?n))"
  have "rfc1071 (mem_bytes ?m' ip ?n) = 0"
    using set16_then_valid [of 10 ?n "[]" m ip] assms(1) by (simp add: ip_set_hdr_cksum_def)
  then have "ip_hdr_cksum_calc ?m' ip iplen = Some 0"
    using assms(2) by (simp add: ip_hdr_cksum_calc_rfc1071)
  moreover have "ip_set_hdr_cksum_calc m ip iplen = Some ?m'"
    using assms by (simp add: ip_set_hdr_cksum_calc_def ip_hdr_cksum_calc_rfc1071 word_less_nat_alt Let_def)
  moreover have "\<forall>a. a = ip + 10 \<or> a = ip + 11 \<or> ?m' a = m a"
    by (auto simp: ip_set_hdr_cksum_def hdr_set16n_apply)
  moreover have "ip_hdr_cksum ?m' ip \<noteq> 0xFFFF"
  proof -
    have "m ip \<noteq> 0" using assms(1) by (auto simp: ip_hdr_len_def hdr_simps)
    then have "be_sum (mem_bytes ?m0 ip ?n) \<noteq> 0"
      using assms(1) be_sum_step [of ?n ?m0 ip] by (simp add: ip_set_hdr_cksum_def hdr_simps unat_mk16 unsigned_eq_0_iff)
    then have "unat (rfc1071 (mem_bytes ?m0 ip ?n)) < 65535" by (simp add: unat_rfc1071 oc16_def)
    then show ?thesis by (auto simp: ip_hdr_cksum_def ip_set_hdr_cksum_def)
  qed
  ultimately show ?thesis by blast
qed

text \<open>
  C23: Setting the checksum of an IPv4 header of at least 20 bytes succeeds when the header
  fits, changes only the checksum field, and the resulting header verifies: its checksum
  computed over the whole header is 0.
\<close>

theorem ip_set_hdr_cksum_calc_verifies:
  assumes "20 \<le> unat (ip_hdr_len m ip)" "unat (ip_hdr_len m ip) \<le> unat iplen"
  shows "\<exists>m'. ip_set_hdr_cksum_calc m ip iplen = Some m' \<and> ip_hdr_cksum_calc m' ip iplen = Some 0 \<and>
    (\<forall>a. a = ip + 10 \<or> a = ip + 11 \<or> m' a = m a)"
  using ip_set_hdr_cksum_calc_ok [OF assms] by blast

theorem ip_set_hdr_cksum_calc_verifies_witness:
  "let m = (\<lambda>_. 0)(0 := 0x45, 3 := 40, 8 := 64, 9 := 6 :: u8) in
   \<exists>m'. ip_set_hdr_cksum_calc m 0 20 = Some m' \<and> ip_hdr_cksum_calc m' 0 20 = Some 0 \<and>
    (\<forall>a. a = 0 + 10 \<or> a = 0 + 11 \<or> m' a = m a)"
  unfolding Let_def
  by (rule ip_set_hdr_cksum_calc_verifies) (simp_all add: field_defs hdr_simps)

text \<open>
  C24: A TCP or UDP segment whose checksum was set verifies, over IPv4 and over IPv6, when the
  segment lies behind the addresses of its IP header and is at least as long as its fixed header.
\<close>

theorem l4_set_cksum_calc_verifies:
  assumes "ip + (if v6 then 40 else 20) \<le> l4" "(if v6 then 40 else 20) \<le> unat iplen"
    and "(if tcp then 20 else 8) \<le> unat len"
  defines "set_calc \<equiv> (if tcp then (if v6 then tcp6_set_cksum_calc else tcp_set_cksum_calc)
      else (if v6 then udp6_set_cksum_calc else udp_set_cksum_calc))"
    and "calc \<equiv> (if tcp then (if v6 then tcp6_cksum_calc else tcp_cksum_calc)
      else (if v6 then udp6_cksum_calc else udp_cksum_calc))"
  shows "\<exists>m'. set_calc m ip iplen l4 len = Some m' \<and> calc m' ip iplen l4 len = Some 0"
proof -
  define k where "k = (if tcp then 16 else 6 :: nat)"
  define m0 where "m0 = hdr_set16n m (l4 + k) 0"
  define bs where "bs = (if v6 then pseudo_hdr6 else pseudo_hdr4) m ip (if tcp then 6 else 17) len"
  define c where "c = rfc1071 (bs @ mem_bytes m0 l4 (unat len))"
  define m' where "m' = hdr_set16n m0 (l4 + k) c"
  note eqs = tcp_cksum_calc_rfc1071 udp_cksum_calc_rfc1071 tcp6_cksum_calc_rfc1071
    udp6_cksum_calc_rfc1071
  have n: "even (length bs)" "even k" "k + 2 \<le> unat len"
    using assms(3) by (auto simp: bs_def k_def split: if_splits)
  have v: "rfc1071 (bs @ mem_bytes m' l4 (unat len)) = 0"
    using set16_then_valid [OF n(2,3,1), of m l4] by (simp add: m'_def c_def m0_def)
  have calc: "calc mm ip iplen l4 len =
      Some (rfc1071 ((if v6 then pseudo_hdr6 else pseudo_hdr4) mm ip (if tcp then 6 else 17) len @
        mem_bytes mm l4 (unat len)))" for mm
    using assms(2) by (auto simp: calc_def eqs split: if_splits)
  have bs: "(if v6 then pseudo_hdr6 else pseudo_hdr4) mm ip (if tcp then 6 else 17) len = bs"
    if "mm = m0 \<or> mm = m'" for mm
    using assms(1) that
    by (auto simp: bs_def m0_def m'_def pseudo_hdr4_set16 pseudo_hdr6_set16 trans_le_add1 split: if_splits)
  have "set_calc m ip iplen l4 len = map_option (\<lambda>c. hdr_set16n m0 (l4 + k) c) (calc m0 ip iplen l4 len)"
    using assms(2,3)
    by (auto simp: set_calc_def calc_def m0_def k_def tcp_set_cksum_calc_def tcp6_set_cksum_calc_def
        udp_set_cksum_calc_def udp6_set_cksum_calc_def tcp_set_cksum_def udp_set_cksum_def
        word_less_nat_alt map_conv_bind_option Let_def comp_def split: if_splits)
  then have "set_calc m ip iplen l4 len = Some m'"
    by (simp add: calc bs m'_def c_def)
  with v show ?thesis by (simp add: calc bs)
qed

theorem l4_set_cksum_calc_verifies_witness:
  "let m = (\<lambda>_. 0)(0 := 0x45, 3 := 40, 9 := 6 :: u8) in
   \<exists>m'. tcp_set_cksum_calc m 0 20 20 20 = Some m' \<and> tcp_cksum_calc m' 0 20 20 20 = Some 0"
  using l4_set_cksum_calc_verifies [of 0 False 20 20 True 20 "(\<lambda>_. 0)(0 := 0x45, 3 := 40, 9 := 6 :: u8)"]
  by (simp add: Let_def)

end
