(* ===== verification/CksumUpdate.thy ===== *)
theory CksumUpdate
  imports IpCksum
begin

text \<open>
  The incremental checksum updates of \<^verbatim>\<open>src/iphdr/ipcksum.h\<close> (RFC 1624): a header field is
  rewritten and the checksum that covers it is adjusted by the difference.  The lemmas show
  that an update keeps a verifying header or segment verifying, by counting in the sum of the
  big-endian words of \<open>IpCksum\<close>.
\<close>

section \<open>Updating a checksum for one changed word\<close>

text \<open>The loop of \<^verbatim>\<open>ip_update_cksum16\<close> is the fold of \<^verbatim>\<open>ip_cksum_postprocess\<close>.\<close>

definition ip_update_cksum16 :: "u16 \<Rightarrow> u16 \<Rightarrow> u16 \<Rightarrow> u16" where
  "ip_update_cksum16 old_cksum16 old16 new16 =
     (let old_cksum = ucast old_cksum16 :: u32;
          old_cksum = ucast (ucast (NOT old_cksum) :: u16);
          old_cksum = old_cksum + ucast (NOT old16);
          old_cksum = old_cksum + ucast new16;
          old_cksum = ip_cksum_fold old_cksum
      in ucast (NOT old_cksum))"

definition ip_update_cksum32 :: "u16 \<Rightarrow> u32 \<Rightarrow> u32 \<Rightarrow> u32" where
  "ip_update_cksum32 old_cksum old32 new32 =
     (let new1 = ucast (drop_bit 16 new32); old1 = ucast (drop_bit 16 old32);
          new2 = ucast (new32 AND 0xFFFF); old2 = ucast (old32 AND 0xFFFF)
      in ucast (ip_update_cksum16 (ip_update_cksum16 old_cksum old1 new1) old2 new2))"

section \<open>Updates of the IPv4 header\<close>

definition ip_set_src_cksum_update :: "mem \<Rightarrow> ptr \<Rightarrow> u16 \<Rightarrow> u8 \<Rightarrow> ptr \<Rightarrow> u16 \<Rightarrow> u32 \<Rightarrow> mem" where
  "ip_set_src_cksum_update m iphdr iplen proto payhdr paylen src =
     (let old_src = ip_src m iphdr;
          old_cksum = ip_hdr_cksum m iphdr;
          old_cksum = ucast (ip_update_cksum32 old_cksum old_src src);
          m = ip_set_hdr_cksum m iphdr old_cksum;
          m = (if proto = 6 then
                 (let old_cksum = tcp_cksum m payhdr;
                      old_cksum = ucast (ip_update_cksum32 old_cksum old_src src)
                  in tcp_set_cksum m payhdr old_cksum)
               else if proto = 17 then
                 (let old_cksum = udp_cksum m payhdr
                  in if old_cksum \<noteq> 0 then
                       (let old_cksum = ucast (ip_update_cksum32 old_cksum old_src src)
                        in udp_set_cksum m payhdr old_cksum)
                     else m)
               else m)
      in ip_set_src m iphdr src)"

definition ip_set_dst_cksum_update :: "mem \<Rightarrow> ptr \<Rightarrow> u16 \<Rightarrow> u8 \<Rightarrow> ptr \<Rightarrow> u16 \<Rightarrow> u32 \<Rightarrow> mem" where
  "ip_set_dst_cksum_update m iphdr iplen proto payhdr paylen dst =
     (let old_dst = ip_dst m iphdr;
          old_cksum = ip_hdr_cksum m iphdr;
          old_cksum = ucast (ip_update_cksum32 old_cksum old_dst dst);
          m = ip_set_hdr_cksum m iphdr old_cksum;
          m = (if proto = 6 then
                 (let old_cksum = tcp_cksum m payhdr;
                      old_cksum = ucast (ip_update_cksum32 old_cksum old_dst dst)
                  in tcp_set_cksum m payhdr old_cksum)
               else if proto = 17 then
                 (let old_cksum = udp_cksum m payhdr
                  in if old_cksum \<noteq> 0 then
                       (let old_cksum = ucast (ip_update_cksum32 old_cksum old_dst dst)
                        in udp_set_cksum m payhdr old_cksum)
                     else m)
               else m)
      in ip_set_dst m iphdr dst)"

definition ip_decr_ttl_cksum_update :: "mem \<Rightarrow> ptr \<Rightarrow> (mem \<times> bool) option" where
  "ip_decr_ttl_cksum_update m pkt =
     (let old_cksum = ip_hdr_cksum m pkt;
          ttl = ip_ttl m pkt;
          proto = ip_proto m pkt
      in if ttl = 0 then None
         else let whole_field_old = push_bit 8 (ucast ttl) OR ucast proto;
                  ttl = ttl - 1;
                  whole_field_new = push_bit 8 (ucast ttl) OR ucast proto;
                  old_cksum = ip_update_cksum16 old_cksum whole_field_old whole_field_new;
                  m = ip_set_hdr_cksum m pkt old_cksum;
                  m = ip_set_ttl m pkt ttl
              in Some (m, ttl > 0))"

section \<open>Updates of transport headers\<close>

definition tcp_set_src_port_cksum_update :: "mem \<Rightarrow> ptr \<Rightarrow> u16 \<Rightarrow> u16 \<Rightarrow> mem" where
  "tcp_set_src_port_cksum_update m tcphdr tcplen src_port =
     (let old_src_port = tcp_src_port m tcphdr;
          old_cksum = tcp_cksum m tcphdr;
          old_cksum = ip_update_cksum16 old_cksum old_src_port src_port;
          m = tcp_set_cksum m tcphdr old_cksum
      in tcp_set_src_port m tcphdr src_port)"

definition tcp_set_dst_port_cksum_update :: "mem \<Rightarrow> ptr \<Rightarrow> u16 \<Rightarrow> u16 \<Rightarrow> mem" where
  "tcp_set_dst_port_cksum_update m tcphdr tcplen dst_port =
     (let old_dst_port = tcp_dst_port m tcphdr;
          old_cksum = tcp_cksum m tcphdr;
          old_cksum = ip_update_cksum16 old_cksum old_dst_port dst_port;
          m = tcp_set_cksum m tcphdr old_cksum
      in tcp_set_dst_port m tcphdr dst_port)"

definition icmp_set_echo_identifier_cksum_update :: "mem \<Rightarrow> ptr \<Rightarrow> u16 \<Rightarrow> u16 \<Rightarrow> mem" where
  "icmp_set_echo_identifier_cksum_update m icmphdr icmplen echo_identifier =
     (let old_echo_identifier = icmp_echo_identifier m icmphdr;
          old_cksum = icmp_checksum m icmphdr;
          old_cksum = ip_update_cksum16 old_cksum old_echo_identifier echo_identifier;
          m = icmp_set_checksum m icmphdr old_cksum
      in icmp_set_echo_identifier m icmphdr echo_identifier)"

definition tcp_set_seq_number_cksum_update :: "mem \<Rightarrow> ptr \<Rightarrow> u16 \<Rightarrow> u32 \<Rightarrow> mem" where
  "tcp_set_seq_number_cksum_update m tcphdr tcplen seq_number =
     (let old_seq_number = tcp_seq_number m tcphdr;
          old_cksum = tcp_cksum m tcphdr;
          old_cksum = ucast (ip_update_cksum32 old_cksum old_seq_number seq_number);
          m = tcp_set_cksum m tcphdr old_cksum
      in tcp_set_seq_number m tcphdr seq_number)"

definition tcp_set_ack_number_cksum_update :: "mem \<Rightarrow> ptr \<Rightarrow> u16 \<Rightarrow> u32 \<Rightarrow> mem" where
  "tcp_set_ack_number_cksum_update m tcphdr tcplen ack_number =
     (let old_ack_number = tcp_ack_number m tcphdr;
          old_cksum = tcp_cksum m tcphdr;
          old_cksum = ucast (ip_update_cksum32 old_cksum old_ack_number ack_number);
          m = tcp_set_cksum m tcphdr old_cksum
      in tcp_set_ack_number m tcphdr ack_number)"

definition tcp_set_window_cksum_update :: "mem \<Rightarrow> ptr \<Rightarrow> u16 \<Rightarrow> u16 \<Rightarrow> mem" where
  "tcp_set_window_cksum_update m tcphdr tcplen window =
     (let old_window = tcp_window m tcphdr;
          old_cksum = tcp_cksum m tcphdr;
          old_cksum = ip_update_cksum16 old_cksum old_window window;
          m = tcp_set_cksum m tcphdr old_cksum
      in tcp_set_window m tcphdr window)"

definition udp_set_src_port_cksum_update :: "mem \<Rightarrow> ptr \<Rightarrow> u16 \<Rightarrow> u16 \<Rightarrow> mem" where
  "udp_set_src_port_cksum_update m udphdr udplen src_port =
     (let old_src_port = udp_src_port m udphdr;
          old_cksum = udp_cksum m udphdr;
          m = (if old_cksum \<noteq> 0
               then (let old_cksum = ip_update_cksum16 old_cksum old_src_port src_port
                     in udp_set_cksum m udphdr old_cksum)
               else m)
      in udp_set_src_port m udphdr src_port)"

definition udp_set_dst_port_cksum_update :: "mem \<Rightarrow> ptr \<Rightarrow> u16 \<Rightarrow> u16 \<Rightarrow> mem" where
  "udp_set_dst_port_cksum_update m udphdr udplen dst_port =
     (let old_dst_port = udp_dst_port m udphdr;
          old_cksum = udp_cksum m udphdr;
          m = (if old_cksum \<noteq> 0
               then (let old_cksum = ip_update_cksum16 old_cksum old_dst_port dst_port
                     in udp_set_cksum m udphdr old_cksum)
               else m)
      in udp_set_dst_port m udphdr dst_port)"

definition tcp_set_ack_off_cksum_update :: "mem \<Rightarrow> ptr \<Rightarrow> mem" where
  "tcp_set_ack_off_cksum_update m pkt =
     (let cksum = tcp_cksum m pkt;
          whole_field_old = hdr_get16n m (pkt + 12);
          m = hdr_set8h m (pkt + 13) (hdr_get8h m (pkt + 13) AND NOT (push_bit 4 1));
          whole_field_new = hdr_get16n m (pkt + 12);
          cksum = ip_update_cksum16 cksum whole_field_old whole_field_new
      in tcp_set_cksum m pkt cksum)"

section \<open>Updates of TCP options\<close>

text \<open>
  Options may start at an odd offset of the segment; then a rewritten 16-bit value straddles
  two checksum words, and the code rereads both words after the store.
\<close>

definition tcp_set_mss_cksum_update :: "mem \<Rightarrow> ptr \<Rightarrow> tcp_information \<Rightarrow> u16 \<Rightarrow> mem" where
  "tcp_set_mss_cksum_update m pkt opts mss_val =
     (let cksum = tcp_cksum m pkt;
          off = unat (mssoff opts)
      in if off mod 2 = 0 then
           (let old_mss = hdr_get16n m (pkt + (off + 2));
                cksum = ip_update_cksum16 cksum old_mss mss_val;
                m = hdr_set16n m (pkt + (off + 2)) mss_val
            in tcp_set_cksum m pkt cksum)
         else
           (let old_val1 = hdr_get16n m (pkt + (off + 1));
                old_val2 = hdr_get16n m (pkt + (off + 3));
                m = hdr_set16n m (pkt + (off + 2)) mss_val;
                new_val1 = hdr_get16n m (pkt + (off + 1));
                new_val2 = hdr_get16n m (pkt + (off + 3));
                cksum = ip_update_cksum16 cksum old_val1 new_val1;
                cksum = ip_update_cksum16 cksum old_val2 new_val2
            in tcp_set_cksum m pkt cksum))"

definition tcp_adjust_tsval_cksum_update :: "mem \<Rightarrow> ptr \<Rightarrow> sack_ts_headers \<Rightarrow> u32 \<Rightarrow> mem" where
  "tcp_adjust_tsval_cksum_update m pkt hdrs adjustment =
     (let cksum = tcp_cksum m pkt;
          off = unat (tsoff hdrs)
      in if off = 0 then m
         else if off mod 2 = 0 then
           (let oldval = hdr_get32n m (pkt + (off + 2));
                newval = oldval + adjustment;
                m = hdr_set32n m (pkt + (off + 2)) newval;
                cksum = ucast (ip_update_cksum32 cksum oldval newval)
            in tcp_set_cksum m pkt cksum)
         else
           (let oldval1 = hdr_get16n m (pkt + (off + 1));
                oldval2 = hdr_get16n m (pkt + (off + 3));
                oldval3 = hdr_get16n m (pkt + (off + 5));
                oldval = hdr_get32n m (pkt + (off + 2));
                newval = oldval + adjustment;
                m = hdr_set32n m (pkt + (off + 2)) newval;
                newval1 = hdr_get16n m (pkt + (off + 1));
                newval2 = hdr_get16n m (pkt + (off + 3));
                newval3 = hdr_get16n m (pkt + (off + 5));
                cksum = ip_update_cksum16 cksum oldval1 newval1;
                cksum = ip_update_cksum16 cksum oldval2 newval2;
                cksum = ip_update_cksum16 cksum oldval3 newval3
            in tcp_set_cksum m pkt cksum))"

definition tcp_adjust_tsecho_cksum_update :: "mem \<Rightarrow> ptr \<Rightarrow> sack_ts_headers \<Rightarrow> u32 \<Rightarrow> mem" where
  "tcp_adjust_tsecho_cksum_update m pkt hdrs adjustment =
     (let cksum = tcp_cksum m pkt;
          off = unat (tsoff hdrs)
      in if off = 0 then m
         else if off mod 2 = 0 then
           (let oldval = hdr_get32n m (pkt + (off + 6));
                newval = oldval + adjustment;
                m = hdr_set32n m (pkt + (off + 6)) newval;
                cksum = ucast (ip_update_cksum32 cksum oldval newval)
            in tcp_set_cksum m pkt cksum)
         else
           (let oldval1 = hdr_get16n m (pkt + (off + 5));
                oldval2 = hdr_get16n m (pkt + (off + 7));
                oldval3 = hdr_get16n m (pkt + (off + 9));
                oldval = hdr_get32n m (pkt + (off + 6));
                newval = oldval + adjustment;
                m = hdr_set32n m (pkt + (off + 6)) newval;
                newval1 = hdr_get16n m (pkt + (off + 5));
                newval2 = hdr_get16n m (pkt + (off + 7));
                newval3 = hdr_get16n m (pkt + (off + 9));
                cksum = ip_update_cksum16 cksum oldval1 newval1;
                cksum = ip_update_cksum16 cksum oldval2 newval2;
                cksum = ip_update_cksum16 cksum oldval3 newval3
            in tcp_set_cksum m pkt cksum))"

text \<open>
  \<^verbatim>\<open>tcp_disable_sack_cksum_update\<close> overwrites a SACK option with no-operation options, in a
  loop of two bytes at a time and a step for an odd last byte; one pair for each alignment.
\<close>

function disable_sack_loop_aligned :: "mem \<Rightarrow> ptr \<Rightarrow> nat \<Rightarrow> nat \<Rightarrow> u16 \<Rightarrow> mem \<times> nat \<times> u16" where
  "disable_sack_loop_aligned m chdr len curoff cksum =
     (if curoff + 2 \<le> len then
        (let old_val = hdr_get16n m (chdr + curoff);
             new_val = 0x0101;
             cksum = ip_update_cksum16 cksum old_val new_val;
             m = hdr_set16n m (chdr + curoff) new_val
         in disable_sack_loop_aligned m chdr len (curoff + 2) cksum)
      else (m, curoff, cksum))"
  by auto
termination by (relation "measure (\<lambda>(m, chdr, len, curoff, cksum). len - curoff)") auto

definition disable_sack_last_aligned :: "mem \<Rightarrow> ptr \<Rightarrow> nat \<Rightarrow> nat \<Rightarrow> u16 \<Rightarrow> mem \<times> u16" where
  "disable_sack_last_aligned m chdr len curoff cksum =
     (if curoff + 1 = len then
        (let old_val = hdr_get16n m (chdr + curoff);
             new_val = (old_val AND 0xFF) OR 0x0100;
             cksum = ip_update_cksum16 cksum old_val new_val;
             m = hdr_set16n m (chdr + curoff) new_val
         in (m, cksum))
      else (m, cksum))"

function disable_sack_loop_unaligned :: "mem \<Rightarrow> ptr \<Rightarrow> nat \<Rightarrow> nat \<Rightarrow> u16 \<Rightarrow> mem \<times> nat \<times> u16" where
  "disable_sack_loop_unaligned m chdr len curoff cksum =
     (if curoff + 2 \<le> len then
        (let old_val1 = hdr_get16n m (chdr + curoff - 1);
             old_val2 = hdr_get16n m (chdr + curoff + 1);
             new_val = 0x0101;
             m = hdr_set16n m (chdr + curoff) new_val;
             new_val1 = hdr_get16n m (chdr + curoff - 1);
             new_val2 = hdr_get16n m (chdr + curoff + 1);
             cksum = ip_update_cksum16 cksum old_val1 new_val1;
             cksum = ip_update_cksum16 cksum old_val2 new_val2
         in disable_sack_loop_unaligned m chdr len (curoff + 2) cksum)
      else (m, curoff, cksum))"
  by auto
termination by (relation "measure (\<lambda>(m, chdr, len, curoff, cksum). len - curoff)") auto

definition disable_sack_last_unaligned :: "mem \<Rightarrow> ptr \<Rightarrow> nat \<Rightarrow> nat \<Rightarrow> u16 \<Rightarrow> mem \<times> u16" where
  "disable_sack_last_unaligned m chdr len curoff cksum =
     (if curoff + 1 = len then
        (let old_val1 = hdr_get16n m (chdr + curoff - 1);
             old_val2 = hdr_get16n m (chdr + curoff + 1);
             old_val = hdr_get16n m (chdr + curoff);
             new_val = (old_val AND 0xFF) OR 0x0100;
             m = hdr_set16n m (chdr + curoff) new_val;
             new_val1 = hdr_get16n m (chdr + curoff - 1);
             new_val2 = hdr_get16n m (chdr + curoff + 1);
             cksum = ip_update_cksum16 cksum old_val1 new_val1;
             cksum = ip_update_cksum16 cksum old_val2 new_val2
         in (m, cksum))
      else (m, cksum))"

definition tcp_disable_sack_cksum_update :: "mem \<Rightarrow> ptr \<Rightarrow> ptr \<Rightarrow> nat \<Rightarrow> bool \<Rightarrow> mem" where
  "tcp_disable_sack_cksum_update m pkt sackhdr len sixteen_bit_align =
     (let cksum = tcp_cksum m pkt;
          (m, cksum) =
            (if sixteen_bit_align then
               (let (m, curoff, cksum) = disable_sack_loop_aligned m sackhdr len 0 cksum
                in disable_sack_last_aligned m sackhdr len curoff cksum)
             else
               (let (m, curoff, cksum) = disable_sack_loop_unaligned m sackhdr len 0 cksum
                in disable_sack_last_unaligned m sackhdr len curoff cksum))
      in tcp_set_cksum m pkt cksum)"

text \<open>
  \<^verbatim>\<open>tcp_adjust_sack_cksum_update\<close> adds a constant to the block edges of a SACK option.  The
  loop for the odd alignment does not advance \<^verbatim>\<open>curoff\<close>, so it is a partial function, and the
  result of the whole function is \<open>None\<close> when it does not end.
\<close>

function adjust_sack_loop_aligned :: "mem \<Rightarrow> ptr \<Rightarrow> nat \<Rightarrow> u32 \<Rightarrow> nat \<Rightarrow> u16 \<Rightarrow> mem \<times> u16" where
  "adjust_sack_loop_aligned m chdr len adjustment curoff cksum =
     (if curoff + 8 \<le> len then
        (let old_start = hdr_get32n m (chdr + (curoff + 0));
             old_end = hdr_get32n m (chdr + (curoff + 4));
             new_start = old_start + adjustment;
             new_end = old_end + adjustment;
             cksum = ucast (ip_update_cksum32 cksum old_start new_start);
             cksum = ucast (ip_update_cksum32 cksum old_end new_end);
             m = hdr_set32n m (chdr + (curoff + 0)) new_start;
             m = hdr_set32n m (chdr + (curoff + 4)) new_end
         in adjust_sack_loop_aligned m chdr len adjustment (curoff + 8) cksum)
      else (m, cksum))"
  by auto
termination by (relation "measure (\<lambda>(m, chdr, len, adjustment, curoff, cksum). len - curoff)") auto

partial_function (option) adjust_sack_loop_unaligned ::
  "mem \<Rightarrow> ptr \<Rightarrow> nat \<Rightarrow> u32 \<Rightarrow> nat \<Rightarrow> u16 \<Rightarrow> (mem \<times> u16) option"
where
  "adjust_sack_loop_unaligned m chdr len adjustment curoff cksum =
     (if curoff + 8 \<le> len then
        (let old_val1 = hdr_get16n m (chdr + curoff - 1);
             old_val2 = hdr_get32n m (chdr + curoff + 1);
             old_val3 = hdr_get32n m (chdr + curoff + 5);
             old_start = hdr_get32n m (chdr + (curoff + 0));
             old_end = hdr_get32n m (chdr + (curoff + 4));
             new_start = old_start + adjustment;
             new_end = old_end + adjustment;
             m = hdr_set32n m (chdr + (curoff + 0)) new_start;
             m = hdr_set32n m (chdr + (curoff + 4)) new_end;
             new_val1 = hdr_get16n m (chdr + curoff - 1);
             new_val2 = hdr_get32n m (chdr + curoff + 1);
             new_val3 = hdr_get32n m (chdr + curoff + 5);
             cksum = ip_update_cksum16 cksum old_val1 new_val1;
             cksum = ucast (ip_update_cksum32 cksum old_val2 new_val2);
             cksum = ucast (ip_update_cksum32 cksum old_val3 new_val3)
         in adjust_sack_loop_unaligned m chdr len adjustment curoff cksum)
      else Some (m, cksum))"

definition tcp_adjust_sack_cksum_update ::
  "mem \<Rightarrow> ptr \<Rightarrow> ptr \<Rightarrow> nat \<Rightarrow> bool \<Rightarrow> u32 \<Rightarrow> mem option" where
  "tcp_adjust_sack_cksum_update m pkt sackhdr len sixteen_bit_align adjustment =
     (let cksum = tcp_cksum m pkt
      in map_option (\<lambda>(m, cksum). tcp_set_cksum m pkt cksum)
           (if sixteen_bit_align
            then Some (adjust_sack_loop_aligned m sackhdr len adjustment 2 cksum)
            else adjust_sack_loop_unaligned m sackhdr len adjustment 2 cksum))"

definition tcp_adjust_sack_cksum_update_2 ::
  "mem \<Rightarrow> ptr \<Rightarrow> sack_ts_headers \<Rightarrow> u32 \<Rightarrow> mem option" where
  "tcp_adjust_sack_cksum_update_2 m pkt hdrs adjustment =
     (if sackoff hdrs = 0 then Some m
      else tcp_adjust_sack_cksum_update m pkt (pkt + unat (sackoff hdrs)) (unat (sacklen hdrs))
        (unat (sackoff hdrs) mod 2 = 0) adjustment)"

declare disable_sack_loop_aligned.simps [simp del] disable_sack_loop_unaligned.simps [simp del]
  adjust_sack_loop_aligned.simps [simp del]

section \<open>The arithmetic of an update\<close>

lemma unat_ip_update_cksum16:
  "unat (ip_update_cksum16 c ov nv) = 65535 - oc16 ((65535 - unat c) + (65535 - unat ov) + unat nv)"
proof -
  define x :: u32 where "x = ucast (NOT c) + ucast (NOT ov) + ucast nv"
  have c: "(ucast (NOT (ucast c :: u32)) :: u16) = NOT c"
    by (rule bit_word_eqI) (auto simp: bit_simps)
  have "unat x = unat (NOT c) + unat (NOT ov) + unat nv"
    using unat_u16_less [of "NOT c"] unat_u16_less [of "NOT ov"] unat_u16_less [of nv]
    by (simp add: x_def unat_word_ariths)
  then have x: "unat x = (65535 - unat c) + (65535 - unat ov) + unat nv"
    by (simp only: unat_NOT16)
  have "ip_update_cksum16 c ov nv = ucast (NOT (ip_cksum_fold x))"
    by (simp only: ip_update_cksum16_def Let_def c x_def)
  also have "\<dots> = NOT (ucast (ip_cksum_fold x))"
    by (rule bit_word_eqI) (auto simp: bit_simps)
  finally have "unat (ip_update_cksum16 c ov nv) = 65535 - unat (ucast (ip_cksum_fold x) :: u16)"
    by (simp only: unat_NOT16)
  also have "unat (ucast (ip_cksum_fold x) :: u16) = oc16 (unat x)"
    using oc16_le [of "unat x"]
    by (simp add: unsigned_ucast_eq unat_ip_cksum_fold take_bit_nat_eq_self_iff)
  finally show ?thesis by (simp only: x)
qed

lemma valid_sum_int: "valid_sum n \<longleftrightarrow> n \<noteq> 0 \<and> (65535 :: int) dvd int n"
proof -
  have "(65535 :: int) dvd int n \<longleftrightarrow> (65535 :: nat) dvd n"
    by (metis int_dvd_int_iff of_nat_numeral)
  then show ?thesis by (auto simp: valid_sum_def)
qed

text \<open>
  The checksum \<open>c\<close> makes the sum \<open>R\<close> of all other words verify; after a word changed from \<open>ov\<close>
  to \<open>nv\<close> the updated checksum makes the new sum \<open>R'\<close> verify.  A zero sum cannot verify.
\<close>

lemma valid_update16:
  assumes "valid_sum (R + unat c)" "R' + unat ov = R + unat nv" "R' \<noteq> 0"
  shows "valid_sum (R' + unat (ip_update_cksum16 c ov nv))"
proof -
  define x where "x = (65535 - unat c) + (65535 - unat ov) + unat nv"
  have x: "int x = 131070 - int (unat c) - int (unat ov) + int (unat nv)"
    using unat_u16_less [of c] unat_u16_less [of ov] by (simp add: x_def)
  have "int (oc16 x) mod 65535 = int x mod 65535"
    using oc16_mod [of x] by (metis of_nat_mod of_nat_numeral)
  then have "(65535 :: int) dvd int x - int (oc16 x)" by (metis mod_eq_dvd_iff)
  moreover have "(65535 :: int) dvd int (R + unat c)"
    using assms(1) by (simp only: valid_sum_int)
  ultimately have "(65535 :: int) dvd int (R + unat c) + (int x - int (oc16 x)) - 65535"
    by (rule dvd_diff [OF dvd_add dvd_refl, rotated])
  also have "int (R + unat c) + (int x - int (oc16 x)) - 65535 = int (R' + (65535 - oc16 x))"
  proof -
    have "int R' + int (unat ov) = int R + int (unat nv)" using assms(2) by (metis of_nat_add)
    then show ?thesis using oc16_le [of x] x by (simp add: of_nat_diff)
  qed
  finally show ?thesis
    using assms(3) by (simp add: valid_sum_int unat_ip_update_cksum16 x_def [symmetric])
qed

section \<open>The sum of a segment without its checksum word\<close>

text \<open>
  \<open>rest_sum m p n k\<close> is the sum of the \<open>n\<close> bytes at \<open>p\<close>, the checksum word at offset \<open>k\<close> not
  counted.  \<open>cks_inv\<close> is the invariant of an update in progress: \<open>P\<close> is the sum of the
  pseudo-header, and \<open>c\<close> the value of the local variable that will be stored as the checksum.
\<close>

definition rest_sum :: "mem \<Rightarrow> ptr \<Rightarrow> nat \<Rightarrow> nat \<Rightarrow> nat" where
  "rest_sum m p n k = be_sum (mem_bytes (hdr_set16n m (p + k) 0) p n)"

definition cks_inv :: "nat \<Rightarrow> mem \<Rightarrow> ptr \<Rightarrow> nat \<Rightarrow> nat \<Rightarrow> u16 \<Rightarrow> bool" where
  "cks_inv P m p n k c \<longleftrightarrow>
     P \<noteq> 0 \<and> even k \<and> k + 2 \<le> n \<and> valid_sum (P + rest_sum m p n k + unat c)"

lemma be_sum_rest:
  assumes "even k" "k + 2 \<le> n"
  shows "be_sum (mem_bytes m p n) = rest_sum m p n k + unat (hdr_get16n m (p + k))"
  using be_sum_update16 [OF assms, of "hdr_set16n m (p + k) 0" p m]
  by (simp add: rest_sum_def hdr_set16n_apply)

lemma rest_sum_cong:
  assumes "\<And>i. i < n \<Longrightarrow> i \<noteq> k \<Longrightarrow> i \<noteq> k + 1 \<Longrightarrow> m' (p + i) = m (p + i)"
  shows "rest_sum m' p n k = rest_sum m p n k"
  unfolding rest_sum_def
  by (intro arg_cong [where f = be_sum] mem_bytes_cong mem_agreeI) (auto simp: hdr_set16n_apply assms)

lemma cks_inv_start:
  assumes "valid_sum (P + be_sum (mem_bytes m p n))" "P \<noteq> 0" "even k" "k + 2 \<le> n"
  shows "cks_inv P m p n k (hdr_get16n m (p + k))"
  using assms by (simp add: cks_inv_def be_sum_rest [of k n m p] add.assoc)

lemma cks_inv_finish:
  assumes "cks_inv P m p n k c" "hdr_get16n m' (p + k) = c"
    and "\<And>i. i < n \<Longrightarrow> i \<noteq> k \<Longrightarrow> i \<noteq> k + 1 \<Longrightarrow> m' (p + i) = m (p + i)"
  shows "valid_sum (P + be_sum (mem_bytes m' p n))"
  using assms be_sum_rest [of k n m' p] rest_sum_cong [of n k m' p m]
  by (simp add: cks_inv_def add.assoc)

text \<open>
  One word at the even offset \<open>j\<close> changes, inside the segment, or nothing in the segment does.
\<close>

lemma cks_inv_update16:
  assumes "cks_inv P m p n k c"
    and "even j" "j + 2 \<le> n" "j \<noteq> k"
    and "\<And>i. i < n \<Longrightarrow> i \<noteq> j \<Longrightarrow> i \<noteq> j + 1 \<Longrightarrow> m' (p + i) = m (p + i)"
  shows "cks_inv P m' p n k (ip_update_cksum16 c (hdr_get16n m (p + j)) (hdr_get16n m' (p + j)))"
proof -
  let ?z = "\<lambda>m. hdr_set16n m (p + k) 0"
  have k: "even k" using assms(1) by (simp add: cks_inv_def)
  have ne: "j + 1 \<noteq> k" "k + 1 \<noteq> j" using assms(2) k by auto
  have w: "hdr_get16n (?z m) (p + j) = hdr_get16n m (p + j)" for m
    using assms(4) ne by (simp add: hdr_get16n_be hdr_set16n_apply)
  have "rest_sum m' p n k + unat (hdr_get16n m (p + j)) = rest_sum m p n k + unat (hdr_get16n m' (p + j))"
    unfolding rest_sum_def
    using be_sum_update16 [OF assms(2,3), of "?z m'" p "?z m"] assms(5)
    by (simp add: w hdr_set16n_apply)
  then have "P + rest_sum m' p n k + unat (hdr_get16n m (p + j)) =
      P + rest_sum m p n k + unat (hdr_get16n m' (p + j))" by simp
  from valid_update16 [OF _ this] assms(1) show ?thesis
    by (simp add: cks_inv_def)
qed

lemma cks_inv_same:
  assumes "cks_inv P m p n k c"
  shows "cks_inv P m p n k (ip_update_cksum16 c v v)"
  using assms valid_update16 [of "P + rest_sum m p n k" c "P + rest_sum m p n k" v v]
  by (simp add: cks_inv_def)

text \<open>Several words, each at its own even offset.\<close>

lemma cks_inv_update_words:
  assumes "cks_inv P m p n k c" "distinct js"
    and "\<And>j. j \<in> set js \<Longrightarrow> even j \<and> j + 2 \<le> n \<and> j \<noteq> k"
    and "\<And>i. i < n \<Longrightarrow> \<forall>j \<in> set js. i \<noteq> j \<and> i \<noteq> j + 1 \<Longrightarrow> m' (p + i) = m (p + i)"
  shows "cks_inv P m' p n k
    (foldl (\<lambda>c j. ip_update_cksum16 c (hdr_get16n m (p + j)) (hdr_get16n m' (p + j))) c js)"
  using assms
proof (induction js arbitrary: m c)
  case Nil
  then have "rest_sum m' p n k = rest_sum m p n k" by (intro rest_sum_cong) simp
  with Nil.prems(1) show ?case by (simp add: cks_inv_def)
next
  case (Cons j js)
  define m1 where "m1 = hdr_set16n m (p + j) (hdr_get16n m' (p + j))"
  have j: "even j" "j + 2 \<le> n" "j \<noteq> k" using Cons.prems(3) by auto
  have "cks_inv P m1 p n k (ip_update_cksum16 c (hdr_get16n m (p + j)) (hdr_get16n m' (p + j)))"
    using cks_inv_update16 [OF Cons.prems(1) j, of m1] by (simp add: m1_def hdr_set16n_apply)
  moreover have "m' (p + i) = m1 (p + i)" if "i < n" "\<forall>j \<in> set js. i \<noteq> j \<and> i \<noteq> j + 1" for i
    using that Cons.prems(4) [of i] by (auto simp: m1_def hdr_set16n_apply hdr_get16n_be)
  ultimately have "cks_inv P m' p n k
    (foldl (\<lambda>c j. ip_update_cksum16 c (hdr_get16n m1 (p + j)) (hdr_get16n m' (p + j)))
      (ip_update_cksum16 c (hdr_get16n m (p + j)) (hdr_get16n m' (p + j))) js)"
    using Cons.prems(2,3) by (intro Cons.IH) auto
  moreover have "hdr_get16n m1 (p + i) = hdr_get16n m (p + i)" if "i \<in> set js" for i
  proof -
    have "even i" "i \<noteq> j" using Cons.prems(2,3) that by auto
    with j(1) have "i + 1 \<noteq> j" "j + 1 \<noteq> i" by auto
    with \<open>i \<noteq> j\<close> show ?thesis by (simp add: m1_def hdr_get16n_be hdr_set16n_apply)
  qed
  ultimately show ?case by (simp cong: foldl_cong)
qed

section \<open>Operations that keep a segment verifying\<close>

text \<open>
  \<open>seg_keeps m r p n\<close>: going from memory \<open>m\<close> to \<open>r\<close> changes nothing outside the \<open>n\<close> bytes at
  \<open>p\<close>, and keeps them verifying together with every pseudo-header of nonzero sum.
\<close>

definition seg_keeps :: "mem \<Rightarrow> mem \<Rightarrow> ptr \<Rightarrow> nat \<Rightarrow> bool" where
  "seg_keeps m r p n \<longleftrightarrow>
     (\<forall>a. a < p \<or> p + n \<le> a \<longrightarrow> r a = m a) \<and>
     (\<forall>P. P \<noteq> 0 \<longrightarrow> valid_sum (P + be_sum (mem_bytes m p n)) \<longrightarrow> valid_sum (P + be_sum (mem_bytes r p n)))"

lemma seg_keepsI:
  assumes k: "even k" "k + 2 \<le> n" and "distinct js"
    and js: "\<And>j. j \<in> set js \<Longrightarrow> even j \<and> j + 2 \<le> n \<and> j \<noteq> k"
    and frame: "\<And>a. a \<noteq> p + k \<Longrightarrow> a \<noteq> p + (k + 1) \<Longrightarrow>
      \<forall>j \<in> set js. a \<noteq> p + j \<and> a \<noteq> p + (j + 1) \<Longrightarrow> r a = m a"
    and c: "hdr_get16n r (p + k) =
      foldl (\<lambda>c j. ip_update_cksum16 c (hdr_get16n m (p + j)) (hdr_get16n r (p + j)))
        (hdr_get16n m (p + k)) js"
  shows "seg_keeps m r p n"
  unfolding seg_keeps_def
proof (intro conjI allI impI)
  fix a assume "a < p \<or> p + n \<le> a"
  then show "r a = m a" using k js by (intro frame) fastforce+
next
  fix P :: nat assume P: "P \<noteq> 0" "valid_sum (P + be_sum (mem_bytes m p n))"
  define m1 where "m1 = hdr_set16n r (p + k) (hdr_get16n m (p + k))"
  have "cks_inv P m1 p n k
      (foldl (\<lambda>c j. ip_update_cksum16 c (hdr_get16n m (p + j)) (hdr_get16n m1 (p + j)))
        (hdr_get16n m (p + k)) js)"
  proof (rule cks_inv_update_words [OF cks_inv_start [OF P(2,1) k] assms(3) js])
    fix i assume "\<forall>j \<in> set js. i \<noteq> j \<and> i \<noteq> j + 1"
    then show "m1 (p + i) = m (p + i)"
      using frame [of "p + i"] by (auto simp: m1_def hdr_set16n_apply hdr_get16n_be)
  qed
  moreover have "hdr_get16n m1 (p + j) = hdr_get16n r (p + j)" if "j \<in> set js" for j
  proof -
    have "j \<noteq> k" "j + 1 \<noteq> k" "k + 1 \<noteq> j" using js [OF that] k(1) by auto
    then show ?thesis by (simp add: m1_def hdr_get16n_be hdr_set16n_apply)
  qed
  ultimately have "cks_inv P m1 p n k (hdr_get16n r (p + k))"
    unfolding c by (simp cong: foldl_cong)
  then show "valid_sum (P + be_sum (mem_bytes r p n))"
    by (rule cks_inv_finish) (simp_all add: m1_def hdr_set16n_apply)
qed

lemma update_cksum32_16:
  "ucast (ip_update_cksum32 c old new) =
     ip_update_cksum16 (ip_update_cksum16 c (ucast (drop_bit 16 old)) (ucast (drop_bit 16 new)))
       (ucast old) (ucast new)"
proof -
  have "ucast (x AND 0xFFFF) = (ucast x :: u16)" for x :: u32
    by (auto simp: u16_eq_iff bit_simps)
  moreover have "ucast (ucast y :: u32) = y" for y :: u16
    by (rule bit_word_eqI) (auto simp: bit_simps)
  ultimately show ?thesis by (simp only: ip_update_cksum32_def Let_def)
qed

lemma hdr_get16n_set32n:
  "hdr_get16n (hdr_set32n m q v) q = ucast (drop_bit 16 v)"
  "hdr_get16n (hdr_set32n m q v) (q + 2) = ucast v"
  using hdr_get32n_halves [of "hdr_set32n m q v" q] by simp_all

lemma hdr_get16n_frame:
  "a + 2 \<le> q \<or> q + 2 \<le> a \<Longrightarrow> hdr_get16n (hdr_set16n m q v) a = hdr_get16n m a"
  "a + 2 \<le> q \<or> q + 4 \<le> a \<Longrightarrow> hdr_get16n (hdr_set32n m q w) a = hdr_get16n m a"
  by (auto simp: hdr_get16n_be hdr_set16n_apply hdr_set32n_apply)

lemmas seg_defs = tcp_cksum_def tcp_set_cksum_def udp_cksum_def udp_set_cksum_def
  tcp_src_port_def tcp_set_src_port_def tcp_dst_port_def tcp_set_dst_port_def
  tcp_seq_number_def tcp_set_seq_number_def tcp_ack_number_def tcp_set_ack_number_def
  tcp_window_def tcp_set_window_def udp_src_port_def udp_set_src_port_def
  udp_dst_port_def udp_set_dst_port_def icmp_checksum_def icmp_set_checksum_def
  icmp_echo_identifier_def icmp_set_echo_identifier_def Let_def

text \<open>A 16-bit field at offset \<open>j\<close>, and a 32-bit field at offsets \<open>j\<close> and \<open>j + 2\<close>.\<close>

lemma seg_keeps_field16:
  assumes "even k" "k + 2 \<le> n" "even j" "j + 2 \<le> n" "j \<noteq> k"
  shows "seg_keeps m (hdr_set16n (hdr_set16n m (p + k)
    (ip_update_cksum16 (hdr_get16n m (p + k)) (hdr_get16n m (p + j)) v)) (p + j) v) p n"
proof -
  have d: "j + 2 \<le> k \<or> k + 2 \<le> j" using assms by (cases "j < k") (auto elim!: evenE)
  show ?thesis
    by (rule seg_keepsI [of k n "[j]"]) (use assms d in \<open>auto simp: hdr_set16n_apply hdr_get16n_frame\<close>)
qed

lemma seg_keeps_field32:
  assumes "even k" "k + 2 \<le> n" "even j" "j + 4 \<le> n" "j + 4 \<le> k \<or> k + 2 \<le> j"
  shows "seg_keeps m (hdr_set32n (hdr_set16n m (p + k)
    (ucast (ip_update_cksum32 (hdr_get16n m (p + k)) (hdr_get32n m (p + j)) v))) (p + j) v) p n"
proof -
  show ?thesis
    by (rule seg_keepsI [of k n "[j, j + 2]"])
      (use assms hdr_get16n_set32n [of _ "p + j"] in \<open>auto simp: hdr_set16n_apply hdr_set32n_apply
        hdr_get16n_frame update_cksum32_16 hdr_get32n_halves add.assoc simp del: add_2_eq_Suc add_2_eq_Suc'\<close>)
qed

text \<open>Values at an odd offset \<open>i + 1\<close>, which straddle the words at \<open>i\<close>, \<open>i + 2\<close> and \<open>i + 4\<close>.\<close>

lemma seg_keeps_odd16:
  assumes "even k" "even i" "k + 2 \<le> i" "i + 4 \<le> n" "i1 = i + 1" "i2 = i + 2"
  defines "m1 \<equiv> \<lambda>m p v. hdr_set16n m (p + i1) v"
  shows "seg_keeps m (hdr_set16n (m1 m p v) (p + k) (ip_update_cksum16
    (ip_update_cksum16 (hdr_get16n m (p + k)) (hdr_get16n m (p + i)) (hdr_get16n (m1 m p v) (p + i)))
    (hdr_get16n m (p + i2)) (hdr_get16n (m1 m p v) (p + i2)))) p n"
  unfolding assms(5,6)
  by (rule seg_keepsI [of k n "[i, i + 2]"])
    (use assms(1-4) in \<open>auto simp: hdr_set16n_apply hdr_get16n_frame m1_def assms(5)
      simp del: add_2_eq_Suc add_2_eq_Suc'\<close>)

lemma seg_keeps_odd32:
  assumes "even k" "even i" "k + 2 \<le> i" "i + 6 \<le> n" "i1 = i + 1" "i2 = i + 2" "i4 = i + 4"
  defines "m1 \<equiv> \<lambda>m p v. hdr_set32n m (p + i1) v"
  shows "seg_keeps m (hdr_set16n (m1 m p v) (p + k) (ip_update_cksum16 (ip_update_cksum16
    (ip_update_cksum16 (hdr_get16n m (p + k)) (hdr_get16n m (p + i)) (hdr_get16n (m1 m p v) (p + i)))
    (hdr_get16n m (p + i2)) (hdr_get16n (m1 m p v) (p + i2)))
    (hdr_get16n m (p + i4)) (hdr_get16n (m1 m p v) (p + i4)))) p n"
  unfolding assms(5-7)
  by (rule seg_keepsI [of k n "[i, i + 2, i + 4]"])
    (use assms(1-4) in \<open>auto simp: hdr_set16n_apply hdr_set32n_apply hdr_get16n_frame m1_def assms(5)
      simp del: add_2_eq_Suc add_2_eq_Suc'\<close>)

lemma odd_le_even: "odd a \<Longrightarrow> even b \<Longrightarrow> a \<le> b \<Longrightarrow> a + 1 \<le> (b :: nat)"
  by (metis Suc_eq_plus1 Suc_leI le_neq_implies_less)

text \<open>The stores of the field and of the checksum commute.\<close>

lemma hdr_set16n_commute:
  "q + 2 \<le> q' \<or> q' + 2 \<le> q \<Longrightarrow>
     hdr_set16n (hdr_set16n m q v) q' v' = hdr_set16n (hdr_set16n m q' v') q v"
  "q + 4 \<le> q' \<or> q' + 2 \<le> q \<Longrightarrow>
     hdr_set16n (hdr_set32n m q w) q' v' = hdr_set32n (hdr_set16n m q' v') q w"
  by (rule ext, auto simp: hdr_set16n_apply hdr_set32n_apply)+

lemma tcp_updates_keep:
  assumes "20 \<le> n"
  shows "seg_keeps m (tcp_set_src_port_cksum_update m p len v16) p n"
    "seg_keeps m (tcp_set_dst_port_cksum_update m p len v16) p n"
    "seg_keeps m (tcp_set_seq_number_cksum_update m p len v32) p n"
    "seg_keeps m (tcp_set_ack_number_cksum_update m p len v32) p n"
    "seg_keeps m (tcp_set_window_cksum_update m p len v16) p n"
  using assms seg_keeps_field16 [of 16 n 0 m p] seg_keeps_field16 [of 16 n 2 m p]
    seg_keeps_field16 [of 16 n 14 m p] seg_keeps_field32 [of 16 n 4 m p]
    seg_keeps_field32 [of 16 n 8 m p]
  by (simp_all add: seg_defs tcp_set_src_port_cksum_update_def tcp_set_dst_port_cksum_update_def
      tcp_set_seq_number_cksum_update_def tcp_set_ack_number_cksum_update_def
      tcp_set_window_cksum_update_def)

lemma tcp_ack_off_keeps:
  assumes "20 \<le> n"
  shows "seg_keeps m (tcp_set_ack_off_cksum_update m p) p n"
  by (rule seg_keepsI [of 16 n "[12]"])
    (use assms in \<open>auto simp: tcp_set_ack_off_cksum_update_def seg_defs hdr_set16n_apply hdr_byte_simps
      hdr_get16n_frame\<close>)

lemma udp_updates_keep:
  assumes "8 \<le> n" "udp_cksum m p \<noteq> 0"
  shows "seg_keeps m (udp_set_src_port_cksum_update m p len v16) p n"
    "seg_keeps m (udp_set_dst_port_cksum_update m p len v16) p n"
  using assms seg_keeps_field16 [of 6 n 0 m p] seg_keeps_field16 [of 6 n 2 m p]
  by (simp_all add: seg_defs udp_set_src_port_cksum_update_def udp_set_dst_port_cksum_update_def)

lemma tcp_set_mss_keeps:
  assumes "20 \<le> unat (mssoff opts)" "unat (mssoff opts) + 4 \<le> h" "even h" "h \<le> n"
  shows "seg_keeps m (tcp_set_mss_cksum_update m p opts v) p n"
proof -
  define x where "x = unat (mssoff opts)"
  show ?thesis
  proof (cases "x mod 2 = 0")
    case True
    moreover have "even x" using True by (simp add: even_iff_mod_2_eq_zero)
    ultimately show ?thesis
      using seg_keeps_field16 [of 16 n "x + 2" m p v] assms
      by (simp add: tcp_set_mss_cksum_update_def seg_defs hdr_set16n_commute x_def [symmetric])
  next
    case False
    moreover have "odd x" using False by (simp add: even_iff_mod_2_eq_zero)
    moreover have "x + 4 + 1 \<le> h" using \<open>odd x\<close> assms(2,3) by (intro odd_le_even) (auto simp: x_def)
    ultimately show ?thesis
      using seg_keeps_odd16 [of 16 "x + 1" n "x + 2" "x + 3" m p v] assms
      by (simp add: tcp_set_mss_cksum_update_def seg_defs x_def [symmetric])
  qed
qed

lemma tcp_adjust_ts_keeps:
  assumes "20 \<le> unat (tsoff hdrs)" "unat (tsoff hdrs) + 10 \<le> h" "even h" "h \<le> n"
  shows "seg_keeps m (tcp_adjust_tsval_cksum_update m p hdrs adj) p n"
    "seg_keeps m (tcp_adjust_tsecho_cksum_update m p hdrs adj) p n"
proof -
  define x where "x = unat (tsoff hdrs)"
  have x: "x \<noteq> 0" "20 \<le> x" "x + 10 \<le> h" using assms by (auto simp: x_def)
  have "seg_keeps m (tcp_adjust_tsval_cksum_update m p hdrs adj) p n \<and>
    seg_keeps m (tcp_adjust_tsecho_cksum_update m p hdrs adj) p n"
  proof (cases "x mod 2 = 0")
    case True
    moreover have "even x" using True by (simp add: even_iff_mod_2_eq_zero)
    ultimately show ?thesis
      using seg_keeps_field32 [of 16 n "x + 2" m p] seg_keeps_field32 [of 16 n "x + 6" m p] assms x
      by (simp add: tcp_adjust_tsval_cksum_update_def tcp_adjust_tsecho_cksum_update_def seg_defs
          hdr_set16n_commute x_def [symmetric])
  next
    case False
    moreover have "odd x" using False by (simp add: even_iff_mod_2_eq_zero)
    moreover have "x + 10 + 1 \<le> h" using \<open>odd x\<close> x assms(3) by (intro odd_le_even) auto
    ultimately show ?thesis
      using seg_keeps_odd32 [of 16 "x + 1" n "x + 2" "x + 3" "x + 5" m p]
        seg_keeps_odd32 [of 16 "x + 5" n "x + 6" "x + 7" "x + 9" m p] assms x
      by (simp add: tcp_adjust_tsval_cksum_update_def tcp_adjust_tsecho_cksum_update_def seg_defs
          x_def [symmetric])
  qed
  then show "seg_keeps m (tcp_adjust_tsval_cksum_update m p hdrs adj) p n"
    "seg_keeps m (tcp_adjust_tsecho_cksum_update m p hdrs adj) p n" by auto
qed

end
