(* ===== verification/CksumSack.thy ===== *)
theory CksumSack
  imports CksumUpdate
begin

text \<open>
  The two updates of \<^verbatim>\<open>src/iphdr/ipcksum.h\<close> that walk over a SACK option: replacing it by
  no-operation options, and shifting its block edges.  The first is shown to keep the segment
  verifying at either alignment; the second does so at even offsets and does not end at odd ones.
\<close>

section \<open>Disabling SACK\<close>

text \<open>
  The state of a loop that overwrites the option bytes \<open>[s, s + len)\<close> of the segment at \<open>t\<close>,
  when those before \<open>cur\<close> have been replaced by no-operation options.
\<close>

definition nop_state :: "mem \<Rightarrow> ptr \<Rightarrow> nat \<Rightarrow> nat \<Rightarrow> nat \<Rightarrow> mem \<Rightarrow> u16 \<Rightarrow> bool" where
  "nop_state m0 t n s cur m c \<longleftrightarrow>
     (\<forall>i. s \<le> i \<and> i < s + cur \<longrightarrow> m (t + i) = 1) \<and>
     (\<forall>a. a < t + s \<or> t + s + cur \<le> a \<longrightarrow> m a = m0 a) \<and>
     (\<forall>P. cks_inv P m0 t n 16 (hdr_get16n m0 (t + 16)) \<longrightarrow> cks_inv P m t n 16 c)"

lemma nth_byte_nops:
  "nth_byte (0x0101 :: u16) 0 = 1" "nth_byte (0x0101 :: u16) (Suc 0) = 1"
  "nth_byte ((w AND 0xFF) OR 0x0100 :: u16) (Suc 0) = 1"
  "nth_byte ((w AND 0xFF) OR 0x0100 :: u16) 0 = nth_byte w 0"
  by (auto simp: nth_byte_def u8_eq_iff bit_simps)

text \<open>One store of one or two no-operation bytes, with the checksum adjusted for \<open>js\<close>.\<close>

lemma nop_state_step:
  assumes st: "nop_state m0 t n s cur m c"
    and js: "distinct js" "\<And>j. j \<in> set js \<Longrightarrow> even j \<and> 18 \<le> j \<and> j + 2 \<le> n"
    and d: "d \<le> 2" "\<And>i. s + cur \<le> i \<Longrightarrow> i < s + cur + d \<Longrightarrow> \<exists>j \<in> set js. i = j \<or> i = j + 1"
    and m': "\<And>a. m' a = (if t + s + cur \<le> a \<and> a < t + s + cur + d then 1 else m a)"
    and c': "c' = foldl (\<lambda>c j. ip_update_cksum16 c (hdr_get16n m (t + j)) (hdr_get16n m' (t + j))) c js"
  shows "nop_state m0 t n s (cur + d) m' c'"
  unfolding nop_state_def
proof (intro conjI allI impI)
  fix i assume "s \<le> i \<and> i < s + (cur + d)"
  then show "m' (t + i) = 1" using st by (auto simp: m' nop_state_def)
next
  fix a assume "a < t + s \<or> t + s + (cur + d) \<le> a"
  then show "m' a = m0 a" using st by (auto simp: m' nop_state_def)
next
  fix P assume "cks_inv P m0 t n 16 (hdr_get16n m0 (t + 16))"
  then have "cks_inv P m t n 16 c" using st by (simp add: nop_state_def)
  then show "cks_inv P m' t n 16 c'"
    unfolding c' using js(1)
  proof (rule cks_inv_update_words)
    fix i assume i: "\<forall>j \<in> set js. i \<noteq> j \<and> i \<noteq> j + 1"
    have "\<not> (t + s + cur \<le> t + i \<and> t + i < t + s + cur + d)"
      using d(2) [of i] i by fastforce
    then show "m' (t + i) = m (t + i)" by (auto simp: m')
  qed (use js(2) in fastforce)
qed

lemma disable_sack_loop_aligned_state:
  assumes "nop_state m0 t n s cur m c" "even s" "even cur" "18 \<le> s" "s + len \<le> h" "even h" "h \<le> n"
    and "cur \<le> len"
  shows "\<exists>m' cur' c'. disable_sack_loop_aligned m (t + s) len cur c = (m', cur', c') \<and>
    nop_state m0 t n s cur' m' c' \<and> even cur' \<and> cur' \<le> len \<and> len < cur' + 2"
  using assms
proof (induction "len - cur" arbitrary: cur m c rule: less_induct)
  case less
  show ?case
  proof (cases "cur + 2 \<le> len")
    case True
    let ?m' = "hdr_set16n m (t + s + cur) 0x0101"
    let ?c' = "ip_update_cksum16 c (hdr_get16n m (t + s + cur)) 0x0101"
    have "nop_state m0 t n s (cur + 2) ?m' ?c'"
      by (rule nop_state_step [OF less.prems(1), where js = "[s + cur]"])
        (use less.prems True in \<open>auto simp: hdr_set16n_apply nth_byte_nops add.assoc\<close>)
    then have "\<exists>m' cur' c'. disable_sack_loop_aligned ?m' (t + s) len (cur + 2) ?c' = (m', cur', c') \<and>
      nop_state m0 t n s cur' m' c' \<and> even cur' \<and> cur' \<le> len \<and> len < cur' + 2"
      using less.prems True by (intro less.hyps) auto
    then show ?thesis
      using True by (subst disable_sack_loop_aligned.simps) (simp add: Let_def)
  next
    case False
    then show ?thesis using less.prems by (subst disable_sack_loop_aligned.simps) auto
  qed
qed

lemma disable_sack_loop_unaligned_state:
  assumes "nop_state m0 t n s cur m c" "odd s" "even cur" "19 \<le> s" "s + len \<le> h" "even h" "h \<le> n"
    and "cur \<le> len"
  shows "\<exists>m' cur' c'. disable_sack_loop_unaligned m (t + s) len cur c = (m', cur', c') \<and>
    nop_state m0 t n s cur' m' c' \<and> even cur' \<and> cur' \<le> len \<and> len < cur' + 2"
  using assms
proof (induction "len - cur" arbitrary: cur m c rule: less_induct)
  case less
  show ?case
  proof (cases "cur + 2 \<le> len")
    case True
    let ?m' = "hdr_set16n m (t + s + cur) 0x0101"
    let ?c' = "ip_update_cksum16 (ip_update_cksum16 c
      (hdr_get16n m (t + s + cur - 1)) (hdr_get16n ?m' (t + s + cur - 1)))
      (hdr_get16n m (t + s + cur + 1)) (hdr_get16n ?m' (t + s + cur + 1))"
    have "s + cur + 2 + 1 \<le> h" using less.prems True by (intro odd_le_even) auto
    then have "nop_state m0 t n s (cur + 2) ?m' ?c'"
      by (intro nop_state_step [OF less.prems(1), where js = "[s + cur - 1, s + cur + 1]"])
        (use less.prems True in \<open>auto simp: hdr_set16n_apply nth_byte_nops add.assoc\<close>)
    then have "\<exists>m' cur' c'. disable_sack_loop_unaligned ?m' (t + s) len (cur + 2) ?c' = (m', cur', c') \<and>
      nop_state m0 t n s cur' m' c' \<and> even cur' \<and> cur' \<le> len \<and> len < cur' + 2"
      using less.prems True by (intro less.hyps) auto
    then show ?thesis
      using True by (subst disable_sack_loop_unaligned.simps) (simp add: Let_def)
  next
    case False
    then show ?thesis using less.prems by (subst disable_sack_loop_unaligned.simps) auto
  qed
qed

lemma disable_sack_last_state:
  assumes "nop_state m0 t n s cur m c" "even cur" "19 \<le> s" "s + len \<le> h" "even h" "h \<le> n"
    and "cur \<le> len" "len < cur + 2"
  shows "even s \<Longrightarrow> \<exists>m' c'. disable_sack_last_aligned m (t + s) len cur c = (m', c') \<and>
      nop_state m0 t n s len m' c'"
    "odd s \<Longrightarrow> \<exists>m' c'. disable_sack_last_unaligned m (t + s) len cur c = (m', c') \<and>
      nop_state m0 t n s len m' c'"
proof -
  define w where "w = hdr_get16n m (t + s + cur)"
  define m' where "m' = hdr_set16n m (t + s + cur) ((w AND 0xFF) OR 0x0100)"
  have m': "m' a = (if t + s + cur \<le> a \<and> a < t + s + cur + 1 then 1 else m a)" for a
    unfolding m'_def hdr_set16n_apply by (auto simp: nth_byte_nops w_def hdr_get16n_be)
  note step = nop_state_step [OF assms(1) _ _ _ _ m']
  show "\<exists>m' c'. disable_sack_last_aligned m (t + s) len cur c = (m', c') \<and> nop_state m0 t n s len m' c'"
    if "even s"
  proof (cases "cur + 1 = len")
    case True
    have "s + cur + 1 + 1 \<le> h" using assms True that by - (rule odd_le_even, auto)
    then have "nop_state m0 t n s len m'
        (ip_update_cksum16 c w (hdr_get16n m' (t + (s + cur))))"
      using assms step [of "[s + cur]"] that True by (simp add: w_def add.assoc)
    then show ?thesis
      using True by (simp add: disable_sack_last_aligned_def Let_def w_def m'_def add.assoc)
  next
    case False
    then have "cur = len" using assms(7,8) by simp
    then show ?thesis using assms(1) by (simp add: disable_sack_last_aligned_def)
  qed
  show "\<exists>m' c'. disable_sack_last_unaligned m (t + s) len cur c = (m', c') \<and> nop_state m0 t n s len m' c'"
    if "odd s"
  proof (cases "cur + 1 = len")
    case True
    have same: "hdr_get16n m' (t + s + cur + 1) = hdr_get16n m (t + s + cur + 1)"
      by (simp add: hdr_get16n_be m')
    have "nop_state m0 t n s len m'
        (ip_update_cksum16 c (hdr_get16n m (t + (s + cur - 1))) (hdr_get16n m' (t + (s + cur - 1))))"
      using assms step [of "[s + cur - 1]"] that True by (auto simp: add.assoc)
    then have "nop_state m0 t n s len m' (ip_update_cksum16
        (ip_update_cksum16 c (hdr_get16n m (t + (s + cur - 1))) (hdr_get16n m' (t + (s + cur - 1))))
        (hdr_get16n m (t + s + cur + 1)) (hdr_get16n m' (t + s + cur + 1)))"
      unfolding same by (auto simp: nop_state_def intro: cks_inv_same)
    then show ?thesis
      using True assms(3) by (simp add: disable_sack_last_unaligned_def Let_def w_def m'_def add.assoc)
  next
    case False
    then have "cur = len" using assms(7,8) by simp
    then show ?thesis using assms(1) by (simp add: disable_sack_last_unaligned_def)
  qed
qed

lemma seg_keeps_finish:
  assumes "\<And>P. cks_inv P m p n k (hdr_get16n m (p + k)) \<Longrightarrow> cks_inv P m' p n k c"
    and "\<And>a. a < p \<or> p + n \<le> a \<Longrightarrow> m' a = m a" "even k" "k + 2 \<le> n"
  shows "seg_keeps m (hdr_set16n m' (p + k) c) p n"
  unfolding seg_keeps_def
proof (intro conjI allI impI)
  fix a assume "a < p \<or> p + n \<le> a"
  then show "hdr_set16n m' (p + k) c a = m a" using assms(2-4) by (auto simp: hdr_set16n_apply)
next
  fix P assume "P \<noteq> 0" "valid_sum (P + be_sum (mem_bytes m p n))"
  then have "cks_inv P m' p n k c" using assms by (intro assms(1) cks_inv_start)
  then show "valid_sum (P + be_sum (mem_bytes (hdr_set16n m' (p + k) c) p n))"
    by (rule cks_inv_finish) (simp_all add: hdr_set16n_apply)
qed

lemma tcp_disable_sack_state:
  assumes "20 \<le> s" "s + len \<le> h" "even h" "h \<le> n"
  obtains m' c where
    "tcp_disable_sack_cksum_update m t (t + s) len (even s) = hdr_set16n m' (t + 16) c"
    "nop_state m t n s len m' c"
proof -
  let ?c = "hdr_get16n m (t + 16)"
  have st: "nop_state m t n s 0 m ?c" by (auto simp: nop_state_def)
  have "\<exists>m' c. tcp_disable_sack_cksum_update m t (t + s) len (even s) = hdr_set16n m' (t + 16) c \<and>
    nop_state m t n s len m' c"
  proof (cases "even s")
    case True
    from disable_sack_loop_aligned_state [OF st True _ _ assms(2-4)] assms(1)
    obtain m1 cur c1 where 1: "disable_sack_loop_aligned m (t + s) len 0 ?c = (m1, cur, c1)"
      "nop_state m t n s cur m1 c1" "even cur" "cur \<le> len" "len < cur + 2" by auto
    from disable_sack_last_state(1) [OF 1(2,3) _ assms(2-4) 1(4,5) True] assms(1)
    obtain m2 c2 where "disable_sack_last_aligned m1 (t + s) len cur c1 = (m2, c2)"
      "nop_state m t n s len m2 c2" by auto
    with 1(1) True show ?thesis
      by (auto simp: tcp_disable_sack_cksum_update_def tcp_cksum_def tcp_set_cksum_def)
  next
    case False
    from disable_sack_loop_unaligned_state [OF st False _ _ assms(2-4)] assms(1)
    obtain m1 cur c1 where 1: "disable_sack_loop_unaligned m (t + s) len 0 ?c = (m1, cur, c1)"
      "nop_state m t n s cur m1 c1" "even cur" "cur \<le> len" "len < cur + 2" by auto
    from disable_sack_last_state(2) [OF 1(2,3) _ assms(2-4) 1(4,5) False] assms(1)
    obtain m2 c2 where "disable_sack_last_unaligned m1 (t + s) len cur c1 = (m2, c2)"
      "nop_state m t n s len m2 c2" by auto
    with 1(1) False show ?thesis
      by (auto simp: tcp_disable_sack_cksum_update_def tcp_cksum_def tcp_set_cksum_def)
  qed
  with that show thesis by blast
qed

lemma tcp_disable_sack_keeps:
  assumes "20 \<le> s" "s + len \<le> h" "even h" "h \<le> n"
  shows "seg_keeps m (tcp_disable_sack_cksum_update m t (t + s) len (even s)) t n"
    "s \<le> i \<Longrightarrow> i < s + len \<Longrightarrow> tcp_disable_sack_cksum_update m t (t + s) len (even s) (t + i) = 1"
    "a \<noteq> t + 16 \<Longrightarrow> a \<noteq> t + 17 \<Longrightarrow> a < t + s \<or> t + s + len \<le> a \<Longrightarrow>
      tcp_disable_sack_cksum_update m t (t + s) len (even s) a = m a"
proof -
  obtain m' c where r: "tcp_disable_sack_cksum_update m t (t + s) len (even s) = hdr_set16n m' (t + 16) c"
    "nop_state m t n s len m' c" using tcp_disable_sack_state [OF assms] .
  show "seg_keeps m (tcp_disable_sack_cksum_update m t (t + s) len (even s)) t n"
    unfolding r(1) using r(2) assms by (intro seg_keeps_finish) (auto simp: nop_state_def)
  show "tcp_disable_sack_cksum_update m t (t + s) len (even s) (t + i) = 1"
    if "s \<le> i" "i < s + len"
    unfolding r(1) using r(2) that assms by (auto simp: nop_state_def hdr_set16n_apply)
  show "tcp_disable_sack_cksum_update m t (t + s) len (even s) a = m a"
    if "a \<noteq> t + 16" "a \<noteq> t + 17" "a < t + s \<or> t + s + len \<le> a"
    unfolding r(1) using r(2) that by (auto simp: nop_state_def hdr_set16n_apply)
qed

section \<open>Shifting the block edges of SACK\<close>

text \<open>
  \<open>adj_state\<close>: the 32-bit values of the option before \<open>cur\<close> have been increased by \<open>adj\<close>, all
  other bytes are as in \<open>m0\<close>.
\<close>

definition adj_state :: "mem \<Rightarrow> ptr \<Rightarrow> nat \<Rightarrow> nat \<Rightarrow> u32 \<Rightarrow> nat \<Rightarrow> mem \<Rightarrow> u16 \<Rightarrow> bool" where
  "adj_state m0 t n s adj cur m c \<longleftrightarrow>
     (\<forall>j. 2 + 4 * j + 4 \<le> cur \<longrightarrow>
       hdr_get32n m (t + s + (2 + 4 * j)) = hdr_get32n m0 (t + s + (2 + 4 * j)) + adj) \<and>
     (\<forall>a. a < t + s + 2 \<or> t + s + cur \<le> a \<longrightarrow> m a = m0 a) \<and>
     (\<forall>P. cks_inv P m0 t n 16 (hdr_get16n m0 (t + 16)) \<longrightarrow> cks_inv P m t n 16 c)"

lemma hdr_get32n_frame:
  "a + 4 \<le> q \<or> q + 4 \<le> a \<Longrightarrow> hdr_get32n (hdr_set32n m q w) a = hdr_get32n m a"
  by (auto simp: hdr_get32n_be hdr_set32n_apply)

lemma hdr_get32n_cong:
  "(\<And>i. i < 4 \<Longrightarrow> m' (q + i) = m (q + i)) \<Longrightarrow> hdr_get32n m' q = hdr_get32n m q"
  by (metis field32.get_local [of m' m q 0] add_0_right mem_agreeI)

lemma adj_state_step:
  assumes st: "adj_state m0 t n s adj cur m c"
    and "even s" "18 \<le> s" "cur = 4 * q + 2" "s + cur + 4 \<le> n"
  defines "v \<equiv> hdr_get32n m (t + s + cur)"
  shows "adj_state m0 t n s adj (cur + 4) (hdr_set32n m (t + s + cur) (v + adj))
    (ucast (ip_update_cksum32 c v (v + adj)))"
  unfolding adj_state_def
proof (intro conjI allI impI)
  let ?m' = "hdr_set32n m (t + s + cur) (v + adj)"
  have v: "v = hdr_get32n m0 (t + s + cur)"
    unfolding v_def using st by (intro hdr_get32n_cong) (simp add: adj_state_def)
  fix j assume j: "2 + 4 * j + 4 \<le> cur + 4"
  show "hdr_get32n ?m' (t + s + (2 + 4 * j)) = hdr_get32n m0 (t + s + (2 + 4 * j)) + adj"
  proof (cases "2 + 4 * j = cur")
    case True
    then show ?thesis using v by simp
  next
    case False
    have "2 + 4 * j + 4 \<le> cur" using j False assms(4) by simp
    then show ?thesis using st by (simp add: hdr_get32n_frame adj_state_def)
  qed
next
  fix a assume "a < t + s + 2 \<or> t + s + (cur + 4) \<le> a"
  then show "hdr_set32n m (t + s + cur) (v + adj) a = m0 a"
    using st assms(4) by (auto simp: adj_state_def hdr_set32n_apply)
next
  let ?m' = "hdr_set32n m (t + s + cur) (v + adj)"
  fix P assume "cks_inv P m0 t n 16 (hdr_get16n m0 (t + 16))"
  then have "cks_inv P m t n 16 c" using st by (simp add: adj_state_def)
  moreover have "even cur" using assms(4) by simp
  ultimately have "cks_inv P ?m' t n 16 (foldl (\<lambda>c j. ip_update_cksum16 c (hdr_get16n m (t + j))
      (hdr_get16n ?m' (t + j))) c [s + cur, s + cur + 2])"
    using assms(2-5) by (intro cks_inv_update_words) (auto simp: hdr_set32n_apply)
  then show "cks_inv P ?m' t n 16 (ucast (ip_update_cksum32 c v (v + adj)))"
    using hdr_get16n_set32n [of m "t + s + cur" "v + adj"] hdr_get32n_halves [of m "t + s + cur"]
    by (simp add: update_cksum32_16 v_def add.assoc del: add_2_eq_Suc add_2_eq_Suc')
qed

lemma adjust_sack_loop_aligned_state:
  assumes "adj_state m0 t n s adj cur m c" "even s" "18 \<le> s" "cur = 8 * b + 2" "s + len \<le> n"
  shows "\<exists>m' c' cur'. adjust_sack_loop_aligned m (t + s) len adj cur c = (m', c') \<and>
    adj_state m0 t n s adj cur' m' c' \<and> (\<exists>b'. cur' = 8 * b' + 2) \<and> len < cur' + 8 \<and> (cur \<le> len \<longrightarrow> cur' \<le> len)"
  using assms
proof (induction "len - cur" arbitrary: cur b m c rule: less_induct)
  case less
  show ?case
  proof (cases "cur + 8 \<le> len")
    case True
    define v where "v = hdr_get32n m (t + s + cur)"
    define m1 where "m1 = hdr_set32n m (t + s + cur) (v + adj)"
    define c1 :: u16 where "c1 = ucast (ip_update_cksum32 c v (v + adj))"
    define w where "w = hdr_get32n m1 (t + s + (cur + 4))"
    define m2 where "m2 = hdr_set32n m1 (t + s + (cur + 4)) (w + adj)"
    define c2 :: u16 where "c2 = ucast (ip_update_cksum32 c1 w (w + adj))"
    have q: "cur = 4 * (2 * b) + 2" "cur + 4 = 4 * (2 * b + 1) + 2" "cur + 8 = 8 * (b + 1) + 2"
      using less.prems(4) by simp_all
    have "adj_state m0 t n s adj (cur + 4) m1 c1"
      unfolding m1_def c1_def v_def using less.prems True by (intro adj_state_step [OF _ _ _ q(1)]) auto
    then have "adj_state m0 t n s adj (cur + 8) m2 c2"
      using adj_state_step [OF _ _ _ q(2), of m0 t n s adj m1 c1] less.prems True
      by (simp add: m2_def c2_def w_def add.commute [of 8 cur])
    then have "\<exists>m' c' cur'. adjust_sack_loop_aligned m2 (t + s) len adj (cur + 8) c2 = (m', c') \<and>
        adj_state m0 t n s adj cur' m' c' \<and> (\<exists>b'. cur' = 8 * b' + 2) \<and> len < cur' + 8 \<and>
        (cur + 8 \<le> len \<longrightarrow> cur' \<le> len)"
      using less.prems True by (intro less.hyps [OF _ _ _ _ q(3)]) auto
    moreover have "w = hdr_get32n m (t + s + (cur + 4))"
      by (simp add: w_def m1_def hdr_get32n_frame)
    ultimately show ?thesis
      using True by (subst adjust_sack_loop_aligned.simps)
        (auto simp: Let_def v_def m1_def c1_def m2_def c2_def add.assoc)
  next
    case False
    then show ?thesis using less.prems by (subst adjust_sack_loop_aligned.simps) auto
  qed
qed

text \<open>At an odd offset the loop does not advance.\<close>

lemma adjust_sack_loop_unaligned_Some:
  assumes "adjust_sack_loop_unaligned m chdr len adj cur c = Some r"
  shows "len < cur + 8"
  by (rule adjust_sack_loop_unaligned.raw_induct
      [where P = "\<lambda>m chdr len adj cur c r. len < cur + 8", OF _ assms])
    (auto simp: Let_def split: if_splits)

lemma tcp_adjust_sack_aligned:
  assumes "20 \<le> s" "even s" "s + len \<le> n" "len mod 8 = 2"
  shows "\<exists>m'. tcp_adjust_sack_cksum_update m t (t + s) len True adj = Some m' \<and> seg_keeps m m' t n \<and>
    (\<forall>j. 2 + 4 * j + 4 \<le> len \<longrightarrow>
      hdr_get32n m' (t + s + (2 + 4 * j)) = hdr_get32n m (t + s + (2 + 4 * j)) + adj)"
proof -
  let ?c = "hdr_get16n m (t + 16)"
  define B where "B = len div 8"
  have len: "len = 8 * B + 2" using mult_div_mod_eq [of 8 len] assms(4) by (simp add: B_def)
  have "adj_state m t n s adj 2 m ?c" by (auto simp: adj_state_def)
  from adjust_sack_loop_aligned_state [OF this assms(2) _ _ assms(3), of 0] assms(1) len
  obtain m1 c1 b where 1: "adjust_sack_loop_aligned m (t + s) len adj 2 ?c = (m1, c1)"
    "adj_state m t n s adj (8 * b + 2) m1 c1" "len < 8 * b + 2 + 8" "8 * b + 2 \<le> len" by auto
  have "8 * b + 2 = len" using 1(3,4) len by simp
  with 1(2) have st: "adj_state m t n s adj len m1 c1" by simp
  have r: "tcp_adjust_sack_cksum_update m t (t + s) len True adj = Some (hdr_set16n m1 (t + 16) c1)"
    using 1(1) by (simp add: tcp_adjust_sack_cksum_update_def tcp_cksum_def tcp_set_cksum_def)
  moreover have "seg_keeps m (hdr_set16n m1 (t + 16) c1) t n"
    using st assms by (intro seg_keeps_finish) (auto simp: adj_state_def)
  moreover have "hdr_get32n (hdr_set16n m1 (t + 16) c1) (t + s + (2 + 4 * j)) =
      hdr_get32n m1 (t + s + (2 + 4 * j))" for j
    using assms(1) by (intro hdr_get32n_cong) (simp add: hdr_set16n_apply)
  ultimately show ?thesis using st by (auto simp: adj_state_def)
qed

section \<open>From segments to the checksum functions\<close>

lemma tcp_verifies_keep:
  assumes "seg_keeps m r tcp (unat len)" "ip + 20 \<le> tcp" "tcp_cksum_calc m ip iplen tcp len = Some 0"
  shows "tcp_cksum_calc r ip iplen tcp len = Some 0"
proof -
  have "pseudo_hdr4 r ip 6 len = pseudo_hdr4 m ip 6 len"
    using assms(1,2) by (auto simp: pseudo_hdr4_def mem_bytes_def seg_keeps_def)
  moreover have "be_sum (pseudo_hdr4 m ip 6 len) \<noteq> 0" by (simp add: be_sum_pseudo_hdr4)
  ultimately show ?thesis
    using assms(1,3)
    by (auto simp: tcp_cksum_calc_rfc1071 rfc1071_0_iff be_sum_append seg_keeps_def split: if_splits)
qed

lemma udp_verifies_keep:
  assumes "seg_keeps m r udp (unat len)" "ip + 20 \<le> udp" "udp_cksum_calc m ip iplen udp len = Some 0"
  shows "udp_cksum_calc r ip iplen udp len = Some 0"
proof -
  have "pseudo_hdr4 r ip 17 len = pseudo_hdr4 m ip 17 len"
    using assms(1,2) by (auto simp: pseudo_hdr4_def mem_bytes_def seg_keeps_def)
  moreover have "be_sum (pseudo_hdr4 m ip 17 len) \<noteq> 0" by (simp add: be_sum_pseudo_hdr4)
  ultimately show ?thesis
    using assms(1,3)
    by (auto simp: udp_cksum_calc_rfc1071 rfc1071_0_iff be_sum_append seg_keeps_def split: if_splits)
qed

lemma tcp6_verifies_keep:
  assumes "seg_keeps m r tcp (unat len)" "ip + 40 \<le> tcp" "tcp6_cksum_calc m ip iplen tcp len = Some 0"
  shows "tcp6_cksum_calc r ip iplen tcp len = Some 0"
proof -
  have "pseudo_hdr6 r ip 6 len = pseudo_hdr6 m ip 6 len"
    using assms(1,2) by (auto simp: pseudo_hdr6_def mem_bytes_def seg_keeps_def)
  moreover have "be_sum (pseudo_hdr6 m ip 6 len) \<noteq> 0" by (simp add: be_sum_pseudo_hdr6)
  ultimately show ?thesis
    using assms(1,3)
    by (auto simp: tcp6_cksum_calc_rfc1071 rfc1071_0_iff be_sum_append seg_keeps_def split: if_splits)
qed

lemma udp6_verifies_keep:
  assumes "seg_keeps m r udp (unat len)" "ip + 40 \<le> udp" "udp6_cksum_calc m ip iplen udp len = Some 0"
  shows "udp6_cksum_calc r ip iplen udp len = Some 0"
proof -
  have "pseudo_hdr6 r ip 17 len = pseudo_hdr6 m ip 17 len"
    using assms(1,2) by (auto simp: pseudo_hdr6_def mem_bytes_def seg_keeps_def)
  moreover have "be_sum (pseudo_hdr6 m ip 17 len) \<noteq> 0" by (simp add: be_sum_pseudo_hdr6)
  ultimately show ?thesis
    using assms(1,3)
    by (auto simp: udp6_cksum_calc_rfc1071 rfc1071_0_iff be_sum_append seg_keeps_def split: if_splits)
qed

text \<open>
  The IPv4 header: its first word holds the header length, hence is not zero, and plays the
  part of the pseudo-header.
\<close>

lemma ip_verifies_iff:
  assumes "20 \<le> unat (ip_hdr_len m ip)"
  shows "ip_hdr_cksum_calc m ip iplen = Some 0 \<longleftrightarrow>
    unat (ip_hdr_len m ip) \<le> unat iplen \<and> hdr_get16n m ip \<noteq> 0 \<and>
    valid_sum (unat (hdr_get16n m ip) + be_sum (mem_bytes m (ip + 2) (unat (ip_hdr_len m ip) - 2)))"
proof -
  have "hdr_get16n m ip \<noteq> 0"
  proof
    assume "hdr_get16n m ip = 0"
    then have "unat (m ip) = 0" using unat_mk16 [of "m ip" "m (ip + 1)"] by (simp add: hdr_get16n_be)
    then have "m ip = 0" by (simp add: unsigned_eq_0_iff)
    then show False using assms by (simp add: ip_hdr_len_def hdr_byte_simps)
  qed
  then show ?thesis
    using assms by (auto simp: ip_hdr_cksum_calc_rfc1071 rfc1071_0_iff be_sum_step)
qed

lemma ip_verifies_keep:
  assumes "seg_keeps m r (ip + 2) (unat (ip_hdr_len m ip) - 2)" "20 \<le> unat (ip_hdr_len m ip)"
    and "ip_hdr_cksum_calc m ip iplen = Some 0"
  shows "ip_hdr_cksum_calc r ip iplen = Some 0"
proof -
  have eq: "hdr_get16n r ip = hdr_get16n m ip" "ip_hdr_len r ip = ip_hdr_len m ip"
    using assms(1) by (simp_all add: seg_keeps_def hdr_get16n_be ip_hdr_len_def hdr_byte_simps)
  have "unat (hdr_get16n m ip) \<noteq> 0"
    using assms(2,3) by (simp add: ip_verifies_iff unsigned_eq_0_iff)
  with assms show ?thesis
    using ip_verifies_iff [of r ip iplen] ip_verifies_iff [of m ip iplen]
    by (auto simp: eq seg_keeps_def)
qed

lemma ip_verifies_cong:
  assumes "mem_agree m r ip (unat (ip_hdr_len m ip))" "20 \<le> unat (ip_hdr_len m ip)"
  shows "ip_hdr_cksum_calc r ip iplen = ip_hdr_cksum_calc m ip iplen"
proof -
  have "r ip = m ip" using mem_agreeD [OF assms(1), of 0] assms(2) by simp
  then have "ip_hdr_len r ip = ip_hdr_len m ip" by (simp add: ip_hdr_len_def hdr_byte_simps)
  with mem_bytes_cong [OF assms(1)] show ?thesis by (simp add: ip_hdr_cksum_calc_rfc1071)
qed

end
