(* ===== verification/CksumProps.thy ===== *)
theory CksumProps
  imports CksumSack
begin

text \<open>
  The properties of the incremental updates, stated with the functions that verify a
  checksum: every update maps verifying packets to verifying packets and stores the new value.
\<close>

section \<open>Rewriting an address\<close>

lemma valid_update32:
  assumes "valid_sum (R + unat c)"
    and "R' + (unat (ucast (drop_bit 16 ov) :: u16) + unat (ucast ov :: u16)) =
      R + (unat (ucast (drop_bit 16 nv) :: u16) + unat (ucast nv :: u16))"
    and "unat (ucast (drop_bit 16 ov) :: u16) + unat (ucast ov :: u16) < R"
  shows "valid_sum (R' + unat (ucast (ip_update_cksum32 c ov nv) :: u16))"
proof -
  let ?oh = "ucast (drop_bit 16 ov) :: u16" and ?nh = "ucast (drop_bit 16 nv) :: u16"
  define R1 where "R1 = R - unat ?oh + unat ?nh"
  have "R1 + unat ?oh = R + unat ?nh" "R1 \<noteq> 0" using assms(3) by (simp_all add: R1_def)
  with assms(1) have "valid_sum (R1 + unat (ip_update_cksum16 c ?oh ?nh))" by (rule valid_update16)
  then have "valid_sum (R' + unat (ip_update_cksum16 (ip_update_cksum16 c ?oh ?nh) (ucast ov) (ucast nv)))"
    by (rule valid_update16) (use assms(2,3) in \<open>auto simp: R1_def\<close>)
  then show ?thesis by (simp only: update_cksum32_16)
qed

text \<open>The pseudo-header after an address at offset \<open>12\<close> or \<open>16\<close> changed.\<close>

lemma be_sum_pseudo_hdr4_addr:
  assumes "off = 12 \<or> off = 16"
  shows "be_sum (pseudo_hdr4 (hdr_set32n m (ip + off) a) ip proto len) +
      (unat (hdr_get16n m (ip + off)) + unat (hdr_get16n m (ip + off + 2))) =
    be_sum (pseudo_hdr4 m ip proto len) +
      (unat (ucast (drop_bit 16 a) :: u16) + unat (ucast a :: u16))"
  using assms hdr_get16n_set32n [of m "ip + 12" a] hdr_get16n_set32n [of m "ip + 16" a]
  by (auto simp: be_sum_pseudo_hdr4 hdr_get16n_frame add.assoc simp del: add_2_eq_Suc add_2_eq_Suc')

lemma be_sum_pseudo_hdr4_gt:
  assumes "off = 12 \<or> off = 16" "proto \<noteq> 0"
  shows "unat (hdr_get16n m (ip + off)) + unat (hdr_get16n m (ip + off + 2)) <
    be_sum (pseudo_hdr4 m ip proto len)"
proof -
  have "0 < unat proto" using assms(2) by (simp add: unsigned_eq_0_iff flip: neq0_conv)
  with assms(1) show ?thesis
    by (auto simp: be_sum_pseudo_hdr4 add.assoc simp del: add_2_eq_Suc add_2_eq_Suc')
qed

text \<open>
  The common shape of the two address updates: the IP checksum, the checksum of the payload
  at offset \<open>k\<close>, and the address.
\<close>

definition addr_update :: "nat \<Rightarrow> nat \<Rightarrow> mem \<Rightarrow> ptr \<Rightarrow> ptr \<Rightarrow> u32 \<Rightarrow> mem" where
  "addr_update off k m ip pay a =
     hdr_set16n (hdr_set32n (hdr_set16n m (ip + 10)
       (ucast (ip_update_cksum32 (hdr_get16n m (ip + 10)) (hdr_get32n m (ip + off)) a))) (ip + off) a)
       (pay + k) (ucast (ip_update_cksum32 (hdr_get16n m (pay + k)) (hdr_get32n m (ip + off)) a))"

lemma addr_update_l4:
  assumes off: "off = 12 \<or> off = 16" and "ip + 20 \<le> pay" "even k" "k + 2 \<le> n" "proto \<noteq> 0"
    and v: "valid_sum (be_sum (pseudo_hdr4 m ip proto len @ mem_bytes m pay n))"
  shows "valid_sum (be_sum (pseudo_hdr4 (addr_update off k m ip pay a) ip proto len @
    mem_bytes (addr_update off k m ip pay a) pay n))"
proof -
  let ?r = "addr_update off k m ip pay a" and ?c = "hdr_get16n m (pay + k)"
  let ?c' = "ucast (ip_update_cksum32 ?c (hdr_get32n m (ip + off)) a) :: u16"
  define P where "P = be_sum (pseudo_hdr4 m ip proto len)"
  define P' where "P' = be_sum (pseudo_hdr4 (hdr_set32n m (ip + off) a) ip proto len)"
  have "pseudo_hdr4 ?r ip proto len = pseudo_hdr4 (hdr_set32n m (ip + off) a) ip proto len"
    using assms(1-4)
    by (auto simp: pseudo_hdr4_def mem_bytes_def addr_update_def hdr_set16n_apply hdr_set32n_apply)
  moreover have "mem_bytes ?r pay n = mem_bytes (hdr_set16n m (pay + k) ?c') pay n"
    using assms(1,2)
    by (auto simp: mem_bytes_def addr_update_def hdr_set16n_apply hdr_set32n_apply)
  moreover have "be_sum (mem_bytes (hdr_set16n m (pay + k) ?c') pay n) = rest_sum m pay n k + unat ?c'"
    using be_sum_rest [OF assms(3,4), of "hdr_set16n m (pay + k) ?c'" pay]
      rest_sum_cong [of n k "hdr_set16n m (pay + k) ?c'" pay m] by (simp add: hdr_set16n_apply)
  moreover have "valid_sum (P' + rest_sum m pay n k + unat ?c')"
  proof (rule valid_update32)
    show "valid_sum (P + rest_sum m pay n k + unat ?c)"
      using v be_sum_rest [OF assms(3,4), of m pay] by (simp add: P_def be_sum_append add.assoc)
  qed (use be_sum_pseudo_hdr4_addr [OF off, of m ip a proto len]
      be_sum_pseudo_hdr4_gt [OF off assms(5), of m ip len]
      in \<open>simp_all add: P_def P'_def hdr_get32n_halves\<close>)
  ultimately show ?thesis by (simp add: be_sum_append P'_def add.assoc)
qed

lemma addr_only_verifies:
  assumes "off = 12 \<or> off = 16" "20 \<le> unat (ip_hdr_len m ip)" "ip_hdr_cksum_calc m ip iplen = Some 0"
  shows "ip_hdr_cksum_calc (hdr_set32n (hdr_set16n m (ip + 10)
    (ucast (ip_update_cksum32 (hdr_get16n m (ip + 10)) (hdr_get32n m (ip + off)) a))) (ip + off) a) ip iplen = Some 0"
proof -
  have e: "ip + 2 + 8 = ip + 10" "ip + 2 + (off - 2) = ip + off" using assms(1) by auto
  have "seg_keeps m (hdr_set32n (hdr_set16n m (ip + 10) (ucast (ip_update_cksum32
      (hdr_get16n m (ip + 10)) (hdr_get32n m (ip + off)) a))) (ip + off) a)
      (ip + 2) (unat (ip_hdr_len m ip) - 2)"
    unfolding e [symmetric] by (rule seg_keeps_field32) (use assms(1,2) in auto)
  then show ?thesis using assms(2,3) by (rule ip_verifies_keep)
qed

lemma ip_verifies_outside:
  assumes "ip + unat (ip_hdr_len m ip) \<le> q" "20 \<le> unat (ip_hdr_len m ip)"
  shows "ip_hdr_cksum_calc (hdr_set16n m q c) ip iplen = ip_hdr_cksum_calc m ip iplen"
  using assms by (intro ip_verifies_cong) (auto simp: mem_agree_def hdr_set16n_apply)

lemma addr_update_verifies:
  assumes "off = 12 \<or> off = 16" "20 \<le> unat (ip_hdr_len m ip)" "ip_hdr_cksum_calc m ip iplen = Some 0"
    and "ip + unat (ip_hdr_len m ip) \<le> pay"
  shows "ip_hdr_cksum_calc (addr_update off k m ip pay a) ip iplen = Some 0"
proof -
  have "ip_hdr_len (hdr_set32n (hdr_set16n m (ip + 10) v) (ip + off) a) ip = ip_hdr_len m ip" for v
    using assms(1) by (auto simp: ip_hdr_len_def hdr_byte_simps hdr_set16n_apply hdr_set32n_apply)
  with addr_only_verifies [OF assms(1-3), of a] assms(2,4) show ?thesis
    by (simp add: addr_update_def ip_verifies_outside)
qed

lemma addr_update_get:
  assumes "off = 12 \<or> off = 16" "ip + 20 \<le> pay"
  shows "hdr_get32n (addr_update off k m ip pay a) (ip + off) = a"
proof -
  have "hdr_get32n (addr_update off k m ip pay a) (ip + off) =
      hdr_get32n (hdr_set32n (hdr_set16n m (ip + 10) (ucast (ip_update_cksum32
        (hdr_get16n m (ip + 10)) (hdr_get32n m (ip + off)) a))) (ip + off) a) (ip + off)"
    using assms by (intro hdr_get32n_cong) (auto simp: addr_update_def hdr_set16n_apply)
  then show ?thesis by simp
qed

lemma set_addr_cksum_update_eq:
  assumes "ip + 20 \<le> pay"
  shows "ip_set_src_cksum_update m ip iplen 6 pay paylen a = addr_update 12 16 m ip pay a"
    "ip_set_dst_cksum_update m ip iplen 6 pay paylen a = addr_update 16 16 m ip pay a"
    "udp_cksum m pay \<noteq> 0 \<Longrightarrow>
       ip_set_src_cksum_update m ip iplen 17 pay paylen a = addr_update 12 6 m ip pay a"
    "udp_cksum m pay \<noteq> 0 \<Longrightarrow>
       ip_set_dst_cksum_update m ip iplen 17 pay paylen a = addr_update 16 6 m ip pay a"
  using assms
  by (simp_all add: ip_set_src_cksum_update_def ip_set_dst_cksum_update_def addr_update_def seg_defs
      ip_src_def ip_dst_def ip_set_src_def ip_set_dst_def ip_hdr_cksum_def ip_set_hdr_cksum_def
      hdr_get16n_frame hdr_set16n_commute)

section \<open>Properties\<close>

text \<open>
  C7: Rewriting the source address (\<open>src\<close>) or the destination address of a verifying IPv4
  header with a TCP or a checksummed UDP payload stores the address, and both the header and
  the payload verify afterwards, the pseudo-header included.
\<close>

theorem ip_set_addr_cksum_update_verifies:
  fixes src tcp :: bool and a :: u32 and paylen :: u16
  assumes "20 \<le> unat (ip_hdr_len m ip)" "ip + unat (ip_hdr_len m ip) \<le> pay"
    and "ip_hdr_cksum_calc m ip iplen = Some 0"
    and "if tcp then 20 \<le> unat len \<and> tcp_cksum_calc m ip iplen pay len = Some 0
      else 8 \<le> unat len \<and> udp_cksum m pay \<noteq> 0 \<and> udp_cksum_calc m ip iplen pay len = Some 0"
  defines "r \<equiv> (if src then ip_set_src_cksum_update else ip_set_dst_cksum_update)
      m ip iplen (if tcp then 6 else 17) pay paylen a"
  shows "ip_hdr_cksum_calc r ip iplen = Some 0 \<and>
    (if tcp then tcp_cksum_calc else udp_cksum_calc) r ip iplen pay len = Some 0 \<and>
    (if src then ip_src r ip else ip_dst r ip) = a"
proof -
  define off where "off = (if src then 12 else 16 :: nat)"
  define k where "k = (if tcp then 16 else 6 :: nat)"
  have le: "ip + 20 \<le> pay" and off: "off = 12 \<or> off = 16" using assms(1,2) by (auto simp: off_def)
  have r: "r = addr_update off k m ip pay a"
    using assms(4) le by (auto simp: r_def off_def k_def set_addr_cksum_update_eq)
  have "ip_hdr_cksum_calc r ip iplen = Some 0"
    unfolding r by (rule addr_update_verifies [OF off assms(1,3,2)])
  moreover have "(if src then ip_src r ip else ip_dst r ip) = a"
    using addr_update_get [OF off le, of k m a]
    by (simp add: r ip_src_def ip_dst_def off_def split: if_splits)
  moreover have "(if tcp then tcp_cksum_calc else udp_cksum_calc) r ip iplen pay len = Some 0"
    using addr_update_l4 [OF off le, of k "unat len" "if tcp then 6 else 17" m len a] assms(4)
    by (auto simp: r k_def tcp_cksum_calc_rfc1071 udp_cksum_calc_rfc1071 rfc1071_0_iff split: if_splits)
  ultimately show ?thesis by blast
qed

text \<open>
  A datagram for the witnesses: an IPv4 header with TTL 64 and a TCP segment of 20 bytes, both
  with correct checksums.
\<close>

definition sample_tcp :: mem where
  "sample_tcp = (\<lambda>_. 0)(0 := 0x45, 3 := 40, 8 := 64, 9 := 6, 10 := 0x7A, 11 := 0xD1,
     32 := 0x50, 36 := 0xAF, 37 := 0xE5)"

lemma sample_tcp_bytes:
  "mem_bytes sample_tcp 0 20 = [0x45, 0, 0, 40, 0, 0, 0, 0, 64, 6, 0x7A, 0xD1, 0, 0, 0, 0, 0, 0, 0, 0]"
  "mem_bytes sample_tcp 12 8 = [0, 0, 0, 0, 0, 0, 0, 0]"
  "mem_bytes sample_tcp 20 20 = [0, 0, 0, 0, 0, 0, 0, 0, 0, 0, 0, 0, 0x50, 0, 0, 0, 0xAF, 0xE5, 0, 0]"
  by (simp_all add: mem_bytes_def upt_rec sample_tcp_def)

lemma sample_tcp_ok:
  "unat (ip_hdr_len sample_tcp 0) = 20" "ip_hdr_cksum_calc sample_tcp 0 20 = Some 0"
  "tcp_cksum_calc sample_tcp 0 20 20 20 = Some 0" "ip_ttl sample_tcp 0 = 64"
proof -
  show 1: "unat (ip_hdr_len sample_tcp 0) = 20" "ip_ttl sample_tcp 0 = 64"
    by (simp_all add: sample_tcp_def ip_hdr_len_def ip_ttl_def hdr_byte_simps)
  show "ip_hdr_cksum_calc sample_tcp 0 20 = Some 0"
    by (simp add: ip_hdr_cksum_calc_rfc1071 1 rfc1071_0_iff sample_tcp_bytes valid_sum_def)
  show "tcp_cksum_calc sample_tcp 0 20 20 20 = Some 0"
    by (simp add: tcp_cksum_calc_rfc1071 rfc1071_0_iff sample_tcp_bytes pseudo_hdr4_def nth_byte_def
        valid_sum_def)
qed

theorem ip_set_addr_cksum_update_verifies_witness:
  "ip_hdr_cksum_calc (ip_set_src_cksum_update sample_tcp 0 20 6 20 20 0x0A000001) 0 20 = Some 0 \<and>
   tcp_cksum_calc (ip_set_src_cksum_update sample_tcp 0 20 6 20 20 0x0A000001) 0 20 20 20 = Some 0 \<and>
   ip_src (ip_set_src_cksum_update sample_tcp 0 20 6 20 20 0x0A000001) 0 = 0x0A000001"
  using ip_set_addr_cksum_update_verifies [where src = True and tcp = True and m = sample_tcp and
    ip = 0 and pay = 20 and iplen = 20 and len = 20 and paylen = 20 and a = "0x0A000001"]
  by (simp add: sample_tcp_ok)

text \<open>
  C16: Decrementing the TTL of a verifying header aborts exactly on TTL 0; otherwise the TTL is
  one less, the result says whether it is still positive, no byte but the TTL and the checksum
  changes, and the header verifies.
\<close>

theorem ip_decr_ttl_cksum_update_verifies:
  assumes "20 \<le> unat (ip_hdr_len m ip)" "ip_hdr_cksum_calc m ip iplen = Some 0"
  shows "if ip_ttl m ip = 0 then ip_decr_ttl_cksum_update m ip = None
    else \<exists>r. ip_decr_ttl_cksum_update m ip = Some (r, 1 < unat (ip_ttl m ip)) \<and>
      ip_hdr_cksum_calc r ip iplen = Some 0 \<and> ip_ttl r ip = ip_ttl m ip - 1 \<and>
      (\<forall>a. a = ip + 8 \<or> a = ip + 10 \<or> a = ip + 11 \<or> r a = m a)"
proof (cases "ip_ttl m ip = 0")
  case True
  then show ?thesis by (simp add: ip_decr_ttl_cksum_update_def)
next
  case False
  define t where "t = ip_ttl m ip"
  define c where "c = ip_update_cksum16 (hdr_get16n m (ip + 10)) (mk16 t (m (ip + 9))) (mk16 (t - 1) (m (ip + 9)))"
  define r where "r = (hdr_set16n m (ip + 10) c)(ip + 8 := t - 1)"
  have t: "unat (t - 1) = unat t - 1" using False by (simp add: t_def unat_minus_one)
  then have res: "ip_decr_ttl_cksum_update m ip = Some (r, 1 < unat (ip_ttl m ip))"
    using False
    by (simp add: ip_decr_ttl_cksum_update_def Let_def ip_hdr_cksum_def ip_set_hdr_cksum_def ip_proto_def
        ip_set_ttl_def hdr_byte_simps r_def c_def mk16_def word_less_nat_alt t_def [symmetric])
  have e: "ip + 2 + 8 = ip + 10" "ip + 2 + 6 = ip + 8" by simp_all
  have m8: "m (ip + 8) = t" by (simp add: t_def ip_ttl_def hdr_byte_simps)
  have "seg_keeps m r (ip + 2) (unat (ip_hdr_len m ip) - 2)"
    by (rule seg_keepsI [of 8 _ "[6]"])
      (use assms(1) m8 in \<open>auto simp: e r_def hdr_set16n_apply hdr_get16n_be c_def add.commute\<close>)
  then have "ip_hdr_cksum_calc r ip iplen = Some 0" using assms by (rule ip_verifies_keep)
  moreover have "ip_ttl r ip = ip_ttl m ip - 1" by (simp add: r_def t_def ip_ttl_def hdr_byte_simps)
  moreover have "\<forall>a. a = ip + 8 \<or> a = ip + 10 \<or> a = ip + 11 \<or> r a = m a"
    by (auto simp: r_def hdr_set16n_apply)
  ultimately show ?thesis using res False by auto
qed

theorem ip_decr_ttl_cksum_update_verifies_witness:
  "\<exists>r. ip_decr_ttl_cksum_update sample_tcp 0 = Some (r, True) \<and> ip_hdr_cksum_calc r 0 20 = Some 0 \<and>
     ip_ttl r 0 = 63"
  using ip_decr_ttl_cksum_update_verifies [of sample_tcp 0 20] by (auto simp: sample_tcp_ok)

text \<open>
  C20: Changing a port, the sequence or acknowledgement number, the window or the ACK flag of a
  TCP segment with the updating functions keeps a verifying segment verifying, over IPv4 and
  over IPv6.
\<close>

theorem tcp_header_updates_verify:
  fixes sv :: u16 and lv :: u32
  assumes "20 \<le> unat len"
    and "r \<in> {tcp_set_src_port_cksum_update m tcp len sv, tcp_set_dst_port_cksum_update m tcp len sv,
      tcp_set_seq_number_cksum_update m tcp len lv, tcp_set_ack_number_cksum_update m tcp len lv,
      tcp_set_window_cksum_update m tcp len sv, tcp_set_ack_off_cksum_update m tcp}"
    and "if six then ip + 40 \<le> tcp \<and> tcp6_cksum_calc m ip iplen tcp len = Some 0
      else ip + 20 \<le> tcp \<and> tcp_cksum_calc m ip iplen tcp len = Some 0"
  shows "(if six then tcp6_cksum_calc else tcp_cksum_calc) r ip iplen tcp len = Some 0"
proof -
  have "seg_keeps m r tcp (unat len)"
    using assms(2) tcp_updates_keep [OF assms(1), of m tcp len] tcp_ack_off_keeps [OF assms(1), of m tcp]
    by (elim insertE emptyE) simp_all
  then show ?thesis
    using assms(3) by (auto intro: tcp_verifies_keep tcp6_verifies_keep split: if_splits)
qed

theorem tcp_header_updates_verify_witness:
  "tcp_cksum_calc (tcp_set_src_port_cksum_update sample_tcp 20 20 443) 0 20 20 20 = Some 0"
  using tcp_header_updates_verify [where six = False and len = 20 and m = sample_tcp and tcp = 20 and
    sv = 443 and ip = 0 and iplen = 20 and
    r = "tcp_set_src_port_cksum_update sample_tcp 20 20 443"]
  by (simp add: sample_tcp_ok)

text \<open>
  Each of these functions stores the value it is given, and clearing the ACK flag leaves
  the other flags alone.
\<close>

theorem tcp_header_updates_store:
  "tcp_src_port (tcp_set_src_port_cksum_update m tcp len sv) tcp = sv \<and>
   tcp_dst_port (tcp_set_dst_port_cksum_update m tcp len sv) tcp = sv \<and>
   tcp_seq_number (tcp_set_seq_number_cksum_update m tcp len lv) tcp = lv \<and>
   tcp_ack_number (tcp_set_ack_number_cksum_update m tcp len lv) tcp = lv \<and>
   tcp_window (tcp_set_window_cksum_update m tcp len sv) tcp = sv \<and>
   \<not> tcp_ack (tcp_set_ack_off_cksum_update m tcp) tcp \<and>
   tcp_syn (tcp_set_ack_off_cksum_update m tcp) tcp = tcp_syn m tcp \<and>
   tcp_fin (tcp_set_ack_off_cksum_update m tcp) tcp = tcp_fin m tcp \<and>
   tcp_rst (tcp_set_ack_off_cksum_update m tcp) tcp = tcp_rst m tcp"
proof -
  have "tcp_set_ack_off_cksum_update m tcp =
      tcp_set_cksum (tcp_set_ack_off m tcp) tcp (tcp_cksum (tcp_set_ack_off_cksum_update m tcp) tcp)"
    by (simp add: tcp_set_ack_off_cksum_update_def tcp_set_ack_off_def Let_def tcp_cksum_f.get_set)
  moreover have "f (tcp_set_cksum m' tcp c) tcp = f m' tcp"
    if "f = tcp_ack \<or> f = tcp_syn \<or> f = tcp_fin \<or> f = tcp_rst" for f m' c
    using that by (auto simp: field_defs hdr_simps)
  ultimately have "\<not> tcp_ack (tcp_set_ack_off_cksum_update m tcp) tcp \<and>
     tcp_syn (tcp_set_ack_off_cksum_update m tcp) tcp = tcp_syn m tcp \<and>
     tcp_fin (tcp_set_ack_off_cksum_update m tcp) tcp = tcp_fin m tcp \<and>
     tcp_rst (tcp_set_ack_off_cksum_update m tcp) tcp = tcp_rst m tcp"
    by (metis tcp_flags_ack_off)
  then show ?thesis
    by (simp add: seg_defs tcp_set_src_port_cksum_update_def tcp_set_dst_port_cksum_update_def
      tcp_set_seq_number_cksum_update_def tcp_set_ack_number_cksum_update_def
      tcp_set_window_cksum_update_def)
qed

text \<open>
  Rewriting the MSS option, or shifting the value or the echo of the timestamp option, keeps
  a verifying TCP segment verifying at even and at odd option offsets, and stores the new value.
  The option lies behind the fixed header and inside the header that the data offset delimits.
\<close>

theorem tcp_option_updates_verify:
  fixes opts :: tcp_information and hdrs :: sack_ts_headers and v :: u16 and adj :: u32
  assumes "unat (tcp_data_offset m tcp) \<le> unat len" "ip + 20 \<le> tcp"
    and "tcp_cksum_calc m ip iplen tcp len = Some 0"
    and "20 \<le> unat (mssoff opts)" "unat (mssoff opts) + 4 \<le> unat (tcp_data_offset m tcp)"
    and "20 \<le> unat (tsoff hdrs)" "unat (tsoff hdrs) + 10 \<le> unat (tcp_data_offset m tcp)"
  shows "tcp_cksum_calc (tcp_set_mss_cksum_update m tcp opts v) ip iplen tcp len = Some 0 \<and>
    hdr_get16n (tcp_set_mss_cksum_update m tcp opts v) (tcp + (unat (mssoff opts) + 2)) = v \<and>
    tcp_cksum_calc (tcp_adjust_tsval_cksum_update m tcp hdrs adj) ip iplen tcp len = Some 0 \<and>
    tcp_tsval (tcp_adjust_tsval_cksum_update m tcp hdrs adj) tcp hdrs =
      map_option (\<lambda>t. t + adj) (tcp_tsval m tcp hdrs) \<and>
    tcp_cksum_calc (tcp_adjust_tsecho_cksum_update m tcp hdrs adj) ip iplen tcp len = Some 0 \<and>
    tcp_tsecho (tcp_adjust_tsecho_cksum_update m tcp hdrs adj) tcp hdrs =
      map_option (\<lambda>t. t + adj) (tcp_tsecho m tcp hdrs)"
proof -
  have h: "even (unat (tcp_data_offset m tcp))"
    by (simp add: tcp_data_offset_def unat_word_ariths dvd_mod)
  note keep = tcp_verifies_keep [OF _ assms(2,3)]
  have "tcp_cksum_calc (tcp_set_mss_cksum_update m tcp opts v) ip iplen tcp len = Some 0"
    "tcp_cksum_calc (tcp_adjust_tsval_cksum_update m tcp hdrs adj) ip iplen tcp len = Some 0"
    "tcp_cksum_calc (tcp_adjust_tsecho_cksum_update m tcp hdrs adj) ip iplen tcp len = Some 0"
    using assms h by (auto intro!: keep tcp_set_mss_keeps tcp_adjust_ts_keeps)
  moreover have "hdr_get16n (tcp_set_mss_cksum_update m tcp opts v) (tcp + (unat (mssoff opts) + 2)) = v"
    using assms(4) by (simp add: tcp_set_mss_cksum_update_def seg_defs hdr_get16n_frame)
  moreover have "hdr_get32n (hdr_set16n m' (tcp + 16) c) (tcp + (unat (tsoff hdrs) + k)) =
      hdr_get32n m' (tcp + (unat (tsoff hdrs) + k))" for m' c k
    using assms(6) by (intro hdr_get32n_cong) (simp add: hdr_set16n_apply)
  then have "tcp_tsval (tcp_adjust_tsval_cksum_update m tcp hdrs adj) tcp hdrs =
      map_option (\<lambda>t. t + adj) (tcp_tsval m tcp hdrs)"
    "tcp_tsecho (tcp_adjust_tsecho_cksum_update m tcp hdrs adj) tcp hdrs =
      map_option (\<lambda>t. t + adj) (tcp_tsecho m tcp hdrs)"
    using assms(6)
    by (auto simp: tcp_adjust_tsval_cksum_update_def tcp_adjust_tsecho_cksum_update_def seg_defs
        tcp_tsval_def tcp_tsecho_def simp del: add_2_eq_Suc add_2_eq_Suc')
  ultimately show ?thesis by blast
qed

text \<open>A segment of 36 header bytes for the witnesses: MSS at 20, SACK at 24 and timestamps at 25.\<close>

definition sample_opts :: mem where
  "sample_opts = (\<lambda>_. 0)(0 := 0x45, 3 := 56, 9 := 6, 10 := 0xBA, 11 := 0xC1, 32 := 0x90, 36 := 0x6F, 37 := 0xD5)"

lemma sample_opts_ok:
  "unat (tcp_data_offset sample_opts 20) = 36" "tcp_cksum_calc sample_opts 0 20 20 36 = Some 0"
proof -
  have "mem_bytes sample_opts 20 36 = [0, 0, 0, 0, 0, 0, 0, 0, 0, 0, 0, 0, 0x90, 0, 0, 0, 0x6F, 0xD5,
      0, 0, 0, 0, 0, 0, 0, 0, 0, 0, 0, 0, 0, 0, 0, 0, 0, 0]"
    "mem_bytes sample_opts 12 8 = [0, 0, 0, 0, 0, 0, 0, 0]"
    by (simp_all add: mem_bytes_def upt_rec sample_opts_def)
  then show "tcp_cksum_calc sample_opts 0 20 20 36 = Some 0"
    by (simp add: tcp_cksum_calc_rfc1071 rfc1071_0_iff pseudo_hdr4_def nth_byte_def valid_sum_def)
qed (simp add: sample_opts_def tcp_data_offset_def hdr_byte_simps)

theorem tcp_option_updates_verify_witness:
  "tcp_cksum_calc (tcp_set_mss_cksum_update sample_opts 20
     \<lparr>options_valid = 1, wscale = 0, mss = 0, sack_permitted = 0, mssoff = 21, ts_present = 1, ts = 0, tsecho = 0\<rparr>
     1460) 0 20 20 36 = Some 0"
  using tcp_option_updates_verify [where m = sample_opts and tcp = 20 and len = 36 and ip = 0 and iplen = 20
      and opts = "\<lparr>options_valid = 1, wscale = 0, mss = 0, sack_permitted = 0, mssoff = 21, ts_present = 1,
        ts = 0, tsecho = 0\<rparr>" and hdrs = "\<lparr>sackoff = 0, sacklen = 0, tsoff = 25\<rparr>" and v = 1460]
  by (simp add: sample_opts_ok)

text \<open>
  C17: Disabling the SACK option of a verifying TCP segment overwrites exactly the option with
  no-operation bytes and keeps the segment verifying, whether the option starts at an even or
  an odd offset and whether its length is even or odd.
\<close>

theorem tcp_disable_sack_verifies:
  assumes "unat (tcp_data_offset m tcp) \<le> unat len" "ip + 20 \<le> tcp"
    and "tcp_cksum_calc m ip iplen tcp len = Some 0"
    and "20 \<le> s" "s + l \<le> unat (tcp_data_offset m tcp)"
  defines "r \<equiv> tcp_disable_sack_cksum_update m tcp (tcp + s) l (even s)"
  shows "tcp_cksum_calc r ip iplen tcp len = Some 0 \<and>
    (\<forall>a. r a = (if tcp + s \<le> a \<and> a < tcp + s + l then 1
      else if a = tcp + 16 \<or> a = tcp + 17 then r a else m a))"
proof -
  have h: "even (unat (tcp_data_offset m tcp))"
    by (simp add: tcp_data_offset_def unat_word_ariths dvd_mod)
  note k = tcp_disable_sack_keeps [OF assms(4,5) h assms(1), where m = m and t = tcp]
  have "tcp_cksum_calc r ip iplen tcp len = Some 0"
    unfolding r_def by (rule tcp_verifies_keep [OF k(1) assms(2,3)])
  moreover have "r a = 1" if "tcp + s \<le> a" "a < tcp + s + l" for a
    using k(2) [of "a - tcp"] that by (simp add: r_def)
  moreover have "r a = m a" if "\<not> (tcp + s \<le> a \<and> a < tcp + s + l)" "a \<noteq> tcp + 16" "a \<noteq> tcp + 17" for a
    using k(3) [of a] that by (auto simp: r_def)
  ultimately show ?thesis by auto
qed

theorem tcp_disable_sack_verifies_witness:
  "tcp_cksum_calc (tcp_disable_sack_cksum_update sample_opts 20 (20 + 21) 10 (even (21 :: nat))) 0 20 20 36 = Some 0"
  using tcp_disable_sack_verifies [where m = sample_opts and tcp = 20 and len = 36 and ip = 0 and iplen = 20
      and s = 21 and l = 10]
  by (simp add: sample_opts_ok)

text \<open>
  C18: Shifting the block edges of a SACK option at an even offset, whose length is that of a
  whole number of blocks, returns, keeps a verifying segment verifying, and adds the adjustment
  to every edge.
\<close>

theorem tcp_adjust_sack_verifies:
  assumes "s + l \<le> unat len" "ip + 20 \<le> tcp" "tcp_cksum_calc m ip iplen tcp len = Some 0"
    and "20 \<le> s" "even s" "l mod 8 = 2"
  shows "\<exists>r. tcp_adjust_sack_cksum_update m tcp (tcp + s) l True adj = Some r \<and>
    tcp_cksum_calc r ip iplen tcp len = Some 0 \<and>
    (\<forall>j. 2 + 4 * j + 4 \<le> l \<longrightarrow>
      hdr_get32n r (tcp + s + (2 + 4 * j)) = hdr_get32n m (tcp + s + (2 + 4 * j)) + adj)"
  using tcp_adjust_sack_aligned [OF assms(4,5,1,6), of m tcp adj] tcp_verifies_keep [OF _ assms(2,3)]
  by blast

theorem tcp_adjust_sack_verifies_witness:
  "\<exists>r. tcp_adjust_sack_cksum_update sample_opts 20 (20 + 22) 10 True 5 = Some r \<and>
    tcp_cksum_calc r 0 20 20 36 = Some 0"
  using tcp_adjust_sack_verifies [where m = sample_opts and tcp = 20 and len = 36 and ip = 0 and iplen = 20
      and s = 22 and l = 10 and adj = 5]
  by (auto simp: sample_opts_ok)

text \<open>
  C19: At an odd offset the function that shifts the block edges returns exactly when the option
  is too short to hold a block; with a block it never returns, since its loop does not advance.
\<close>

theorem tcp_adjust_sack_odd_diverges:
  "tcp_adjust_sack_cksum_update m tcp sackhdr l False adj = None \<longleftrightarrow> 10 \<le> l"
proof (cases "10 \<le> l")
  case True
  then have "adjust_sack_loop_unaligned m sackhdr l adj 2 (tcp_cksum m tcp) = None"
    using adjust_sack_loop_unaligned_Some [of m sackhdr l adj 2 "tcp_cksum m tcp"]
    by (cases "adjust_sack_loop_unaligned m sackhdr l adj 2 (tcp_cksum m tcp)") auto
  with True show ?thesis by (simp add: tcp_adjust_sack_cksum_update_def)
next
  case False
  then show ?thesis
    by (simp add: tcp_adjust_sack_cksum_update_def adjust_sack_loop_unaligned.simps)
qed

text \<open>
  Changing a UDP port leaves a datagram without checksum alone but for the port, and keeps
  a verifying checksummed datagram verifying, over IPv4 and over IPv6.
\<close>

theorem udp_port_updates_verify:
  fixes v :: u16
  assumes "8 \<le> unat len"
    and "r = (if src then udp_set_src_port_cksum_update else udp_set_dst_port_cksum_update) m udp len v"
    and "if six then ip + 40 \<le> udp \<and> udp6_cksum_calc m ip iplen udp len = Some 0
      else ip + 20 \<le> udp \<and> udp_cksum_calc m ip iplen udp len = Some 0"
  shows "(if src then udp_src_port else udp_dst_port) r udp = v \<and>
    (if udp_cksum m udp = 0 then udp_cksum r udp = 0
     else (if six then udp6_cksum_calc else udp_cksum_calc) r ip iplen udp len = Some 0)"
proof -
  have "(if src then udp_src_port else udp_dst_port) r udp = v"
    "udp_cksum m udp = 0 \<Longrightarrow> udp_cksum r udp = 0"
    by (auto simp: assms(2) seg_defs udp_set_src_port_cksum_update_def udp_set_dst_port_cksum_update_def
        hdr_get16n_frame)
  moreover have "(if six then udp6_cksum_calc else udp_cksum_calc) r ip iplen udp len = Some 0"
    if "udp_cksum m udp \<noteq> 0"
  proof -
    have "seg_keeps m r udp (unat len)"
      using udp_updates_keep [OF assms(1) that, of len v] by (simp add: assms(2))
    then show ?thesis
      using assms(3) by (auto intro: udp_verifies_keep udp6_verifies_keep split: if_splits)
  qed
  ultimately show ?thesis by simp
qed

text \<open>A UDP datagram of 8 bytes without payload and with a correct checksum.\<close>

definition sample_udp :: mem where
  "sample_udp = (\<lambda>_. 0)(0 := 0x45, 3 := 28, 9 := 17, 25 := 8, 26 := 0xFF, 27 := 0xDE)"

lemma sample_udp_ok: "udp_cksum sample_udp 20 = 0xFFDE" "udp_cksum_calc sample_udp 0 20 20 8 = Some 0"
proof -
  have "mem_bytes sample_udp 20 8 = [0, 0, 0, 0, 0, 8, 0xFF, 0xDE]" "mem_bytes sample_udp 12 8 = [0, 0, 0, 0, 0, 0, 0, 0]"
    by (simp_all add: mem_bytes_def upt_rec sample_udp_def)
  then show "udp_cksum_calc sample_udp 0 20 20 8 = Some 0"
    by (simp add: udp_cksum_calc_rfc1071 rfc1071_0_iff pseudo_hdr4_def nth_byte_def valid_sum_def)
qed (simp add: udp_cksum_def hdr_get16n_be sample_udp_def mk16_def)

theorem udp_port_updates_verify_witness:
  "udp_src_port (udp_set_src_port_cksum_update sample_udp 20 8 53) 20 = 53 \<and>
   udp_cksum_calc (udp_set_src_port_cksum_update sample_udp 20 8 53) 0 20 20 8 = Some 0"
  using udp_port_updates_verify [where m = sample_udp and udp = 20 and len = 8 and ip = 0 and iplen = 20
      and six = False and src = True and v = 53 and r = "udp_set_src_port_cksum_update sample_udp 20 8 53"]
  by (simp add: sample_udp_ok)

text \<open>
  C25: The updated UDP checksum can be 0, which means that the datagram has no checksum: there
  are a verifying datagram with a checksum and a port for which it becomes 0.
\<close>

theorem udp_port_update_can_drop_cksum:
  "\<exists>m port. udp_cksum m 20 \<noteq> 0 \<and> udp_cksum_calc m 0 20 20 8 = Some 0 \<and>
     udp_cksum (udp_set_src_port_cksum_update m 20 8 port) 20 = 0"
proof -
  have "udp_src_port sample_udp 20 = 0"
    by (simp add: udp_src_port_def hdr_get16n_be sample_udp_def mk16_def)
  moreover have "ip_update_cksum16 0xFFDE 0 0xFFDE = 0"
    using unat_ip_update_cksum16 [of "0xFFDE" 0 "0xFFDE"] by (simp add: oc16_def unsigned_eq_0_iff)
  ultimately have "udp_cksum (udp_set_src_port_cksum_update sample_udp 20 8 0xFFDE) 20 = 0"
    using sample_udp_ok(1)
    by (simp add: udp_set_src_port_cksum_update_def udp_set_src_port_def udp_cksum_def udp_set_cksum_def
        hdr_get16n_frame)
  with sample_udp_ok show ?thesis by (intro exI [of _ sample_udp] exI [of _ "0xFFDE"]) simp
qed

text \<open>
  Changing the identifier of an ICMP echo message keeps a verifying message verifying, if
  its type and code are not both 0.
\<close>

theorem icmp_echo_identifier_update_verifies:
  fixes v len :: u16
  assumes "8 \<le> n" "hdr_get16n m icmp \<noteq> 0" "rfc1071 (mem_bytes m icmp n) = 0"
  defines "r \<equiv> icmp_set_echo_identifier_cksum_update m icmp len v"
  shows "icmp_echo_identifier r icmp = v \<and> rfc1071 (mem_bytes r icmp n) = 0"
proof -
  have e: "icmp + 2 + 0 = icmp + 2" "icmp + 2 + 2 = icmp + 4" by simp_all
  have "seg_keeps m r (icmp + 2) (n - 2)"
    using seg_keeps_field16 [of 0 "n - 2" 2 m "icmp + 2" v, unfolded e] assms(1)
    by (simp add: r_def icmp_set_echo_identifier_cksum_update_def seg_defs)
  moreover have "unat (hdr_get16n m icmp) \<noteq> 0" using assms(2) by (simp add: unsigned_eq_0_iff)
  moreover have "hdr_get16n r icmp = hdr_get16n m icmp"
    by (simp add: r_def icmp_set_echo_identifier_cksum_update_def seg_defs hdr_get16n_frame)
  ultimately have "rfc1071 (mem_bytes r icmp n) = 0"
    using assms(1,3) by (auto simp: rfc1071_0_iff be_sum_step seg_keeps_def)
  then show ?thesis by (simp add: r_def icmp_set_echo_identifier_cksum_update_def seg_defs)
qed

theorem icmp_echo_identifier_update_verifies_witness:
  "rfc1071 (mem_bytes (icmp_set_echo_identifier_cksum_update
     ((\<lambda>_. 0)(0 := 8, 2 := 0xF7, 3 := 0xFF)) 0 8 77) 0 8) = 0"
proof -
  have "mem_bytes ((\<lambda>_. 0)(0 := 8, 2 := 0xF7, 3 := 0xFF)) 0 8 = [8, 0, 0xF7, 0xFF, 0, 0, 0, 0]"
    by (simp add: mem_bytes_def upt_rec)
  then have "rfc1071 (mem_bytes ((\<lambda>_. 0)(0 := 8, 2 := 0xF7, 3 := 0xFF)) 0 8) = 0"
    by (simp add: rfc1071_0_iff valid_sum_def)
  from icmp_echo_identifier_update_verifies [OF _ _ this, of 8 77] show ?thesis
    by (simp add: hdr_get16n_be mk16_def)
qed

end
