(* ===== verification/TcpOpts.thy ===== *)
theory TcpOpts
  imports CksumProps
begin

text \<open>
  The TCP option parsers of \<^verbatim>\<open>src/iphdr/iphdr.c\<close>.  \<^verbatim>\<open>tcp_parse_options\<close> and
  \<^verbatim>\<open>tcp_find_sack_header\<close> end on every packet; \<^verbatim>\<open>tcp_find_sack_ts_headers\<close> does not check that
  an option has a positive length, so its loop is a partial function.  The first parser is
  shown to invert an encoder of option lists, and the offsets that the parsers report are
  shown to be the ones that the checksum updates of \<open>CksumProps\<close> need.
\<close>

section \<open>Option lengths\<close>

text \<open>The length byte, cut off at the end of the header.\<close>

definition tcp_optlen :: "mem \<Rightarrow> ptr \<Rightarrow> nat \<Rightarrow> nat \<Rightarrow> nat" where
  "tcp_optlen m pkt dataoff curoff =
     (let lenval = dataoff - curoff
      in if curoff + 1 < dataoff \<and> unat (m (pkt + (curoff + 1))) < lenval
         then unat (m (pkt + (curoff + 1))) else lenval)"

section \<open>tcp_parse_options\<close>

definition tcp_information_init :: tcp_information where
  "tcp_information_init = \<lparr>options_valid = 0, wscale = 0, mss = 536, sack_permitted = 0, mssoff = 0,
     ts_present = 0, ts = 0, tsecho = 0\<rparr>"

text \<open>One round of the loop: \<open>Inl\<close> when it returns, \<open>Inr\<close> with the new offset when it continues.\<close>

definition tcp_parse_options_body ::
  "mem \<Rightarrow> ptr \<Rightarrow> nat \<Rightarrow> nat \<Rightarrow> tcp_information \<Rightarrow> tcp_information + (nat \<times> tcp_information)" where
  "tcp_parse_options_body m pkt dataoff curoff info =
     (if m (pkt + curoff) = 0 then Inl (info\<lparr>options_valid := 1\<rparr>)
      else if m (pkt + curoff) = 1 then Inr (curoff + 1, info)
      else if m (pkt + curoff) = 8 then
        (let tslenval = tcp_optlen m pkt dataoff curoff
         in if tslenval < 2 then Inl info
            else if tslenval \<noteq> 10 then Inr (curoff + tslenval, info)
            else Inr (curoff + tslenval,
              info\<lparr>ts := hdr_get32n m (pkt + (curoff + 2)), tsecho := hdr_get32n m (pkt + (curoff + 6)),
                ts_present := 1\<rparr>))
      else if m (pkt + curoff) = 3 then
        (let wscalelenval = tcp_optlen m pkt dataoff curoff
         in if wscalelenval < 2 then Inl info
            else if wscalelenval \<noteq> 3 then Inr (curoff + wscalelenval, info)
            else Inr (curoff + wscalelenval, info\<lparr>wscale := m (pkt + (curoff + 2))\<rparr>))
      else if m (pkt + curoff) = 2 then
        (let msslenval = tcp_optlen m pkt dataoff curoff
         in if msslenval < 2 then Inl info
            else if msslenval \<noteq> 4 then Inr (curoff + msslenval, info)
            else Inr (curoff + msslenval,
              info\<lparr>mss := hdr_get16n m (pkt + (curoff + 2)), mssoff := of_nat curoff\<rparr>))
      else if m (pkt + curoff) = 4 then
        (let sacklenval = tcp_optlen m pkt dataoff curoff
         in if sacklenval < 2 then Inl info
            else if sacklenval \<noteq> 2 then Inr (curoff + sacklenval, info)
            else Inr (curoff + sacklenval, info\<lparr>sack_permitted := 1\<rparr>))
      else if dataoff \<le> curoff + 1 then Inl info
      else
        (let curoptlen = tcp_optlen m pkt dataoff curoff
         in if curoptlen < 2 then Inl info else Inr (curoff + curoptlen, info)))"

lemma tcp_optlen_le: "curoff \<le> dataoff \<Longrightarrow> curoff + tcp_optlen m pkt dataoff curoff \<le> dataoff"
  by (auto simp: tcp_optlen_def Let_def)

lemma tcp_parse_options_body_progress:
  assumes "tcp_parse_options_body m pkt dataoff curoff info = Inr (c, i)" "curoff < dataoff"
  shows "curoff < c" "c \<le> dataoff"
  using assms tcp_optlen_le [of curoff dataoff m pkt]
  by (auto simp: tcp_parse_options_body_def Let_def split: if_splits)

function tcp_parse_options_loop ::
  "mem \<Rightarrow> ptr \<Rightarrow> nat \<Rightarrow> nat \<Rightarrow> tcp_information \<Rightarrow> tcp_information" where
  "tcp_parse_options_loop m pkt dataoff curoff info =
     (if curoff < dataoff then
        (case tcp_parse_options_body m pkt dataoff curoff info of
           Inl info \<Rightarrow> info
         | Inr (curoff, info) \<Rightarrow> tcp_parse_options_loop m pkt dataoff curoff info)
      else info\<lparr>options_valid := 1\<rparr>)"
  by pat_completeness auto
termination
  by (relation "measure (\<lambda>(m, pkt, dataoff, curoff, info). dataoff - curoff)")
    (auto dest: tcp_parse_options_body_progress)

declare tcp_parse_options_loop.simps [simp del]

definition tcp_parse_options :: "mem \<Rightarrow> ptr \<Rightarrow> tcp_information" where
  "tcp_parse_options m pkt =
     tcp_parse_options_loop m pkt (unat (tcp_data_offset m pkt)) 20 tcp_information_init"

section \<open>tcp_find_sack_ts_headers\<close>

partial_function (option) tcp_find_sack_ts_loop ::
  "mem \<Rightarrow> ptr \<Rightarrow> nat \<Rightarrow> nat \<Rightarrow> sack_ts_headers \<Rightarrow> sack_ts_headers option"
where
  "tcp_find_sack_ts_loop m pkt dataoff curoff hdrs =
     (if \<not> curoff < dataoff then Some hdrs
      else if m (pkt + curoff) = 0 then Some hdrs
      else if m (pkt + curoff) = 1 then tcp_find_sack_ts_loop m pkt dataoff (curoff + 1) hdrs
      else if m (pkt + curoff) = 5 then
        (let sacklenval = tcp_optlen m pkt dataoff curoff
         in tcp_find_sack_ts_loop m pkt dataoff (curoff + sacklenval)
              (hdrs\<lparr>sacklen := of_nat sacklenval, sackoff := of_nat curoff\<rparr>))
      else if m (pkt + curoff) = 8 then
        (let tslenval = tcp_optlen m pkt dataoff curoff
         in if tslenval \<noteq> 10 then tcp_find_sack_ts_loop m pkt dataoff (curoff + tslenval) hdrs
            else tcp_find_sack_ts_loop m pkt dataoff (curoff + tslenval) (hdrs\<lparr>tsoff := of_nat curoff\<rparr>))
      else if dataoff \<le> curoff + 1 then Some hdrs
      else
        (let curoptlen = tcp_optlen m pkt dataoff curoff
         in if curoptlen < 2 then Some hdrs
            else tcp_find_sack_ts_loop m pkt dataoff (curoff + curoptlen) hdrs))"

definition tcp_find_sack_ts_headers :: "mem \<Rightarrow> ptr \<Rightarrow> sack_ts_headers option" where
  "tcp_find_sack_ts_headers m pkt =
     tcp_find_sack_ts_loop m pkt (unat (tcp_data_offset m pkt)) 20 \<lparr>sackoff = 0, sacklen = 0, tsoff = 0\<rparr>"

section \<open>tcp_find_sack_header\<close>

text \<open>The result is the pointer with the length and the alignment flag, or \<open>None\<close> for \<^verbatim>\<open>NULL\<close>.\<close>

function tcp_find_sack_loop :: "mem \<Rightarrow> ptr \<Rightarrow> nat \<Rightarrow> nat \<Rightarrow> (ptr \<times> nat \<times> bool) option" where
  "tcp_find_sack_loop m pkt dataoff curoff =
     (if \<not> curoff < dataoff then None
      else if m (pkt + curoff) = 0 then None
      else if m (pkt + curoff) = 1 then tcp_find_sack_loop m pkt dataoff (curoff + 1)
      else if m (pkt + curoff) = 5 then
        Some (pkt + curoff, tcp_optlen m pkt dataoff curoff, curoff mod 2 = 0)
      else if dataoff \<le> curoff + 1 then None
      else
        (let curoptlen = tcp_optlen m pkt dataoff curoff
         in if curoptlen < 2 then None
            else tcp_find_sack_loop m pkt dataoff (curoff + curoptlen)))"
  by pat_completeness auto
termination
  by (relation "measure (\<lambda>(m, pkt, dataoff, curoff). dataoff - curoff)") (auto simp: not_less)

declare tcp_find_sack_loop.simps [simp del]

definition tcp_find_sack_header :: "mem \<Rightarrow> ptr \<Rightarrow> (ptr \<times> nat \<times> bool) option" where
  "tcp_find_sack_header m pkt = tcp_find_sack_loop m pkt (unat (tcp_data_offset m pkt)) 20"

section \<open>Bounds\<close>

lemma tcp_data_offset_le: "unat (tcp_data_offset m p) \<le> 60" "even (unat (tcp_data_offset m p))"
proof -
  have "unat (drop_bit 4 (m (p + 12))) \<le> 15"
    using unat_u8_less [of "m (p + 12)"] by (simp add: drop_bit_eq_div unat_div)
  then have "unat (tcp_data_offset m p) = unat (drop_bit 4 (m (p + 12))) * 4"
    by (simp add: tcp_data_offset_def unat_word_ariths hdr_byte_simps)
  then show "unat (tcp_data_offset m p) \<le> 60" "even (unat (tcp_data_offset m p))"
    using \<open>unat (drop_bit 4 (m (p + 12))) \<le> 15\<close> by simp_all
qed

text \<open>What a reported MSS offset means.\<close>

definition mss_ok :: "mem \<Rightarrow> ptr \<Rightarrow> nat \<Rightarrow> tcp_information \<Rightarrow> bool" where
  "mss_ok m pkt dataoff info \<longleftrightarrow>
     (if mssoff info = 0 then mss info = 536
      else 20 \<le> unat (mssoff info) \<and> unat (mssoff info) + 4 \<le> dataoff \<and>
        m (pkt + unat (mssoff info)) = 2 \<and> mss info = hdr_get16n m (pkt + (unat (mssoff info) + 2)))"

lemma mss_ok_upd [simp]:
  "mss_ok m pkt d (info\<lparr>options_valid := v\<rparr>) = mss_ok m pkt d info"
  "mss_ok m pkt d (info\<lparr>ts := t, tsecho := e, ts_present := w\<rparr>) = mss_ok m pkt d info"
  "mss_ok m pkt d (info\<lparr>wscale := v\<rparr>) = mss_ok m pkt d info"
  "mss_ok m pkt d (info\<lparr>sack_permitted := v\<rparr>) = mss_ok m pkt d info"
  by (simp_all add: mss_ok_def)

lemma tcp_parse_options_body_mss_ok:
  assumes "mss_ok m pkt dataoff info" "20 \<le> curoff" "dataoff \<le> 60" "curoff < dataoff"
  shows "case tcp_parse_options_body m pkt dataoff curoff info of
    Inl i \<Rightarrow> mss_ok m pkt dataoff i | Inr (c, i) \<Rightarrow> mss_ok m pkt dataoff i"
proof -
  have "unat (of_nat curoff :: u8) = curoff"
    using assms(3,4) by (simp add: unsigned_of_nat take_bit_nat_eq_self_iff)
  then have "mss_ok m pkt dataoff (info\<lparr>mss := hdr_get16n m (pkt + (curoff + 2)), mssoff := of_nat curoff\<rparr>)"
    if "m (pkt + curoff) = 2" "tcp_optlen m pkt dataoff curoff = 4"
    using that assms(2,4) tcp_optlen_le [of curoff dataoff m pkt]
    by (auto simp: mss_ok_def unsigned_eq_0_iff)
  then show ?thesis
    using assms(1) by (simp add: tcp_parse_options_body_def Let_def)
qed

lemma tcp_parse_options_loop_mss_ok:
  assumes "mss_ok m pkt dataoff info" "20 \<le> curoff" "dataoff \<le> 60"
  shows "mss_ok m pkt dataoff (tcp_parse_options_loop m pkt dataoff curoff info)"
  using assms
proof (induction m pkt dataoff curoff info rule: tcp_parse_options_loop.induct)
  case step: (1 m pkt dataoff curoff info)
  show ?case
    using step tcp_parse_options_body_mss_ok [OF step.prems]
      tcp_parse_options_body_progress(1) [of m pkt dataoff curoff info]
    by (subst tcp_parse_options_loop.simps) (force split: sum.splits prod.splits)
qed

lemma tcp_find_sack_loop_bounds:
  assumes "tcp_find_sack_loop m pkt dataoff curoff = Some (p, l, al)" "20 \<le> curoff"
  shows "\<exists>s. p = pkt + s \<and> curoff \<le> s \<and> s < dataoff \<and> s + l \<le> dataoff \<and> al = even s \<and> m p = 5"
  using assms
proof (induction m pkt dataoff curoff rule: tcp_find_sack_loop.induct)
  case (1 m pkt dataoff curoff)
  from 1(3) show ?case
    by (subst (asm) tcp_find_sack_loop.simps)
      (use 1(1,2,4) tcp_optlen_le [of curoff dataoff m pkt] in
        \<open>force simp: Let_def even_iff_mod_2_eq_zero split: if_splits\<close>)
qed

section \<open>Encoding option lists\<close>

datatype tcp_opt = Nop | Mss u16 | Wscale u8 | SackPermitted | Timestamps u32 u32 | Other u8 "u8 list"

definition be16 :: "u16 \<Rightarrow> u8 list" where
  "be16 v = [nth_byte v 1, nth_byte v 0]"

definition be32 :: "u32 \<Rightarrow> u8 list" where
  "be32 v = [nth_byte v 3, nth_byte v 2, nth_byte v 1, nth_byte v 0]"

fun opt_bytes :: "tcp_opt \<Rightarrow> u8 list" where
  "opt_bytes Nop = [1]"
| "opt_bytes (Mss v) = [2, 4] @ be16 v"
| "opt_bytes (Wscale v) = [3, 3, v]"
| "opt_bytes SackPermitted = [4, 2]"
| "opt_bytes (Timestamps a b) = [8, 10] @ be32 a @ be32 b"
| "opt_bytes (Other k ds) = [k, of_nat (length ds + 2)] @ ds"

fun opt_wf :: "tcp_opt \<Rightarrow> bool" where
  "opt_wf (Other k ds) \<longleftrightarrow> k \<notin> {0, 1, 2, 3, 4, 8} \<and> length ds + 2 < 256"
| "opt_wf _ \<longleftrightarrow> True"

text \<open>What an option list at header offset \<open>off\<close> tells.\<close>

fun opts_info :: "nat \<Rightarrow> tcp_opt list \<Rightarrow> tcp_information \<Rightarrow> tcp_information" where
  "opts_info off [] info = info"
| "opts_info off (opt # opts) info = opts_info (off + length (opt_bytes opt)) opts
     (case opt of
        Mss v \<Rightarrow> info\<lparr>mss := v, mssoff := of_nat off\<rparr>
      | Wscale v \<Rightarrow> info\<lparr>wscale := v\<rparr>
      | SackPermitted \<Rightarrow> info\<lparr>sack_permitted := 1\<rparr>
      | Timestamps a b \<Rightarrow> info\<lparr>ts := a, tsecho := b, ts_present := 1\<rparr>
      | _ \<Rightarrow> info)"

definition mem_has :: "mem \<Rightarrow> ptr \<Rightarrow> u8 list \<Rightarrow> bool" where
  "mem_has m p bs \<longleftrightarrow> mem_bytes m p (length bs) = bs"

lemma mem_has_Nil [simp]: "mem_has m p []"
  by (simp add: mem_has_def mem_bytes_def)

lemma mem_has_Cons: "mem_has m p (b # bs) \<longleftrightarrow> m p = b \<and> mem_has m (p + 1) bs"
  by (simp add: mem_has_def mem_bytes_Suc)

lemma mem_has_append: "mem_has m p (xs @ ys) \<longleftrightarrow> mem_has m p xs \<and> mem_has m (p + length xs) ys"
  by (induction xs arbitrary: p) (auto simp: mem_has_Cons)

lemma mem_has_be:
  "mem_has m p (be16 v) \<Longrightarrow> hdr_get16n m p = v"
  "mem_has m p (be32 w) \<Longrightarrow> hdr_get32n m p = w"
proof -
  have "m (p + 3) = m (Suc (Suc (Suc p)))" "m (p + 2) = m (Suc (Suc p))" by (simp_all add: numeral_3_eq_3)
  then show "mem_has m p (be16 v) \<Longrightarrow> hdr_get16n m p = v" "mem_has m p (be32 w) \<Longrightarrow> hdr_get32n m p = w"
    by (auto simp: be16_def be32_def mem_has_Cons hdr_simps)
qed

lemma length_be [simp]: "length (be16 v) = 2" "length (be32 w) = 4"
  by (simp_all add: be16_def be32_def)

lemma length_opt_bytes_pos: "0 < length (opt_bytes opt)"
  by (cases opt) auto

text \<open>An option of at least two bytes that fits has the length of its second byte.\<close>

lemma tcp_optlen_eq:
  assumes "m (p + (cur + 1)) = of_nat l" "2 \<le> l" "l < 256" "cur + l \<le> d"
  shows "tcp_optlen m p d cur = l"
proof -
  have "unat (m (p + (cur + 1))) = l"
    using assms(1,3) by (simp add: unsigned_of_nat take_bit_nat_eq_self_iff)
  then show ?thesis using assms(2,4) by (auto simp: tcp_optlen_def Let_def)
qed

text \<open>One round of the parser over one encoded option.\<close>

lemma tcp_parse_options_body_opt:
  assumes "mem_has m (p + cur) (opt_bytes opt)" "opt_wf opt" "cur + length (opt_bytes opt) \<le> d"
  shows "tcp_parse_options_body m p d cur info =
    Inr (cur + length (opt_bytes opt), opts_info cur [opt] info)"
proof (cases opt)
  case Nop
  with assms show ?thesis by (simp add: mem_has_Cons tcp_parse_options_body_def)
next
  case (Mss v)
  with assms have "m (p + cur) = 2" "m (p + (cur + 1)) = of_nat 4" "hdr_get16n m (p + (cur + 2)) = v"
    by (auto simp: mem_has_Cons intro: mem_has_be)
  with Mss assms(3) show ?thesis
    using tcp_optlen_eq [of m p cur 4 d] by (simp add: tcp_parse_options_body_def)
next
  case (Wscale v)
  with assms have "m (p + cur) = 3" "m (p + (cur + 1)) = of_nat 3" "m (p + (cur + 2)) = v"
    by (auto simp: mem_has_Cons)
  with Wscale assms(3) show ?thesis
    using tcp_optlen_eq [of m p cur 3 d] by (simp add: tcp_parse_options_body_def)
next
  case SackPermitted
  with assms have "m (p + cur) = 4" "m (p + (cur + 1)) = of_nat 2" by (auto simp: mem_has_Cons)
  with SackPermitted assms(3) show ?thesis
    using tcp_optlen_eq [of m p cur 2 d] by (simp add: tcp_parse_options_body_def)
next
  case (Timestamps a b)
  with assms have "mem_has m (p + cur) ([8, 10] @ be32 a @ be32 b)" by simp
  then have "m (p + cur) = 8" "m (p + (cur + 1)) = of_nat 10"
    "hdr_get32n m (p + (cur + 2)) = a" "hdr_get32n m (p + (cur + 6)) = b"
    unfolding mem_has_append by (auto simp: mem_has_Cons ac_simps intro!: mem_has_be)
  with Timestamps assms(3) show ?thesis
    using tcp_optlen_eq [of m p cur 10 d] by (simp add: tcp_parse_options_body_def)
next
  case (Other k ds)
  with assms have "m (p + cur) = k" "m (p + (cur + 1)) = of_nat (length ds + 2)" "length ds + 2 < 256"
    "k \<notin> {0, 1, 2, 3, 4, 8}"
    by (auto simp: mem_has_Cons)
  moreover have "tcp_optlen m p d cur = length ds + 2"
    using calculation(2,3) assms(3) Other by (intro tcp_optlen_eq) auto
  ultimately show ?thesis
    using Other assms(3) by (simp add: tcp_parse_options_body_def)
qed

lemma tcp_parse_options_loop_step:
  assumes "mem_has m (p + cur) (opt_bytes opt)" "opt_wf opt" "cur + length (opt_bytes opt) \<le> d"
  shows "tcp_parse_options_loop m p d cur info =
    tcp_parse_options_loop m p d (cur + length (opt_bytes opt)) (opts_info cur [opt] info)"
proof -
  have "cur < d" using assms(3) length_opt_bytes_pos [of opt] by linarith
  then show ?thesis
    using tcp_parse_options_body_opt [OF assms, of info]
    by (subst tcp_parse_options_loop.simps) simp
qed

lemma tcp_parse_options_loop_opts:
  assumes "mem_has m (p + cur) (concat (map opt_bytes opts))" "list_all opt_wf opts"
    and "d = cur + length (concat (map opt_bytes opts)) \<or>
      (cur + length (concat (map opt_bytes opts)) < d \<and> m (p + (cur + length (concat (map opt_bytes opts)))) = 0)"
  shows "tcp_parse_options_loop m p d cur info = (opts_info cur opts info)\<lparr>options_valid := 1\<rparr>"
  using assms
proof (induction opts arbitrary: cur info)
  case Nil
  then show ?case by (subst tcp_parse_options_loop.simps) (auto simp: tcp_parse_options_body_def)
next
  case (Cons opt opts)
  let ?n = "cur + length (opt_bytes opt)"
  have "tcp_parse_options_loop m p d cur info = tcp_parse_options_loop m p d ?n (opts_info cur [opt] info)"
    using Cons.prems by (intro tcp_parse_options_loop_step) (auto simp: mem_has_append)
  also have "\<dots> = (opts_info ?n opts (opts_info cur [opt] info))\<lparr>options_valid := 1\<rparr>"
    using Cons.prems by (intro Cons.IH) (auto simp: mem_has_append add.assoc)
  finally show ?case by simp
qed

section \<open>The search for SACK and timestamps\<close>

text \<open>
  Where the option at an offset is followed by another one: behind its byte or its length, if this is at
  least 2; the search accepts any length of a SACK or timestamp option.  An offset is visited from another
  one if it is reached in such steps.
\<close>

definition tcp_opt_next :: "mem \<Rightarrow> ptr \<Rightarrow> nat \<Rightarrow> nat \<Rightarrow> nat option" where
  "tcp_opt_next m pkt dataoff c =
     (if dataoff \<le> c \<or> m (pkt + c) = 0 then None
      else if m (pkt + c) = 1 then Some (c + 1)
      else if m (pkt + c) = 5 \<or> m (pkt + c) = 8 then Some (c + tcp_optlen m pkt dataoff c)
      else if c + 1 < dataoff \<and> 2 \<le> tcp_optlen m pkt dataoff c then Some (c + tcp_optlen m pkt dataoff c)
      else None)"

inductive tcp_opt_visited :: "mem \<Rightarrow> ptr \<Rightarrow> nat \<Rightarrow> nat \<Rightarrow> nat \<Rightarrow> bool" for m pkt dataoff where
  here: "tcp_opt_visited m pkt dataoff a a"
| further: "tcp_opt_next m pkt dataoff a = Some b \<Longrightarrow> tcp_opt_visited m pkt dataoff b c \<Longrightarrow>
    tcp_opt_visited m pkt dataoff a c"

text \<open>The SACK options, and the timestamp options of the right length, that are visited.\<close>

definition sack_visited :: "mem \<Rightarrow> ptr \<Rightarrow> nat \<Rightarrow> nat \<Rightarrow> nat \<Rightarrow> bool" where
  "sack_visited m pkt dataoff a c \<longleftrightarrow> tcp_opt_visited m pkt dataoff a c \<and> c < dataoff \<and> m (pkt + c) = 5"

definition ts_visited :: "mem \<Rightarrow> ptr \<Rightarrow> nat \<Rightarrow> nat \<Rightarrow> nat \<Rightarrow> bool" where
  "ts_visited m pkt dataoff a c \<longleftrightarrow>
     tcp_opt_visited m pkt dataoff a c \<and> c < dataoff \<and> m (pkt + c) = 8 \<and> tcp_optlen m pkt dataoff c = 10"

text \<open>No visited SACK or timestamp option has the length 0.\<close>

definition no_empty_option :: "mem \<Rightarrow> ptr \<Rightarrow> nat \<Rightarrow> nat \<Rightarrow> bool" where
  "no_empty_option m pkt dataoff a \<longleftrightarrow>
     (\<forall>c. tcp_opt_visited m pkt dataoff a c \<and> c + 1 < dataoff \<and> (m (pkt + c) = 5 \<or> m (pkt + c) = 8) \<longrightarrow>
        m (pkt + (c + 1)) \<noteq> 0)"

text \<open>What the search from an offset reports: the last options visited, or what it had found before.\<close>

definition latest :: "(nat \<Rightarrow> bool) \<Rightarrow> nat \<Rightarrow> bool" where
  "latest P c \<longleftrightarrow> P c \<and> (\<forall>b. P b \<longrightarrow> b \<le> c)"

definition sack_ts_ok :: "mem \<Rightarrow> ptr \<Rightarrow> nat \<Rightarrow> nat \<Rightarrow> sack_ts_headers \<Rightarrow> sack_ts_headers \<Rightarrow> bool" where
  "sack_ts_ok m pkt dataoff a old h \<longleftrightarrow>
     (if \<exists>c. sack_visited m pkt dataoff a c
      then latest (sack_visited m pkt dataoff a) (unat (sackoff h)) \<and>
        unat (sacklen h) = tcp_optlen m pkt dataoff (unat (sackoff h))
      else sackoff h = sackoff old \<and> sacklen h = sacklen old) \<and>
     (if \<exists>c. ts_visited m pkt dataoff a c then latest (ts_visited m pkt dataoff a) (unat (tsoff h))
      else tsoff h = tsoff old)"

lemma tcp_opt_visited_unfold:
  "tcp_opt_visited m pkt dataoff a c \<longleftrightarrow>
     c = a \<or> (\<exists>b. tcp_opt_next m pkt dataoff a = Some b \<and> tcp_opt_visited m pkt dataoff b c)"
  by (subst tcp_opt_visited.simps) blast

lemma tcp_opt_visited_le: "tcp_opt_visited m pkt dataoff a c \<Longrightarrow> a \<le> c"
  by (induction rule: tcp_opt_visited.induct) (auto simp: tcp_opt_next_def split: if_splits)

lemma no_empty_option_next:
  "no_empty_option m pkt dataoff a \<Longrightarrow> tcp_opt_next m pkt dataoff a = Some b \<Longrightarrow> no_empty_option m pkt dataoff b"
  unfolding no_empty_option_def by (blast intro: tcp_opt_visited.further)

lemma visited_split:
  assumes "tcp_opt_next m pkt dataoff a = b"
  shows "sack_visited m pkt dataoff a c \<longleftrightarrow>
      (\<exists>b'. b = Some b' \<and> sack_visited m pkt dataoff b' c) \<or> (c = a \<and> a < dataoff \<and> m (pkt + a) = 5)"
    "ts_visited m pkt dataoff a c \<longleftrightarrow>
      (\<exists>b'. b = Some b' \<and> ts_visited m pkt dataoff b' c) \<or>
      (c = a \<and> a < dataoff \<and> m (pkt + a) = 8 \<and> tcp_optlen m pkt dataoff a = 10)"
  unfolding sack_visited_def ts_visited_def using assms tcp_opt_visited_unfold [of m pkt dataoff a c] by auto

text \<open>One round of the search: it ends where no option follows, and otherwise records the option.\<close>

definition sack_ts_record :: "mem \<Rightarrow> ptr \<Rightarrow> nat \<Rightarrow> nat \<Rightarrow> sack_ts_headers \<Rightarrow> sack_ts_headers" where
  "sack_ts_record m pkt dataoff c hdrs =
     (if m (pkt + c) = 5 then hdrs\<lparr>sacklen := of_nat (tcp_optlen m pkt dataoff c), sackoff := of_nat c\<rparr>
      else if m (pkt + c) = 8 \<and> tcp_optlen m pkt dataoff c = 10 then hdrs\<lparr>tsoff := of_nat c\<rparr> else hdrs)"

lemma tcp_find_sack_ts_loop_step:
  "tcp_find_sack_ts_loop m pkt dataoff c hdrs =
     (case tcp_opt_next m pkt dataoff c of
        None \<Rightarrow> Some hdrs
      | Some b \<Rightarrow> tcp_find_sack_ts_loop m pkt dataoff b (sack_ts_record m pkt dataoff c hdrs))"
  by (subst tcp_find_sack_ts_loop.simps) (auto simp: tcp_opt_next_def sack_ts_record_def Let_def not_less not_le)

lemma sack_ts_ok_end: "tcp_opt_next m pkt dataoff a = None \<Longrightarrow> sack_ts_ok m pkt dataoff a hdrs hdrs"
  unfolding sack_ts_ok_def
  by (auto simp: visited_split [of m pkt dataoff a None] tcp_opt_next_def split: if_splits)

lemma sack_ts_ok_step:
  assumes "tcp_opt_next m pkt dataoff a = Some b" "a < b" "dataoff \<le> 60"
    and "sack_ts_ok m pkt dataoff b (sack_ts_record m pkt dataoff a hdrs) h"
  shows "sack_ts_ok m pkt dataoff a hdrs h"
proof -
  have a: "a < dataoff" using assms(1) by (auto simp: tcp_opt_next_def split: if_splits)
  have u: "unat (of_nat k :: u8) = k" if "k \<le> dataoff" for k
    using that assms(3) by (simp add: unsigned_of_nat take_bit_nat_eq_self_iff)
  have l: "tcp_optlen m pkt dataoff a \<le> dataoff" using tcp_optlen_le [of a dataoff m pkt] a by simp
  have gt: "sack_visited m pkt dataoff b c \<Longrightarrow> a < c" "ts_visited m pkt dataoff b c \<Longrightarrow> a < c" for c
    using assms(2) tcp_opt_visited_le [of m pkt dataoff b c] by (auto simp: sack_visited_def ts_visited_def)
  have sp: "sack_visited m pkt dataoff a c \<longleftrightarrow> sack_visited m pkt dataoff b c \<or> c = a \<and> m (pkt + a) = 5"
    "ts_visited m pkt dataoff a c \<longleftrightarrow>
      ts_visited m pkt dataoff b c \<or> c = a \<and> m (pkt + a) = 8 \<and> tcp_optlen m pkt dataoff a = 10" for c
    using visited_split [OF assms(1), of c] a by auto
  note h = assms(4) [unfolded sack_ts_ok_def]
  have "if \<exists>c. sack_visited m pkt dataoff a c
      then latest (sack_visited m pkt dataoff a) (unat (sackoff h)) \<and>
        unat (sacklen h) = tcp_optlen m pkt dataoff (unat (sackoff h))
      else sackoff h = sackoff hdrs \<and> sacklen h = sacklen hdrs"
  proof (cases "\<exists>c. sack_visited m pkt dataoff b c")
    case True
    with h have "latest (sack_visited m pkt dataoff b) (unat (sackoff h))"
      "unat (sacklen h) = tcp_optlen m pkt dataoff (unat (sackoff h))" by simp_all
    then show ?thesis using gt(1) unfolding sp(1) latest_def by (auto intro: less_imp_le)
  next
    case False
    with h have "sackoff h = sackoff (sack_ts_record m pkt dataoff a hdrs)"
      "sacklen h = sacklen (sack_ts_record m pkt dataoff a hdrs)" by simp_all
    then show ?thesis using False a u [OF l] u [of a] unfolding sp(1) latest_def by (simp add: sack_ts_record_def)
  qed
  moreover have "if \<exists>c. ts_visited m pkt dataoff a c then latest (ts_visited m pkt dataoff a) (unat (tsoff h))
      else tsoff h = tsoff hdrs"
  proof (cases "\<exists>c. ts_visited m pkt dataoff b c")
    case True
    with h have "latest (ts_visited m pkt dataoff b) (unat (tsoff h))" by simp
    then show ?thesis using gt(2) unfolding sp(2) latest_def by (auto intro: less_imp_le)
  next
    case False
    with h have "tsoff h = tsoff (sack_ts_record m pkt dataoff a hdrs)" by simp
    then show ?thesis using False a u [of a] unfolding sp(2) latest_def by (simp add: sack_ts_record_def)
  qed
  ultimately show ?thesis by (simp add: sack_ts_ok_def)
qed

lemma tcp_find_sack_ts_loop_returns:
  assumes "no_empty_option m pkt dataoff curoff" "dataoff \<le> 60"
  shows "\<exists>h. tcp_find_sack_ts_loop m pkt dataoff curoff hdrs = Some h \<and> sack_ts_ok m pkt dataoff curoff hdrs h"
  using assms(1)
proof (induction "dataoff - curoff" arbitrary: curoff hdrs rule: less_induct)
  case less
  show ?case
  proof (cases "tcp_opt_next m pkt dataoff curoff")
    case None
    then show ?thesis using sack_ts_ok_end by (subst tcp_find_sack_ts_loop_step) simp
  next
    case (Some b)
    have "curoff < b" "curoff < dataoff"
      using Some less.prems tcp_opt_visited.here [of m pkt dataoff curoff]
      by (auto simp: tcp_opt_next_def tcp_optlen_def no_empty_option_def Let_def unsigned_eq_0_iff split: if_splits
          simp flip: neq0_conv)
    then show ?thesis
      using less.hyps [of b] no_empty_option_next [OF less.prems Some] sack_ts_ok_step [OF Some _ assms(2)] Some
      by (subst tcp_find_sack_ts_loop_step) fastforce
  qed
qed

lemma tcp_find_sack_ts_loop_empty:
  assumes "tcp_find_sack_ts_loop m pkt dataoff curoff hdrs = Some h"
  shows "\<not> (curoff + 1 < dataoff \<and> (m (pkt + curoff) = 5 \<or> m (pkt + curoff) = 8) \<and> m (pkt + (curoff + 1)) = 0)"
proof (rule tcp_find_sack_ts_loop.raw_induct [where P = "\<lambda>m pkt dataoff curoff hdrs h.
    \<not> (curoff + 1 < dataoff \<and> (m (pkt + curoff) = 5 \<or> m (pkt + curoff) = 8) \<and> m (pkt + (curoff + 1)) = 0)",
    OF _ assms], goal_cases)
  case (1 loop m pkt dataoff curoff hdrs h)
  show ?case
  proof
    assume z: "curoff + 1 < dataoff \<and> (m (pkt + curoff) = 5 \<or> m (pkt + curoff) = 8) \<and> m (pkt + (curoff + 1)) = 0"
    then have "tcp_optlen m pkt dataoff curoff = 0" by (simp add: tcp_optlen_def)
    with 1(2) z obtain hdrs' where "loop m pkt dataoff curoff hdrs' = Some h" by auto
    from 1(1) [OF this] z show False by simp
  qed
qed

lemma tcp_find_sack_ts_loop_visited:
  assumes "tcp_opt_visited m pkt dataoff a c" "tcp_find_sack_ts_loop m pkt dataoff a hdrs = Some h"
  shows "\<exists>hdrs'. tcp_find_sack_ts_loop m pkt dataoff c hdrs' = Some h"
  using assms
proof (induction arbitrary: hdrs rule: tcp_opt_visited.induct)
  case (further a b c)
  from further.prems further.hyps(1) further.IH show ?case by (subst (asm) tcp_find_sack_ts_loop_step) simp
qed blast

section \<open>Properties\<close>

text \<open>
  C10: The option parser inverts the encoder: on a header whose options are an encoded list of
  well-formed options, filling the header or followed by an end-of-list byte, it reports the
  options valid and exactly the values of the list.
\<close>

theorem tcp_parse_options_encode:
  assumes "mem_has m (tcp + 20) (concat (map opt_bytes opts))" "list_all opt_wf opts"
    and "unat (tcp_data_offset m tcp) = 20 + length (concat (map opt_bytes opts)) \<or>
      (20 + length (concat (map opt_bytes opts)) < unat (tcp_data_offset m tcp) \<and>
       m (tcp + (20 + length (concat (map opt_bytes opts)))) = 0)"
  shows "tcp_parse_options m tcp = (opts_info 20 opts tcp_information_init)\<lparr>options_valid := 1\<rparr>"
  using assms unfolding tcp_parse_options_def by (rule tcp_parse_options_loop_opts)

theorem tcp_parse_options_encode_witness:
  "let m = (\<lambda>_. 0)(12 := 0x80, 20 := 2, 21 := 4, 22 := 5, 23 := 0xB4, 24 := 1, 25 := 3, 26 := 3, 27 := 7,
       28 := 4, 29 := 2 :: u8)
   in mss (tcp_parse_options m 0) = 0x05B4 \<and> wscale (tcp_parse_options m 0) = 7 \<and>
      mssoff (tcp_parse_options m 0) = 20 \<and> sack_permitted (tcp_parse_options m 0) = 1"
  using tcp_parse_options_encode [of "(\<lambda>_. 0)(12 := 0x80, 20 := 2, 21 := 4, 22 := 5, 23 := 0xB4, 24 := 1,
      25 := 3, 26 := 3, 27 := 7, 28 := 4, 29 := 2 :: u8)" 0 "[Mss 0x05B4, Nop, Wscale 7, SackPermitted]"]
  by (simp add: mem_has_Cons be16_def nth_byte_def tcp_data_offset_def hdr_byte_simps)

text \<open>
  C26: Rewriting the MSS that the option parser reported keeps a verifying segment verifying:
  a reported offset always lies behind the fixed header, inside the options, on an MSS option
  with the reported value.
\<close>

theorem tcp_parse_then_set_mss:
  fixes v :: u16
  assumes "mssoff (tcp_parse_options m tcp) \<noteq> 0" "unat (tcp_data_offset m tcp) \<le> unat len"
    and "ip + 20 \<le> tcp" "tcp_cksum_calc m ip iplen tcp len = Some 0"
  defines "off \<equiv> unat (mssoff (tcp_parse_options m tcp))"
  shows "20 \<le> off \<and> off + 4 \<le> unat (tcp_data_offset m tcp) \<and> m (tcp + off) = 2 \<and>
    mss (tcp_parse_options m tcp) = hdr_get16n m (tcp + (off + 2)) \<and>
    tcp_cksum_calc (tcp_set_mss_cksum_update m tcp (tcp_parse_options m tcp) v) ip iplen tcp len = Some 0"
proof -
  have "mss_ok m tcp (unat (tcp_data_offset m tcp)) (tcp_parse_options m tcp)"
    unfolding tcp_parse_options_def
    by (rule tcp_parse_options_loop_mss_ok)
      (simp_all add: tcp_data_offset_le mss_ok_def tcp_information_init_def)
  with assms(1) have ok: "20 \<le> off" "off + 4 \<le> unat (tcp_data_offset m tcp)" "m (tcp + off) = 2"
    "mss (tcp_parse_options m tcp) = hdr_get16n m (tcp + (off + 2))"
    by (auto simp: mss_ok_def off_def)
  moreover have "seg_keeps m (tcp_set_mss_cksum_update m tcp (tcp_parse_options m tcp) v) tcp (unat len)"
    using ok assms(2) tcp_data_offset_le(2) [of m tcp]
    by (intro tcp_set_mss_keeps) (simp_all add: off_def)
  ultimately show ?thesis using tcp_verifies_keep [OF _ assms(3,4)] by blast
qed

definition sample_mss :: mem where
  "sample_mss = (\<lambda>_. 0)(32 := 0x60, 36 := 0x98, 37 := 0x29, 40 := 2, 41 := 4, 42 := 5, 43 := 0xB4)"

lemma sample_mss_ok:
  "unat (tcp_data_offset sample_mss 20) = 24" "tcp_cksum_calc sample_mss 0 20 20 24 = Some 0"
  "mssoff (tcp_parse_options sample_mss 20) = 20"
proof -
  show d: "unat (tcp_data_offset sample_mss 20) = 24"
    by (simp add: sample_mss_def tcp_data_offset_def hdr_byte_simps)
  have "mem_bytes sample_mss 20 24 = [0, 0, 0, 0, 0, 0, 0, 0, 0, 0, 0, 0, 0x60, 0, 0, 0, 0x98, 0x29, 0, 0, 2, 4, 5, 0xB4]"
    "mem_bytes sample_mss 12 8 = [0, 0, 0, 0, 0, 0, 0, 0]"
    by (simp_all add: mem_bytes_def upt_rec sample_mss_def)
  then show "tcp_cksum_calc sample_mss 0 20 20 24 = Some 0"
    by (simp add: tcp_cksum_calc_rfc1071 rfc1071_0_iff pseudo_hdr4_def nth_byte_def valid_sum_def)
  show "mssoff (tcp_parse_options sample_mss 20) = 20"
    unfolding tcp_parse_options_def d
    using tcp_parse_options_loop_opts [of sample_mss 20 20 "[Mss 0x05B4]" 24]
    by (simp add: mem_has_Cons be16_def nth_byte_def sample_mss_def)
qed

theorem tcp_parse_then_set_mss_witness:
  "tcp_cksum_calc (tcp_set_mss_cksum_update sample_mss 20 (tcp_parse_options sample_mss 20) 1400) 0 20 20 24 = Some 0"
  using tcp_parse_then_set_mss [of sample_mss 20 24 0 20 1400] by (simp add: sample_mss_ok)

text \<open>
  C27: Disabling the SACK option that \<^verbatim>\<open>tcp_find_sack_header\<close> found keeps a verifying segment
  verifying; the option found lies inside the options and the alignment flag is that of its offset.
\<close>

theorem tcp_find_then_disable_sack:
  assumes "tcp_find_sack_header m tcp = Some (sackhdr, l, align)"
    and "unat (tcp_data_offset m tcp) \<le> unat len" "ip + 20 \<le> tcp"
    and "tcp_cksum_calc m ip iplen tcp len = Some 0"
  shows "tcp + 20 \<le> sackhdr \<and> sackhdr + l \<le> tcp + unat (tcp_data_offset m tcp) \<and> m sackhdr = 5 \<and>
    tcp_cksum_calc (tcp_disable_sack_cksum_update m tcp sackhdr l align) ip iplen tcp len = Some 0"
proof -
  from tcp_find_sack_loop_bounds [OF assms(1) [unfolded tcp_find_sack_header_def]]
  obtain s where s: "sackhdr = tcp + s" "20 \<le> s" "s + l \<le> unat (tcp_data_offset m tcp)" "align = even s"
    "m sackhdr = 5" by auto
  have "seg_keeps m (tcp_disable_sack_cksum_update m tcp sackhdr l align) tcp (unat len)"
    unfolding s(1,4)
    by (rule tcp_disable_sack_keeps(1) [OF s(2,3) tcp_data_offset_le(2) assms(2)])
  then show ?thesis using s tcp_verifies_keep [OF _ assms(3,4)] by auto
qed

definition sample_sack :: mem where
  "sample_sack = (\<lambda>_. 0)(32 := 0x80, 36 := 0x79, 37 := 0xCE, 40 := 1, 41 := 1, 42 := 5, 43 := 10)"

lemma sample_sack_ok:
  "unat (tcp_data_offset sample_sack 20) = 32" "tcp_cksum_calc sample_sack 0 20 20 32 = Some 0"
  "tcp_find_sack_header sample_sack 20 = Some (42, 10, True)"
proof -
  show d: "unat (tcp_data_offset sample_sack 20) = 32"
    by (simp add: sample_sack_def tcp_data_offset_def hdr_byte_simps)
  have "mem_bytes sample_sack 20 32 = [0, 0, 0, 0, 0, 0, 0, 0, 0, 0, 0, 0, 0x80, 0, 0, 0, 0x79, 0xCE, 0, 0,
      1, 1, 5, 10, 0, 0, 0, 0, 0, 0, 0, 0]"
    "mem_bytes sample_sack 12 8 = [0, 0, 0, 0, 0, 0, 0, 0]"
    by (simp_all add: mem_bytes_def upt_rec sample_sack_def)
  then show "tcp_cksum_calc sample_sack 0 20 20 32 = Some 0"
    by (simp add: tcp_cksum_calc_rfc1071 rfc1071_0_iff pseudo_hdr4_def nth_byte_def valid_sum_def)
  show "tcp_find_sack_header sample_sack 20 = Some (42, 10, True)"
    unfolding tcp_find_sack_header_def d
    by (simp add: Let_def tcp_find_sack_loop.simps tcp_optlen_def sample_sack_def)
qed

theorem tcp_find_then_disable_sack_witness:
  "tcp_cksum_calc (tcp_disable_sack_cksum_update sample_sack 20 42 10 True) 0 20 20 32 = Some 0"
  using tcp_find_then_disable_sack [of sample_sack 20 42 10 True 32 0 20] by (simp add: sample_sack_ok)

text \<open>
  C28: The search for SACK and timestamp options returns on every header in which no SACK or
  timestamp option that it visits has the length 0.  It reports the last SACK option, with its
  length cut off at the end of the options, and the last timestamp option of length 10, with offsets
  inside the options; an offset is 0 exactly if there is no such option.
\<close>

theorem tcp_find_sack_ts_headers_returns:
  fixes m :: mem and tcp :: ptr
  defines "dataoff \<equiv> unat (tcp_data_offset m tcp)"
  assumes "no_empty_option m tcp dataoff 20"
  shows "\<exists>h. tcp_find_sack_ts_headers m tcp = Some h \<and>
    (if \<exists>c. sack_visited m tcp dataoff 20 c
     then latest (sack_visited m tcp dataoff 20) (unat (sackoff h)) \<and>
       unat (sacklen h) = tcp_optlen m tcp dataoff (unat (sackoff h)) \<and>
       20 \<le> unat (sackoff h) \<and> unat (sackoff h) + unat (sacklen h) \<le> dataoff
     else sackoff h = 0 \<and> sacklen h = 0) \<and>
    (if \<exists>c. ts_visited m tcp dataoff 20 c
     then latest (ts_visited m tcp dataoff 20) (unat (tsoff h)) \<and>
       20 \<le> unat (tsoff h) \<and> unat (tsoff h) + 10 \<le> dataoff
     else tsoff h = 0)"
proof -
  obtain h where h: "tcp_find_sack_ts_headers m tcp = Some h"
    "sack_ts_ok m tcp dataoff 20 \<lparr>sackoff = 0, sacklen = 0, tsoff = 0\<rparr> h"
    using tcp_find_sack_ts_loop_returns [OF assms(2)] tcp_data_offset_le(1) [of m tcp]
    unfolding tcp_find_sack_ts_headers_def dataoff_def by blast
  have s: "20 \<le> c \<and> c + tcp_optlen m tcp dataoff c \<le> dataoff" if "latest (sack_visited m tcp dataoff 20) c" for c
    using that tcp_opt_visited_le [of m tcp _ 20 c] tcp_optlen_le [of c dataoff m tcp]
    by (auto simp: latest_def sack_visited_def)
  have t: "20 \<le> c \<and> c + 10 \<le> dataoff" if "latest (ts_visited m tcp dataoff 20) c" for c
    using that tcp_opt_visited_le [of m tcp _ 20 c] tcp_optlen_le [of c dataoff m tcp]
    by (auto simp: latest_def ts_visited_def)
  show ?thesis
    using h s [of "unat (sackoff h)"] t [of "unat (tsoff h)"]
    by (intro exI [of _ h]) (simp add: sack_ts_ok_def split: if_splits)
qed

definition sample_sack_ts :: mem where
  "sample_sack_ts = (\<lambda>_. 0)(12 := 0xB0, 20 := 1, 21 := 1, 22 := 8, 23 := 10, 32 := 5, 33 := 10)"

theorem tcp_find_sack_ts_headers_returns_witness:
  "tcp_find_sack_ts_headers sample_sack_ts 0 = Some \<lparr>sackoff = 32, sacklen = 10, tsoff = 22\<rparr>"
proof -
  have d: "unat (tcp_data_offset sample_sack_ts 0) = 44"
    by (simp add: sample_sack_ts_def tcp_data_offset_def hdr_byte_simps)
  have v: "tcp_opt_visited sample_sack_ts 0 44 20 c \<longleftrightarrow> c \<in> {20, 21, 22, 32, 42}" for c
    by (simp add: tcp_opt_visited_unfold [of _ _ _ 20] tcp_opt_visited_unfold [of _ _ _ 21]
        tcp_opt_visited_unfold [of _ _ _ 22] tcp_opt_visited_unfold [of _ _ _ 32] tcp_opt_visited_unfold [of _ _ _ 42]
        tcp_opt_next_def tcp_optlen_def sample_sack_ts_def)
  have s: "sack_visited sample_sack_ts 0 44 20 c \<longleftrightarrow> c = 32" "ts_visited sample_sack_ts 0 44 20 c \<longleftrightarrow> c = 22" for c
    unfolding sack_visited_def ts_visited_def v by (auto simp: tcp_optlen_def sample_sack_ts_def)
  have "no_empty_option sample_sack_ts 0 44 20"
    unfolding no_empty_option_def v by (auto simp: sample_sack_ts_def)
  with tcp_find_sack_ts_headers_returns [of sample_sack_ts 0] obtain h where
    "tcp_find_sack_ts_headers sample_sack_ts 0 = Some h" "unat (sackoff h) = 32" "unat (tsoff h) = 22"
    "unat (sacklen h) = tcp_optlen sample_sack_ts 0 44 32"
    by (auto simp: d s latest_def)
  moreover have "tcp_optlen sample_sack_ts 0 44 32 = 10" by (simp add: tcp_optlen_def sample_sack_ts_def)
  ultimately show ?thesis
    by (cases h) (auto simp: word_unat_eq_iff)
qed

text \<open>
  C29: The search never returns on a header in which a SACK or timestamp option that it visits, at
  any position and with a length byte inside the header, has the length 0: the offset does not advance.
\<close>

theorem tcp_find_sack_ts_headers_diverges:
  assumes "tcp_opt_visited m tcp (unat (tcp_data_offset m tcp)) 20 c" "c + 1 < unat (tcp_data_offset m tcp)"
    and "m (tcp + c) = 5 \<or> m (tcp + c) = 8" "m (tcp + (c + 1)) = 0"
  shows "tcp_find_sack_ts_headers m tcp = None"
proof (rule ccontr)
  assume "tcp_find_sack_ts_headers m tcp \<noteq> None"
  then obtain h where "tcp_find_sack_ts_headers m tcp = Some h" by blast
  with tcp_find_sack_ts_loop_visited [OF assms(1)] obtain hdrs'
    where "tcp_find_sack_ts_loop m tcp (unat (tcp_data_offset m tcp)) c hdrs' = Some h"
    unfolding tcp_find_sack_ts_headers_def by blast
  from tcp_find_sack_ts_loop_empty [OF this] assms(2-4) show False by simp
qed

theorem tcp_find_sack_ts_headers_diverges_witness:
  "tcp_find_sack_ts_headers ((\<lambda>_. 0)(12 := 0x70, 20 := 1, 21 := 8)) 0 = None"
  by (rule tcp_find_sack_ts_headers_diverges [of _ _ 21])
    (simp_all add: tcp_opt_visited_unfold [of _ _ _ 20 21] tcp_opt_visited.here tcp_opt_next_def
      tcp_data_offset_def hdr_byte_simps)

end
