(* ===== verification/Packet.thy ===== *)
theory Packet
  imports IpCksum
begin

text \<open>
  Packets of \<^verbatim>\<open>src/packet/packet.h\<close> and the allocator interface of \<^verbatim>\<open>src/alloc/allocif.h\<close>.
  A packet is an object of its own: its data is a memory that starts at address \<open>0\<close> and has
  \<open>sz\<close> bytes.  Copies between objects check both bounds, so that an access outside a block is
  the fault \<open>OutOfBounds\<close>; \<^verbatim>\<open>abort()\<close> and the use of a null pointer are faults too.
\<close>

section \<open>Faults\<close>

datatype fault = Abort | NullDeref | OutOfBounds

type_synonym 'a outcome = "fault + 'a"

definition and_then :: "'a outcome \<Rightarrow> ('a \<Rightarrow> 'b outcome) \<Rightarrow> 'b outcome" where
  "and_then r f = (case r of Inl e \<Rightarrow> Inl e | Inr x \<Rightarrow> f x)"

definition or_abort :: "'a option \<Rightarrow> 'a outcome" where
  "or_abort r = (case r of None \<Rightarrow> Inl Abort | Some x \<Rightarrow> Inr x)"

lemma and_then_simps [simp]:
  "and_then (Inl e) f = Inl e" "and_then (Inr x) f = f x"
  by (simp_all add: and_then_def)

lemma or_abort_simps [simp]:
  "or_abort None = Inl Abort" "or_abort (Some x) = Inr x"
  by (simp_all add: or_abort_def)

lemma and_then_Inr_iff: "and_then r f = Inr y \<longleftrightarrow> (\<exists>x. r = Inr x \<and> f x = Inr y)"
  by (cases r) simp_all

section \<open>Packets\<close>

datatype packet_direction = PACKET_DIRECTION_UPLINK | PACKET_DIRECTION_DOWNLINK

record hole =
  hole_first :: u16
  hole_last :: u16

record packet =
  direction :: packet_direction
  sz :: nat
  data :: mem

text \<open>
  The size of the header that precedes the data in one block, on a 64-bit target: the list
  node, the union of the reassembly bookkeeping, the direction, the size and the data pointer.
\<close>

definition sizeof_packet :: nat where
  "sizeof_packet = 80"

definition packet_size :: "nat \<Rightarrow> nat" where
  "packet_size n = n + sizeof_packet"

text \<open>\<^verbatim>\<open>packet_calc_data\<close>: the data of a fresh block starts right after the header.\<close>

definition packet_calc_data :: ptr where
  "packet_calc_data = 0"

text \<open>\<^verbatim>\<open>memcpy\<close> from one object of \<open>ssz\<close> bytes to another of \<open>dsz\<close> bytes.\<close>

definition memcpy_obj :: "mem \<Rightarrow> nat \<Rightarrow> ptr \<Rightarrow> mem \<Rightarrow> nat \<Rightarrow> ptr \<Rightarrow> nat \<Rightarrow> mem outcome" where
  "memcpy_obj dst dsz d src ssz s n =
     (if d + n \<le> dsz \<and> s + n \<le> ssz
      then Inr (\<lambda>a. if d \<le> a \<and> a < d + n then src (s + (a - d)) else dst a)
      else Inl OutOfBounds)"

lemma memcpy_obj_ok:
  "d + n \<le> dsz \<Longrightarrow> s + n \<le> ssz \<Longrightarrow>
     memcpy_obj dst dsz d src ssz s n = Inr (\<lambda>a. if d \<le> a \<and> a < d + n then src (s + (a - d)) else dst a)"
  by (simp add: memcpy_obj_def)

section \<open>Allocators\<close>

text \<open>
  \<^verbatim>\<open>struct allocif\<close>: a table of two functions and their private state \<open>'s\<close>.  A fresh block
  has whatever contents the allocator returns; a null pointer is \<open>None\<close>.
\<close>

record 's allocif =
  alloc_op :: "'s \<Rightarrow> nat \<Rightarrow> packet option \<times> 's"
  free_op :: "'s \<Rightarrow> packet \<Rightarrow> 's"

definition allocif_alloc :: "'s allocif \<Rightarrow> 's \<Rightarrow> nat \<Rightarrow> packet option \<times> 's" where
  "allocif_alloc intf s n = alloc_op intf s n"

definition allocif_free :: "'s allocif \<Rightarrow> 's \<Rightarrow> packet \<Rightarrow> 's" where
  "allocif_free intf s block = free_op intf s block"

text \<open>An allocator that never fails.\<close>

definition total_alloc :: "'s allocif \<Rightarrow> bool" where
  "total_alloc intf \<longleftrightarrow> (\<forall>s n. fst (allocif_alloc intf s n) \<noteq> None)"

lemma total_allocE:
  assumes "total_alloc intf"
  obtains p s' where "allocif_alloc intf s n = (Some p, s')"
  using assms unfolding total_alloc_def by (metis option.exhaust prod.collapse)

text \<open>Blocks cleared on allocation, with a count of the blocks in use.\<close>

definition zero_alloc :: "nat allocif" where
  "zero_alloc = \<lparr>alloc_op = \<lambda>s n. (Some \<lparr>direction = PACKET_DIRECTION_UPLINK, sz = 0, data = \<lambda>_. 0\<rparr>, s + 1),
     free_op = \<lambda>s b. s - 1\<rparr>"

lemma total_zero_alloc: "total_alloc zero_alloc"
  by (simp add: total_alloc_def zero_alloc_def allocif_alloc_def)

section \<open>Fragment headers\<close>

text \<open>
  The calls that turn the header at \<open>ip\<close> into the header of a fragment, in the order that
  \<^verbatim>\<open>fragment4\<close> and the reassembly functions share.
\<close>

definition set_frag_hdr :: "mem \<Rightarrow> ptr \<Rightarrow> u16 \<Rightarrow> cint \<Rightarrow> u16 \<Rightarrow> u16 \<Rightarrow> mem option" where
  "set_frag_hdr m ip frag_off more_frags total_len hdr_len =
     do { m \<leftarrow> ip_set_frag_off m ip frag_off;
          let m = ip_set_more_frags m ip more_frags;
          let m = ip_set_total_len m ip total_len;
          ip_set_hdr_cksum_calc m ip hdr_len }"

lemma ip_field_frames:
  assumes "\<And>i. i \<noteq> 10 \<Longrightarrow> i \<noteq> 11 \<Longrightarrow> m' (ip + i) = m (ip + i)"
  shows "ip_frag_off m' ip = ip_frag_off m ip" "ip_more_frags m' ip = ip_more_frags m ip"
    "ip_dont_frag m' ip = ip_dont_frag m ip" "ip_rsvd_bit m' ip = ip_rsvd_bit m ip"
    "ip_total_len m' ip = ip_total_len m ip" "ip_hdr_len m' ip = ip_hdr_len m ip"
  using assms [of 0] assms [of 2] assms [of 3] assms [of 6] assms [of 7]
  by (simp_all add: field_defs hdr_simps add.commute [of ip] del: add_2_eq_Suc add_2_eq_Suc')

lemma set_frag_hdr_ok:
  assumes "20 \<le> unat (ip_hdr_len m ip)" "frag_off mod 8 = 0"
  obtains m' where "set_frag_hdr m ip frag_off mf tlen (ucast (ip_hdr_len m ip)) = Some m'"
    "ip_frag_off m' ip = frag_off" "ip_more_frags m' ip \<noteq> 0 \<longleftrightarrow> mf \<noteq> 0"
    "ip_dont_frag m' ip = ip_dont_frag m ip" "ip_rsvd_bit m' ip = ip_rsvd_bit m ip"
    "ip_total_len m' ip = tlen" "ip_hdr_len m' ip = ip_hdr_len m ip"
    "ip_hdr_cksum_calc m' ip (ucast (ip_hdr_len m ip)) = Some 0"
    "ip_hdr_cksum m' ip \<noteq> 0xFFFF"
    "\<And>a. a \<notin> {ip + 2, ip + 3, ip + 6, ip + 7, ip + 10, ip + 11} \<Longrightarrow> m' a = m a"
proof -
  obtain d1 where d1: "ip_set_frag_off m ip frag_off = Some d1" "ip_frag_off d1 ip = frag_off"
    "ip_dont_frag d1 ip = ip_dont_frag m ip" "ip_rsvd_bit d1 ip = ip_rsvd_bit m ip"
    "\<And>a. a \<noteq> ip + 6 \<Longrightarrow> a \<noteq> ip + 7 \<Longrightarrow> d1 a = m a"
    using ip_set_frag_off_correct [OF assms(2), of m ip] by blast
  define d2 where "d2 = ip_set_more_frags d1 ip mf"
  define d3 where "d3 = ip_set_total_len d2 ip tlen"
  have d2: "ip_frag_off d2 ip = frag_off" "ip_more_frags d2 ip \<noteq> 0 \<longleftrightarrow> mf \<noteq> 0"
    "ip_dont_frag d2 ip = ip_dont_frag m ip" "ip_rsvd_bit d2 ip = ip_rsvd_bit m ip"
    "\<And>a. a \<noteq> ip + 6 \<Longrightarrow> a \<noteq> ip + 7 \<Longrightarrow> d2 a = m a"
    using d1 by (simp_all add: d2_def ip_set_more_frags_correct, simp add: ip_set_more_frags_bit)
  have d3a: "d3 a = d2 a" if "a \<noteq> ip + 2" "a \<noteq> ip + 3" for a
    using that by (simp add: d3_def ip_set_total_len_def hdr_set16n_apply)
  have d3: "ip_frag_off d3 ip = frag_off" "ip_more_frags d3 ip = ip_more_frags d2 ip"
    "ip_dont_frag d3 ip = ip_dont_frag m ip" "ip_rsvd_bit d3 ip = ip_rsvd_bit m ip"
    "ip_total_len d3 ip = tlen"
    using d2 d3a [of "ip + 6"] d3a [of "ip + 7"]
    by (simp_all add: field_defs hdr_simps) (simp_all add: d3_def field_defs hdr_simps)
  have "d3 ip = m ip" using d3a [of ip] d2(5) [of ip] by simp
  then have hl: "ip_hdr_len d3 ip = ip_hdr_len m ip" by (simp add: ip_hdr_len_def hdr_simps)
  obtain m' where m': "ip_set_hdr_cksum_calc d3 ip (ucast (ip_hdr_len m ip)) = Some m'"
    "ip_hdr_cksum_calc m' ip (ucast (ip_hdr_len m ip)) = Some 0" "\<forall>a. a = ip + 10 \<or> a = ip + 11 \<or> m' a = d3 a"
    "ip_hdr_cksum m' ip \<noteq> 0xFFFF"
    using ip_set_hdr_cksum_calc_ok [of d3 ip "ucast (ip_hdr_len m ip)"] assms(1) hl by auto
  have fr: "m' (ip + i) = d3 (ip + i)" if "i \<noteq> 10" "i \<noteq> 11" for i
    using m'(3) [rule_format, of "ip + i"] that by auto
  note f = ip_field_frames [of m' ip d3, OF fr]
  show ?thesis
  proof (rule that)
    show "set_frag_hdr m ip frag_off mf tlen (ucast (ip_hdr_len m ip)) = Some m'"
      using d1(1) m'(1) by (simp add: set_frag_hdr_def d2_def d3_def Let_def)
    show "m' a = m a" if "a \<notin> {ip + 2, ip + 3, ip + 6, ip + 7, ip + 10, ip + 11}" for a
      using that m'(3) [rule_format, of a] d3a [of a] d2(5) [of a] by auto
  qed (use f d3 d2 m' hl in simp_all)
qed

end
