(* ===== verification/IpFrag.thy ===== *)
theory IpFrag
  imports Packet
begin

text \<open>
  IPv4 fragmentation, \<^verbatim>\<open>src/ipfrag/ipfrag.c\<close>.  The caller gives a packet and the list of the
  fragments it wants, each a start and a length; the code checks them, allocates one packet
  per fragment and writes its header and payload.  The lemmas give the result on every path:
  the fields and the bytes of each fragment, the requests that are refused by \<^verbatim>\<open>abort()\<close>, and
  what happens when the allocator fails.
\<close>

section \<open>Model\<close>

record fragment =
  datastart :: u16
  datalen :: u16
  frag_pkt :: "packet option"

text \<open>The first loop: \<open>False\<close> when one of the checks aborts.\<close>

fun fragment4_check :: "u16 \<Rightarrow> fragment list \<Rightarrow> bool" where
  "fragment4_check datamax [] = True"
| "fragment4_check datamax (f # fs) =
     (if datastart f mod 8 \<noteq> 0 then False
      else if datastart f > datamax then False
      else if unat (datastart f) + unat (datalen f) > unat datamax then False
      else if frag_pkt f \<noteq> None then False
      else fragment4_check datamax fs)"

text \<open>The statement \<^verbatim>\<open>pkt->data = packet_calc_data(pkt)\<close>: a write through a null pointer is a fault.\<close>

definition set_packet_data :: "packet option \<Rightarrow> packet option outcome" where
  "set_packet_data pkt = (case pkt of None \<Rightarrow> Inl NullDeref | Some p \<Rightarrow> Inr (Some p))"

text \<open>
  The second loop.  The data pointer of the new packet is written before the pointer is compared
  with \<^verbatim>\<open>NULL\<close>.  When the comparison finds a null pointer, the inner loop frees the packets of the
  earlier fragments, the latest first, and the call returns \<^verbatim>\<open>-ENOMEM\<close>; the result of the loop is
  the value to return, 0 when it ended normally.  The Linux value of \<^verbatim>\<open>ENOMEM\<close> is 12.
\<close>

definition enomem :: cint where
  "enomem = 12"

fun fragment4_alloc :: "'s allocif \<Rightarrow> 's \<Rightarrow> u8 \<Rightarrow> fragment list \<Rightarrow> (cint \<times> fragment list \<times> 's) outcome" where
  "fragment4_alloc loc s iphdrlen [] = Inr (0, [], s)"
| "fragment4_alloc loc s iphdrlen (f # fs) =
     (case allocif_alloc loc s (packet_size (ETHER_HDR_LEN + unat iphdrlen + unat (datalen f))) of
        (pkt, s) \<Rightarrow> and_then (set_packet_data pkt) (\<lambda>pkt.
          case pkt of
            None \<Rightarrow> Inr (- enomem, f\<lparr>frag_pkt := None\<rparr> # fs, s)
          | Some p \<Rightarrow> and_then (fragment4_alloc loc s iphdrlen fs) (\<lambda>(rc, fs, s).
              Inr (rc, f\<lparr>frag_pkt := Some p\<rparr> # fs, if rc = 0 then s else allocif_free loc s p))))"

text \<open>The body of the third loop: header and payload of one fragment.\<close>

definition fragment4_fill1 :: "mem \<Rightarrow> u16 \<Rightarrow> u8 \<Rightarrow> ptr \<Rightarrow> u16 \<Rightarrow> fragment \<Rightarrow> fragment outcome" where
  "fragment4_fill1 pkt psz iphdrlen cpay datamax f =
     (case frag_pkt f of
        None \<Rightarrow> Inl NullDeref
      | Some p \<Rightarrow>
          (let ether2 = packet_calc_data;
               p = p\<lparr>sz := ETHER_HDR_LEN + unat iphdrlen + unat (datalen f)\<rparr>;
               ip2 = ether_payload ether2;
               more = (if unat (datastart f) + unat (datalen f) < unat datamax then 1 else 0)
           in and_then (memcpy_obj (data p) (sz p) ether2 pkt (unat psz) 0 (ETHER_HDR_LEN + unat iphdrlen)) (\<lambda>d.
              and_then (or_abort (set_frag_hdr d ip2 (datastart f) more (ucast iphdrlen + datalen f) (ucast iphdrlen))) (\<lambda>d.
              let pay2 = ip_payload d ip2
              in and_then (memcpy_obj d (sz p) pay2 pkt (unat psz) (cpay + unat (datastart f)) (unat (datalen f))) (\<lambda>d.
                 Inr (f\<lparr>frag_pkt := Some (p\<lparr>data := d\<rparr>)\<rparr>))))))"

fun fragment4_fill :: "mem \<Rightarrow> u16 \<Rightarrow> u8 \<Rightarrow> ptr \<Rightarrow> u16 \<Rightarrow> fragment list \<Rightarrow> fragment list outcome" where
  "fragment4_fill pkt psz iphdrlen cpay datamax [] = Inr []"
| "fragment4_fill pkt psz iphdrlen cpay datamax (f # fs) =
     and_then (fragment4_fill1 pkt psz iphdrlen cpay datamax f) (\<lambda>f.
     and_then (fragment4_fill pkt psz iphdrlen cpay datamax fs) (\<lambda>fs. Inr (f # fs)))"

definition fragment4 ::
  "'s allocif \<Rightarrow> 's \<Rightarrow> mem \<Rightarrow> u16 \<Rightarrow> fragment list \<Rightarrow> (cint \<times> fragment list \<times> 's) outcome" where
  "fragment4 loc s pkt psz frags =
     (let ether = 0;
          ip = ether_const_payload ether;
          iphdrlen = ip_hdr_len pkt ip
      in if ether_type pkt ether \<noteq> ETHER_TYPE_IP then Inl Abort
         else if ip_version pkt ip \<noteq> 4 then Inl Abort
         else if iphdrlen < 20 then Inl Abort
         else if ETHER_HDR_LEN + unat iphdrlen > unat psz then Inl Abort
         else if ip_dont_frag pkt ip \<noteq> 0 then Inl Abort
         else if ip_more_frags pkt ip \<noteq> 0 then Inl Abort
         else if ip_frag_off pkt ip \<noteq> 0 then Inl Abort
         else and_then (or_abort (ip_hdr_cksum_calc pkt ip (ucast iphdrlen))) (\<lambda>cksum.
           if cksum \<noteq> 0 then Inl Abort
           else let cpay = ip_const_payload pkt ip;
                    datamax = psz - 14 - ucast iphdrlen
                in if \<not> fragment4_check datamax frags then Inl Abort
                   else and_then (fragment4_alloc loc s iphdrlen frags) (\<lambda>(rc, frags, s).
                        if rc \<noteq> 0 then Inr (rc, frags, s)
                        else and_then (fragment4_fill pkt psz iphdrlen cpay datamax frags) (\<lambda>frags.
                             Inr (0, frags, s)))))"

section \<open>Specification\<close>

text \<open>A frame of \<open>psz\<close> bytes that may be fragmented.\<close>

definition fragmentable :: "mem \<Rightarrow> nat \<Rightarrow> bool" where
  "fragmentable pkt psz \<longleftrightarrow>
     ether_type pkt 0 = ETHER_TYPE_IP \<and> ip_version pkt 14 = 4 \<and> 20 \<le> unat (ip_hdr_len pkt 14) \<and>
     14 + unat (ip_hdr_len pkt 14) \<le> psz \<and> ip_dont_frag pkt 14 = 0 \<and> ip_more_frags pkt 14 = 0 \<and>
     ip_frag_off pkt 14 = 0 \<and> ip_hdr_cksum_calc pkt 14 (ucast (ip_hdr_len pkt 14)) = Some 0"

text \<open>A request for bytes of a payload of \<open>n\<close> bytes, with no packet yet.\<close>

definition request_ok :: "nat \<Rightarrow> fragment \<Rightarrow> bool" where
  "request_ok n f \<longleftrightarrow> datastart f mod 8 = 0 \<and> unat (datastart f) + unat (datalen f) \<le> n \<and> frag_pkt f = None"

text \<open>The packet of a fragment: its fields, its header bytes and its payload.\<close>

definition fragment_packet :: "mem \<Rightarrow> nat \<Rightarrow> u16 \<Rightarrow> u16 \<Rightarrow> packet \<Rightarrow> bool" where
  "fragment_packet pkt n start len p \<longleftrightarrow>
     (let h = 14 + unat (ip_hdr_len pkt 14)
      in sz p = h + unat len \<and>
         ip_hdr_len (data p) 14 = ip_hdr_len pkt 14 \<and>
         unat (ip_total_len (data p) 14) = unat (ip_hdr_len pkt 14) + unat len \<and>
         ip_frag_off (data p) 14 = start \<and>
         (ip_more_frags (data p) 14 \<noteq> 0 \<longleftrightarrow> unat start + unat len < n) \<and>
         ip_dont_frag (data p) 14 = ip_dont_frag pkt 14 \<and> ip_rsvd_bit (data p) 14 = ip_rsvd_bit pkt 14 \<and>
         ip_hdr_cksum_calc (data p) 14 (ucast (ip_hdr_len pkt 14)) = Some 0 \<and>
         (\<forall>a < h. a \<in> {16, 17, 20, 21, 24, 25} \<or> data p a = pkt a) \<and>
         (\<forall>i < unat len. data p (h + i) = pkt (h + unat start + i)))"

definition fragment_of :: "mem \<Rightarrow> nat \<Rightarrow> fragment \<Rightarrow> fragment \<Rightarrow> bool" where
  "fragment_of pkt n f f' \<longleftrightarrow> datastart f' = datastart f \<and> datalen f' = datalen f \<and>
     (\<exists>p. frag_pkt f' = Some p \<and> fragment_packet pkt n (datastart f) (datalen f) p)"

section \<open>Correctness\<close>

lemma fragment4_check_iff: "fragment4_check datamax fs \<longleftrightarrow> list_all (request_ok (unat datamax)) fs"
  by (induction fs) (auto simp: request_ok_def word_less_nat_alt word_le_nat_alt not_less)

lemma fragment4_alloc_total:
  assumes "total_alloc loc"
  shows "\<exists>fs' s'. fragment4_alloc loc s ihl fs = Inr (0, fs', s') \<and>
    list_all2 (\<lambda>f f'. \<exists>p. f' = f\<lparr>frag_pkt := Some p\<rparr>) fs fs'"
proof (induction fs arbitrary: s)
  case (Cons f fs)
  obtain p s1 where 1: "allocif_alloc loc s (packet_size (14 + unat ihl + unat (datalen f))) = (Some p, s1)"
    using total_allocE [OF assms] by blast
  obtain fs' s' where "fragment4_alloc loc s1 ihl fs = Inr (0, fs', s')"
    "list_all2 (\<lambda>f f'. \<exists>p. f' = f\<lparr>frag_pkt := Some p\<rparr>) fs fs'"
    using Cons.IH [of s1] by blast
  with 1 show ?case by (auto simp: set_packet_data_def)
qed simp

text \<open>The length of the payload as the code computes it does not wrap.\<close>

lemma unat_datamax:
  fixes psz :: u16 and ihl :: u8
  assumes "14 + unat ihl \<le> unat psz"
  shows "unat (psz - 14 - ucast ihl) = unat psz - 14 - unat ihl"
proof -
  have "unat (psz - 14) = unat psz - 14" using assms by (simp add: unat_sub word_le_nat_alt)
  moreover have "(ucast ihl :: u16) \<le> psz - 14" using assms calculation by (simp add: word_le_nat_alt)
  ultimately show ?thesis by (simp add: unat_sub)
qed

lemma unat_total_len:
  fixes psz len :: u16 and ihl :: u8
  assumes "14 + unat ihl + unat len \<le> unat psz"
  shows "unat (ucast ihl + len) = unat ihl + unat len"
  using assms unat_u16_less [of psz] by (simp add: unat_word_ariths)

lemma fragment4_fill1_ok:
  fixes pkt and psz :: u16
  defines "ihl \<equiv> ip_hdr_len pkt 14"
  defines "n \<equiv> unat psz - 14 - unat ihl"
  assumes "fragmentable pkt (unat psz)" "request_ok n f"
  shows "\<exists>f'. fragment4_fill1 pkt psz ihl (14 + unat ihl) (psz - 14 - ucast ihl) (f\<lparr>frag_pkt := Some p0\<rparr>) = Inr f' \<and>
    fragment_of pkt n f f'"
proof -
  let ?h = "14 + unat ihl" and ?len = "unat (datalen f)"
  have hs: "20 \<le> unat ihl" "?h \<le> unat psz" using assms(3) by (simp_all add: fragmentable_def ihl_def)
  have al: "datastart f mod 8 = 0" and fit: "unat (datastart f) + ?len \<le> n"
    using assms(4) by (simp_all add: request_ok_def)
  have dm: "unat (psz - 14 - ucast ihl) = n" using hs unat_datamax [of ihl psz] by (simp add: n_def)
  have tot: "unat (ucast ihl + datalen f) = unat ihl + ?len"
    using unat_total_len [of ihl "datalen f" psz] fit hs by (simp add: n_def)
  define d where "d = (\<lambda>a. if a < ?h then pkt a else data p0 a)"
  have hd: "ip_hdr_len d 14 = ihl" using hs by (simp add: d_def ihl_def ip_hdr_len_def hdr_simps)
  define more :: cint where "more = (if unat (datastart f) + ?len < n then 1 else 0)"
  obtain e where e: "set_frag_hdr d 14 (datastart f) more (ucast ihl + datalen f) (ucast ihl) = Some e"
    "ip_frag_off e 14 = datastart f" "ip_more_frags e 14 \<noteq> 0 \<longleftrightarrow> more \<noteq> 0"
    "ip_dont_frag e 14 = ip_dont_frag d 14" "ip_rsvd_bit e 14 = ip_rsvd_bit d 14"
    "ip_total_len e 14 = ucast ihl + datalen f" "ip_hdr_len e 14 = ihl"
    "ip_hdr_cksum_calc e 14 (ucast ihl) = Some 0"
    "\<And>a. a \<notin> {14 + 2, 14 + 3, 14 + 6, 14 + 7, 14 + 10, 14 + 11} \<Longrightarrow> e a = d a"
    using set_frag_hdr_ok [of d 14 "datastart f" more "ucast ihl + datalen f"] hs al unfolding hd by metis
  define g where "g = (\<lambda>a. if ?h \<le> a \<and> a < ?h + ?len then pkt (?h + unat (datastart f) + (a - ?h)) else e a)"
  have ge: "g a = e a" if "a < ?h" for a using that by (simp add: g_def)
  have bytes: "mem_bytes g 14 (unat ihl) = mem_bytes e 14 (unat ihl)"
    by (rule mem_bytes_cong) (simp add: mem_agree_def ge)
  have hdrs: "g a = e a" if "a < 34" for a using that hs ge by simp
  have flds: "ip_frag_off g 14 = ip_frag_off e 14" "ip_more_frags g 14 = ip_more_frags e 14"
    "ip_dont_frag g 14 = ip_dont_frag d 14" "ip_rsvd_bit g 14 = ip_rsvd_bit d 14"
    "ip_total_len g 14 = ip_total_len e 14" "ip_hdr_len g 14 = ihl"
    using e(4,5,7) by (simp_all add: field_defs hdr_simps hdrs)
  have dflds: "ip_dont_frag d 14 = ip_dont_frag pkt 14" "ip_rsvd_bit d 14 = ip_rsvd_bit pkt 14"
    using hs by (simp_all add: field_defs hdr_simps d_def)
  have ck: "ip_hdr_cksum_calc g 14 (ucast ihl) = Some 0"
    using e(8) by (simp add: ip_hdr_cksum_calc_rfc1071 flds e(7) bytes)
  have mf: "more \<noteq> 0 \<longleftrightarrow> unat (datastart f) + ?len < n" by (simp add: more_def)
  have hb: "\<forall>a < ?h. a \<in> {16, 17, 20, 21, 24, 25} \<or> g a = pkt a"
  proof (intro allI impI)
    fix a assume "a < ?h"
    then show "a \<in> {16, 17, 20, 21, 24, 25} \<or> g a = pkt a"
      using e(9) [of a] ge [of a] by (auto simp: d_def)
  qed
  have py: "\<forall>i < ?len. g (?h + i) = pkt (?h + unat (datastart f) + i)"
    by (simp add: g_def)
  have c1: "memcpy_obj (data p0) (?h + ?len) 0 pkt (unat psz) 0 ?h = Inr d"
    using hs by (auto simp: memcpy_obj_def d_def fun_eq_iff)
  have c2: "memcpy_obj e (?h + ?len) ?h pkt (unat psz) (?h + unat (datastart f)) ?len = Inr g"
    using hs fit by (auto simp: memcpy_obj_def g_def n_def fun_eq_iff)
  have "fragment4_fill1 pkt psz ihl ?h (psz - 14 - ucast ihl) (f\<lparr>frag_pkt := Some p0\<rparr>) =
      Inr (f\<lparr>frag_pkt := Some (p0\<lparr>sz := ?h + ?len, data := g\<rparr>)\<rparr>)"
    using c1 c2 e(1)
    by (simp add: fragment4_fill1_def packet_calc_data_def ether_payload_def Let_def dm
        more_def [symmetric] ip_payload_def e(7))
  moreover have "fragment_packet pkt n (datastart f) (datalen f) (p0\<lparr>sz := ?h + ?len, data := g\<rparr>)"
    unfolding fragment_packet_def Let_def ihl_def [symmetric]
    using e(2,3,6) ck tot mf hb py by (simp add: flds dflds)
  ultimately show ?thesis by (simp add: fragment_of_def)
qed

lemma fragment4_fill_ok:
  fixes pkt and psz :: u16
  defines "ihl \<equiv> ip_hdr_len pkt 14"
  defines "n \<equiv> unat psz - 14 - unat ihl"
  assumes "fragmentable pkt (unat psz)" "list_all (request_ok n) fs"
    and "list_all2 (\<lambda>f f'. \<exists>p. f' = f\<lparr>frag_pkt := Some p\<rparr>) fs gs"
  shows "\<exists>fs'. fragment4_fill pkt psz ihl (14 + unat ihl) (psz - 14 - ucast ihl) gs = Inr fs' \<and>
    list_all2 (fragment_of pkt n) fs fs'"
  using assms(5,4)
proof (induction rule: list_all2_induct)
  case (Cons f fs g gs)
  then obtain p where g: "g = f\<lparr>frag_pkt := Some p\<rparr>" by blast
  obtain f' where "fragment4_fill1 pkt psz ihl (14 + unat ihl) (psz - 14 - ucast ihl) g = Inr f'"
    "fragment_of pkt n f f'"
    using fragment4_fill1_ok [OF assms(3), of f p] Cons.prems unfolding g ihl_def n_def by auto
  with Cons show ?case by auto
qed simp

text \<open>The write through the pointer comes first, so the check for a null pointer never succeeds.\<close>

lemma fragment4_alloc_cases:
  "case fragment4_alloc loc s ihl fs of Inl e \<Rightarrow> e = NullDeref
   | Inr (rc, gs, s') \<Rightarrow> rc = 0 \<and> list_all2 (\<lambda>f f'. \<exists>p. f' = f\<lparr>frag_pkt := Some p\<rparr>) fs gs"
proof (induction fs arbitrary: s)
  case (Cons f fs)
  obtain r s1 where a: "allocif_alloc loc s (packet_size (14 + unat ihl + unat (datalen f))) = (r, s1)"
    by (cases "allocif_alloc loc s (packet_size (14 + unat ihl + unat (datalen f)))")
  show ?case
  proof (cases r)
    case (Some p)
    with a Cons.IH [of s1] show ?thesis
      by (cases "fragment4_alloc loc s1 ihl fs") (auto simp: set_packet_data_def)
  qed (use a in \<open>simp add: set_packet_data_def\<close>)
qed simp

lemma fragment4_alloc_append:
  assumes "fragment4_alloc loc s ihl gs = Inr (0, gs', s1)"
    and "fst (allocif_alloc loc s1 (packet_size (14 + unat ihl + unat (datalen f)))) = None"
  shows "fragment4_alloc loc s ihl (gs @ f # fs) = Inl NullDeref"
  using assms
proof (induction gs arbitrary: s gs')
  case Nil
  then show ?case
    by (cases "allocif_alloc loc s (packet_size (14 + unat ihl + unat (datalen f)))") (auto simp: set_packet_data_def)
next
  case (Cons g gs)
  obtain r s2 where a: "allocif_alloc loc s (packet_size (14 + unat ihl + unat (datalen g))) = (r, s2)"
    by (cases "allocif_alloc loc s (packet_size (14 + unat ihl + unat (datalen g)))")
  then obtain p gs2 where "r = Some p" "fragment4_alloc loc s2 ihl gs = Inr (0, gs2, s1)"
    using Cons.prems(1) by (cases r; cases "fragment4_alloc loc s2 ihl gs") (auto simp: set_packet_data_def)
  then show ?case using a Cons.IH [of s2 gs2] Cons.prems(2) by (simp add: set_packet_data_def)
qed

lemma fragment4_guards:
  fixes pkt and psz :: u16
  defines "ihl \<equiv> ip_hdr_len pkt 14"
  shows "fragment4 loc s pkt psz frags =
    (if fragmentable pkt (unat psz) \<and> list_all (request_ok (unat psz - 14 - unat ihl)) frags
     then and_then (fragment4_alloc loc s ihl frags) (\<lambda>(rc, frags, s).
          if rc \<noteq> 0 then Inr (rc, frags, s)
          else and_then (fragment4_fill pkt psz ihl (14 + unat ihl) (psz - 14 - ucast ihl) frags) (\<lambda>frags.
               Inr (0, frags, s)))
     else Inl Abort)"
proof (cases "ip_hdr_cksum_calc pkt 14 (ucast ihl)")
  case None
  then show ?thesis by (auto simp: fragment4_def fragmentable_def ihl_def ether_const_payload_def Let_def)
next
  case (Some c)
  show ?thesis
  proof (cases "14 + unat ihl \<le> unat psz")
    case True
    with Some show ?thesis
      by (auto simp: fragment4_def fragmentable_def ihl_def [symmetric] ether_const_payload_def Let_def
          fragment4_check_iff unat_datamax ip_const_payload_def word_less_nat_alt cong: if_cong)
  qed (auto simp: fragment4_def fragmentable_def ihl_def [symmetric] ether_const_payload_def Let_def)
qed

lemma fragment4_succeeds:
  fixes pkt and psz :: u16
  defines "ihl \<equiv> ip_hdr_len pkt 14"
  defines "n \<equiv> unat psz - 14 - unat ihl"
  assumes "fragmentable pkt (unat psz)" "list_all (request_ok n) frags" "total_alloc loc"
  shows "\<exists>frags' s'. fragment4 loc s pkt psz frags = Inr (0, frags', s') \<and>
    list_all2 (fragment_of pkt n) frags frags'"
proof -
  obtain gs s' where g: "fragment4_alloc loc s ihl frags = Inr (0, gs, s')"
    "list_all2 (\<lambda>f f'. \<exists>p. f' = f\<lparr>frag_pkt := Some p\<rparr>) frags gs"
    using fragment4_alloc_total [OF assms(5)] by blast
  obtain fs' where "fragment4_fill pkt psz ihl (14 + unat ihl) (psz - 14 - ucast ihl) gs = Inr fs'"
    "list_all2 (fragment_of pkt n) frags fs'"
    using fragment4_fill_ok [OF assms(3) _ g(2)] assms(4) unfolding ihl_def n_def by blast
  with g(1) assms(3,4) show ?thesis
    unfolding fragment4_guards ihl_def n_def by simp
qed

section \<open>Properties\<close>

text \<open>
  C12: The outcome of fragmentation on every input.  A frame that may not be fragmented, or a
  request that is unaligned, out of range or already has a packet, aborts.  Otherwise the first
  failed allocation is a null dereference, and when none fails the call returns 0 and every
  fragment has the requested offset, length, flag, a valid header checksum and its slice of the
  payload; no copy leaves its block.
\<close>

theorem fragment4_outcome:
  fixes pkt and psz :: u16
  defines "ihl \<equiv> ip_hdr_len pkt 14"
  defines "n \<equiv> unat psz - 14 - unat ihl"
  shows "if fragmentable pkt (unat psz) \<and> list_all (request_ok n) frags
    then (case fragment4_alloc loc s ihl frags of
            Inl e \<Rightarrow> fragment4 loc s pkt psz frags = Inl NullDeref
          | Inr (_, _, s') \<Rightarrow> \<exists>frags'. fragment4 loc s pkt psz frags = Inr (0, frags', s') \<and>
              list_all2 (fragment_of pkt n) frags frags')
    else fragment4 loc s pkt psz frags = Inl Abort"
proof (cases "fragmentable pkt (unat psz) \<and> list_all (request_ok n) frags")
  case True
  then have fr: "fragmentable pkt (unat psz)" and rq: "list_all (request_ok n) frags" by auto
  have g: "fragment4 loc s pkt psz frags = and_then (fragment4_alloc loc s ihl frags) (\<lambda>(rc, frags, s).
      if rc \<noteq> 0 then Inr (rc, frags, s)
      else and_then (fragment4_fill pkt psz ihl (14 + unat ihl) (psz - 14 - ucast ihl) frags) (\<lambda>frags.
           Inr (0, frags, s)))"
    using True fragment4_guards [of loc s pkt psz frags] by (simp add: ihl_def n_def cong: if_cong)
  show ?thesis
  proof (cases "fragment4_alloc loc s ihl frags")
    case (Inl e)
    with fragment4_alloc_cases [where loc = loc and s = s and ihl = ihl and fs = frags] True g show ?thesis by simp
  next
    case (Inr r)
    obtain rc gs s' where r: "r = (rc, gs, s')" by (cases r)
    with fragment4_alloc_cases [where loc = loc and s = s and ihl = ihl and fs = frags] Inr
    have gs: "rc = 0" "list_all2 (\<lambda>f f'. \<exists>p. f' = f\<lparr>frag_pkt := Some p\<rparr>) frags gs" by simp_all
    from fragment4_fill_ok [OF fr _ gs(2)] rq
    obtain fs' where "fragment4_fill pkt psz ihl (14 + unat ihl) (psz - 14 - ucast ihl) gs = Inr fs'"
      "list_all2 (fragment_of pkt n) frags fs'"
      unfolding ihl_def n_def by blast
    with Inr r gs(1) True g show ?thesis by auto
  qed
next
  case False
  then have "fragment4 loc s pkt psz frags = Inl Abort"
    unfolding fragment4_guards n_def ihl_def by (simp only: if_False)
  with False show ?thesis by (simp only: if_False)
qed

text \<open>A frame of 50 bytes: Ethernet header, IPv4 header, 16 bytes of payload.\<close>

definition sample_frame :: mem where
  "sample_frame = (\<lambda>_. 0)(12 := 8, 14 := 0x45, 17 := 36, 22 := 64, 23 := 17, 24 := 0x7A, 25 := 0xCA,
     34 := 1, 42 := 2, 49 := 3)"

lemma fragmentable_sample: "fragmentable sample_frame 50" "unat (ip_hdr_len sample_frame 14) = 20"
proof -
  have h: "ip_hdr_len sample_frame 14 = 20" by (simp add: sample_frame_def field_defs hdr_simps)
  then show "unat (ip_hdr_len sample_frame 14) = 20" by simp
  have "mem_bytes sample_frame 14 20 = [0x45, 0, 0, 36, 0, 0, 0, 0, 64, 17, 0x7A, 0xCA, 0, 0, 0, 0, 0, 0, 0, 0]"
    by (simp add: mem_bytes_def upt_rec sample_frame_def)
  then have "ip_hdr_cksum_calc sample_frame 14 20 = Some 0"
    by (simp add: ip_hdr_cksum_calc_rfc1071 h rfc1071_def oc16_def)
  then show "fragmentable sample_frame 50"
    by (simp add: fragmentable_def h)
      (simp add: sample_frame_def field_defs hdr_simps mk16_def)
qed

text \<open>
  The error path for exhausted memory is never taken, because the null pointer is written through
  before it is checked: whichever fragment the allocator fails on, after the packets \<open>gs\<close> have been
  allocated, the call dereferences the null pointer, and no call returns a code other than 0.
\<close>

theorem fragment4_no_enomem:
  assumes "fragment4_alloc loc s (ip_hdr_len pkt 14) gs = Inr (0, gs', s1)"
    and "fst (allocif_alloc loc s1 (packet_size (14 + unat (ip_hdr_len pkt 14) + unat (datalen f)))) = None"
    and "fragmentable pkt (unat psz)"
    and "list_all (request_ok (unat psz - 14 - unat (ip_hdr_len pkt 14))) (gs @ f # fs)"
  shows "fragment4 loc s pkt psz (gs @ f # fs) = Inl NullDeref \<and>
    (\<forall>loc s pkt psz fs r. fragment4 loc s pkt psz fs = Inr r \<longrightarrow> fst r = 0)"
proof (intro conjI allI impI)
  show "fragment4 loc s pkt psz (gs @ f # fs) = Inl NullDeref"
    using assms(3,4) fragment4_guards [of loc s pkt psz "gs @ f # fs"] fragment4_alloc_append [OF assms(1,2), of fs] by simp
next
  fix loc s pkt psz fs r
  assume r: "fragment4 loc s pkt psz fs = Inr r"
  have "case fragment4_alloc loc s (ip_hdr_len pkt 14) fs of Inl _ \<Rightarrow> True | Inr (rc, _) \<Rightarrow> rc = 0"
    using fragment4_alloc_cases [where loc = loc and s = s and ihl = "ip_hdr_len pkt 14" and fs = fs] by (auto split: sum.splits)
  then show "fst r = 0"
    using r unfolding fragment4_guards by (auto simp: and_then_Inr_iff split: if_splits prod.splits)
qed

theorem fragment4_no_enomem_witness:
  "fragment4 (zero_alloc\<lparr>alloc_op := \<lambda>s n. if s = 1 then (None, s) else alloc_op zero_alloc s n\<rparr>) 0 sample_frame 50
     [\<lparr>datastart = 0, datalen = 8, frag_pkt = None\<rparr>, \<lparr>datastart = 8, datalen = 8, frag_pkt = None\<rparr>] = Inl NullDeref"
proof -
  let ?loc = "zero_alloc\<lparr>alloc_op := \<lambda>s n. if s = 1 then (None, s) else alloc_op zero_alloc s n\<rparr>"
  obtain g where "fragment4_alloc ?loc 0 (ip_hdr_len sample_frame 14) [\<lparr>datastart = 0, datalen = 8, frag_pkt = None\<rparr>] = Inr (0, [g], 1)"
    by (simp add: allocif_alloc_def zero_alloc_def set_packet_data_def)
  from fragment4_no_enomem [OF this, of "\<lparr>datastart = 8, datalen = 8, frag_pkt = None\<rparr>" 50 "[]"] fragmentable_sample
  show ?thesis by (auto simp: allocif_alloc_def request_ok_def)
qed

end
