(* ===== verification/Reass.thy ===== *)
theory Reass
  imports Packet
begin

text \<open>
  What the reassembly contexts of \<^verbatim>\<open>src/ipfrag\<close> promise.  A fragment that passes the checks
  common to them has a range of bytes and says whether more fragments follow.  The abstract
  state is the set of missing bytes and the position of the last byte, the most restricting
  one that a final fragment gave so far.  The locale \<open>reassembler\<close> states that a context
  implements this state; its lemmas say when a context is complete after any sequence of
  packets.  The copy loop that builds the datagram is shared by several contexts.
\<close>

section \<open>Ranges of fragments\<close>

text \<open>First byte, last byte and the more-fragments flag of a packet that passes the checks.\<close>

definition frag_range :: "packet \<Rightarrow> (nat \<times> nat \<times> bool) option" where
  "frag_range p =
     (let tot = unat (ip_total_len (data p) 14);
          hdr = unat (ip_hdr_len (data p) 14);
          off = unat (ip_frag_off (data p) 14)
      in if sz p < 34 \<or> tot \<le> hdr \<or> sz p < tot + 14 \<or> 65535 < tot - (hdr + 1) + off then None
         else Some (off, tot - (hdr + 1) + off, ip_more_frags (data p) 14 \<noteq> 0))"

lemma frag_range_bounds:
  assumes "frag_range p = Some (f, l, mf)"
  shows "f \<le> l" "l < 65536" "f = unat (ip_frag_off (data p) 14)"
    "unat (ip_total_len (data p) 14) = unat (ip_hdr_len (data p) 14) + (l + 1 - f)"
    "14 + unat (ip_hdr_len (data p) 14) + (l + 1 - f) \<le> sz p" "34 \<le> sz p"
    "mf \<longleftrightarrow> ip_more_frags (data p) 14 \<noteq> 0"
  using assms by (auto simp: frag_range_def Let_def split: if_splits)

text \<open>The last byte as the code computes it, in 16 bits; the checks exclude a wrap.\<close>

abbreviation data_last_of :: "packet \<Rightarrow> u16" where
  "data_last_of p \<equiv> ip_total_len (data p) 14 - (ucast (ip_hdr_len (data p) 14) + 1) + ip_frag_off (data p) 14"

lemma unat_data_last:
  assumes "frag_range p = Some (f, l, mf)"
  shows "unat (data_last_of p) = l"
proof -
  note b = frag_range_bounds [OF assms]
  let ?t = "ip_total_len (data p) 14" and ?h = "ucast (ip_hdr_len (data p) 14) :: u16"
  have h: "unat (?h + 1) = unat (ip_hdr_len (data p) 14) + 1"
    using unat_u8_less [of "ip_hdr_len (data p) 14"] by (simp add: unat_word_ariths)
  then have "unat (?t - (?h + 1)) = l - f" using b(1,4) by (simp add: unat_sub word_le_nat_alt)
  then show ?thesis using b(1,2,3) by (simp add: unat_word_ariths)
qed

lemma frag_range_None_iff:
  "frag_range p = None \<longleftrightarrow>
     sz p < 34 \<or> ip_total_len (data p) 14 \<le> ucast (ip_hdr_len (data p) 14) \<or>
     unat (ip_total_len (data p) 14) + 14 > sz p \<or>
     unat (ip_total_len (data p) 14) - (unat (ip_hdr_len (data p) 14) + 1) + unat (ip_frag_off (data p) 14) > 65535"
  by (auto simp: frag_range_def Let_def word_le_nat_alt)

lemma ip_frag_off_mod8: "unat (ip_frag_off m p) mod 8 = 0"
proof -
  have "unat (hdr_get16n m (p + 6) AND 0x1FFF) \<le> 0x1FFF"
    using word_and_le1 [of "hdr_get16n m (p + 6)" "0x1FFF"] by (simp add: word_le_nat_alt and.commute)
  then have "unat (ip_frag_off m p) = unat (hdr_get16n m (p + 6) AND 0x1FFF) * 8"
    by (simp add: ip_frag_off_def unat_word_ariths)
  then show ?thesis by simp
qed

section \<open>Abstract state\<close>

type_synonym reass_state = "nat set \<times> nat"

definition spec_init :: reass_state where
  "spec_init = ({0..65535}, 65535)"

definition spec_add :: "reass_state \<Rightarrow> packet \<Rightarrow> reass_state" where
  "spec_add st p =
     (case frag_range p of
        None \<Rightarrow> st
      | Some (f, l, mf) \<Rightarrow>
          (let m = (if mf then snd st else min (snd st) l)
           in (fst st \<inter> {0..m} - {f..l}, m)))"

text \<open>The bytes that a collection of packets covers, and the last byte it announces.\<close>

definition covered :: "packet set \<Rightarrow> nat set" where
  "covered P = {i. \<exists>p\<in>P. \<exists>f l mf. frag_range p = Some (f, l, mf) \<and> f \<le> i \<and> i \<le> l}"

lemma coveredI: "p \<in> P \<Longrightarrow> frag_range p = Some (f, l, mf) \<Longrightarrow> f \<le> i \<Longrightarrow> i \<le> l \<Longrightarrow> i \<in> covered P"
  unfolding covered_def by blast

definition limits :: "packet set \<Rightarrow> nat set" where
  "limits P = insert 65535 {l. \<exists>p\<in>P. \<exists>f. frag_range p = Some (f, l, False)}"

lemma finite_limits: "finite P \<Longrightarrow> finite (limits P)"
proof -
  assume "finite P"
  have "limits P \<subseteq> insert 65535 ((\<lambda>p. fst (snd (the (frag_range p)))) ` P)"
    by (force simp: limits_def)
  then show ?thesis using \<open>finite P\<close> by (meson finite_imageI finite_insert finite_subset)
qed

lemma covered_insert: "covered (insert p P) = covered {p} \<union> covered P"
  by (auto simp: covered_def)

lemma limits_insert: "limits (insert p P) = limits {p} \<union> limits P"
  by (auto simp: limits_def)

lemma Min_limits_insert:
  "finite P \<Longrightarrow> Min (limits (insert p P)) = min (Min (limits {p})) (Min (limits P))"
  unfolding limits_insert [of p P]
  by (rule Min.union) (auto simp: finite_limits, auto simp: limits_def)

lemma Min_limits_le: "finite P \<Longrightarrow> Min (limits P) \<le> 65535"
  by (rule Min_le) (auto simp: finite_limits, simp add: limits_def)

lemma spec_add_covered:
  assumes "M \<subseteq> {0..m}" "m \<le> 65535"
  shows "spec_add (M, m) p = (M \<inter> {0..min m (Min (limits {p}))} - covered {p}, min m (Min (limits {p})))"
proof (cases "frag_range p")
  case None
  then have "limits {p} = {65535}" "covered {p} = {}" by (auto simp: limits_def covered_def)
  then show ?thesis using None assms by (auto simp: spec_add_def)
next
  case (Some r)
  obtain f l mf where r: "r = (f, l, mf)" by (cases r)
  have c: "covered {p} = {f..l}" using Some r by (auto simp: covered_def)
  show ?thesis
  proof (cases mf)
    case True
    then have "limits {p} = {65535}" using Some r by (auto simp: limits_def)
    then show ?thesis using Some r True c assms by (auto simp: spec_add_def Let_def)
  next
    case False
    have "limits {p} = {65535, l}" using Some r False by (auto simp: limits_def)
    moreover have "l < 65536" using frag_range_bounds [of p] Some r by auto
    ultimately show ?thesis using Some r False c assms by (auto simp: spec_add_def Let_def)
  qed
qed

lemma foldl_spec_add:
  assumes "M \<subseteq> {0..m}" "m \<le> 65535"
  shows "foldl spec_add (M, m) ps =
    (M \<inter> {0..min m (Min (limits (set ps)))} - covered (set ps), min m (Min (limits (set ps))))"
  using assms
proof (induction ps arbitrary: M m)
  case Nil
  then show ?case by (auto simp: limits_def covered_def)
next
  case (Cons p ps)
  let ?m = "min m (Min (limits {p}))"
  have 1: "M \<inter> {0..?m} - covered {p} \<subseteq> {0..?m}" by auto
  have "foldl spec_add (M, m) (p # ps) = foldl spec_add (M \<inter> {0..?m} - covered {p}, ?m) ps"
    using spec_add_covered [OF Cons.prems] by simp
  also have "\<dots> = ((M \<inter> {0..?m} - covered {p}) \<inter> {0..min ?m (Min (limits (set ps)))} - covered (set ps),
      min ?m (Min (limits (set ps))))"
    using Cons.IH [OF 1] Cons.prems by (simp add: min.coboundedI1)
  finally have f: "foldl spec_add (M, m) (p # ps) =
    ((M \<inter> {0..?m} - covered {p}) \<inter> {0..min ?m (Min (limits (set ps)))} - covered (set ps),
      min ?m (Min (limits (set ps))))" .
  define k where "k = min ?m (Min (limits (set ps)))"
  have k: "min m (Min (limits (set (p # ps)))) = k" "k \<le> ?m"
    by (simp_all add: k_def Min_limits_insert [of "set ps" p] min.assoc)
  then have "(M \<inter> {0..?m} - covered {p}) \<inter> {0..k} = M \<inter> {0..k} - covered {p}" by auto
  then show ?case
    unfolding f k(1) k_def [symmetric] by (simp add: covered_insert [of p "set ps"] Diff_eq Int_assoc)
qed

lemma spec_adds:
  "foldl spec_add spec_init ps =
     ({0..Min (limits (set ps))} - covered (set ps), Min (limits (set ps)))"
  using foldl_spec_add [of "{0..65535}" 65535 ps] Min_limits_le [of "set ps"]
  by (simp add: spec_init_def min_absorb2 Int_absorb1)

section \<open>The contract\<close>

locale reassembler =
  fixes init :: 'c
    and add :: "'c \<Rightarrow> packet \<Rightarrow> 'c"
    and complete :: "'c \<Rightarrow> bool"
    and inv :: "'c \<Rightarrow> bool"
    and abs :: "'c \<Rightarrow> reass_state"
  assumes inv_init: "inv init"
    and abs_init: "abs init = spec_init"
    and inv_add: "inv c \<Longrightarrow> inv (add c p)"
    and abs_add: "inv c \<Longrightarrow> abs (add c p) = spec_add (abs c) p"
    and complete_iff: "inv c \<Longrightarrow> complete c \<longleftrightarrow> fst (abs c) = {}"
begin

lemma inv_adds: "inv c \<Longrightarrow> inv (foldl add c ps)"
  by (induction ps arbitrary: c) (simp_all add: inv_add)

lemma abs_adds_from: "inv c \<Longrightarrow> abs (foldl add c ps) = foldl spec_add (abs c) ps"
  by (induction ps arbitrary: c) (simp_all add: inv_add abs_add)

lemma abs_adds:
  "abs (foldl add init ps) = ({0..Min (limits (set ps))} - covered (set ps), Min (limits (set ps)))"
  using abs_adds_from [OF inv_init] by (simp add: abs_init spec_adds)

text \<open>A context is complete exactly when every byte up to the announced end has arrived.\<close>

lemma complete_adds:
  "complete (foldl add init ps) \<longleftrightarrow> {0..Min (limits (set ps))} \<subseteq> covered (set ps)"
  by (simp add: complete_iff inv_adds inv_init abs_adds)

text \<open>Order and repetition of the packets do not matter.\<close>

lemma abs_adds_cong: "set ps = set qs \<Longrightarrow> abs (foldl add init ps) = abs (foldl add init qs)"
  by (simp only: abs_adds)

end

section \<open>Building the datagram\<close>

text \<open>
  The number of bytes to copy from one fragment.  The comparison is one of C's \<^verbatim>\<open>int\<close>; the
  truncated length \<^verbatim>\<open>1U + most_restricting_last - first\<close> is computed in \<^verbatim>\<open>unsigned int\<close>.
\<close>

definition reass_copy_len :: "u16 \<Rightarrow> u16 \<Rightarrow> u16 \<Rightarrow> nat" where
  "reass_copy_len mrl first len =
     (if int (unat first) + int (unat len) - 1 > int (unat mrl)
      then unat (1 + ucast mrl - ucast first :: u32)
      else unat len)"

fun reass_copy :: "u16 \<Rightarrow> ptr \<Rightarrow> nat \<Rightarrow> packet list \<Rightarrow> mem \<Rightarrow> mem outcome" where
  "reass_copy mrl pay2 dsz [] d = Inr d"
| "reass_copy mrl pay2 dsz (p # ps) d =
     (let iporig = ether_const_payload 0;
          payorig = ip_const_payload (data p) iporig;
          first = ip_frag_off (data p) iporig;
          len = ip_total_len (data p) iporig - ucast (ip_hdr_len (data p) iporig)
      in and_then (memcpy_obj d dsz (pay2 + unat first) (data p) (sz p) payorig (reass_copy_len mrl first len))
           (reass_copy mrl pay2 dsz ps))"

definition reassemble_packets ::
  "'s allocif \<Rightarrow> 's \<Rightarrow> packet list \<Rightarrow> u16 \<Rightarrow> (packet option \<times> 's) outcome" where
  "reassemble_packets loc s ps mrl =
     (case ps of
        [] \<Rightarrow> Inl Abort
      | first_packet # _ \<Rightarrow>
          (let ip = ether_const_payload 0;
               hdr_len = ucast (ip_hdr_len (data first_packet) ip);
               n = ETHER_HDR_LEN + unat hdr_len + unat mrl + 1
           in case allocif_alloc loc s (packet_size n) of
                (None, s) \<Rightarrow> Inr (None, s)
              | (Some pkt, s) \<Rightarrow>
                  (let pkt = pkt\<lparr>sz := n, direction := direction first_packet\<rparr>;
                       ether2 = packet_calc_data;
                       ip2 = ether_payload ether2
                   in and_then (memcpy_obj (data pkt) n ether2 (data first_packet) (sz first_packet) 0
                          (ETHER_HDR_LEN + unat hdr_len)) (\<lambda>d.
                      and_then (or_abort (set_frag_hdr d ip2 0 0 (hdr_len + mrl + 1) hdr_len)) (\<lambda>d.
                      and_then (reass_copy mrl (ip_payload d ip2) n ps d) (\<lambda>d.
                      Inr (Some (pkt\<lparr>data := d\<rparr>), s)))))))"

text \<open>The byte of the datagram at position \<open>i\<close> that a fragment carries.\<close>

definition frag_byte :: "packet \<Rightarrow> nat \<Rightarrow> u8" where
  "frag_byte p i = data p (14 + unat (ip_hdr_len (data p) 14) + (i - unat (ip_frag_off (data p) 14)))"

text \<open>
  A fragment that can be copied: it passed the checks and starts no later than right after the
  last byte.
\<close>

definition copyable :: "u16 \<Rightarrow> packet \<Rightarrow> bool" where
  "copyable mrl p \<longleftrightarrow> (\<exists>f l mf. frag_range p = Some (f, l, mf) \<and> f \<le> unat mrl + 1)"

lemma reass_copy_len_ok:
  assumes "frag_range p = Some (f, l, mf)" "f \<le> unat mrl + 1"
  defines "len \<equiv> ip_total_len (data p) 14 - ucast (ip_hdr_len (data p) 14)"
  shows "reass_copy_len mrl (ip_frag_off (data p) 14) len = min (l + 1) (unat mrl + 1) - f"
proof -
  note b = frag_range_bounds [OF assms(1)]
  have "(ucast (ip_hdr_len (data p) 14) :: u16) \<le> ip_total_len (data p) 14"
    using b(4) by (simp add: word_le_nat_alt)
  then have len: "unat len = l + 1 - f" using b(4) by (simp add: len_def unat_sub)
  have "unat (1 + ucast mrl - ucast (ip_frag_off (data p) 14) :: u32) = unat mrl + 1 - f"
  proof -
    have "unat (1 + ucast mrl :: u32) = unat mrl + 1"
      using unat_u16_less [of mrl] by (simp add: unat_word_ariths)
    then show ?thesis using assms(2) b(3) by (simp add: unat_sub word_le_nat_alt)
  qed
  moreover have "int (unat (ip_frag_off (data p) 14)) + int (unat len) - 1 > int (unat mrl) \<longleftrightarrow> unat mrl < l"
    using len b(1,3) by linarith
  ultimately show ?thesis using len b(1) by (simp only: reass_copy_len_def) (simp add: min_def)
qed

lemma reass_copy_ok:
  assumes "\<forall>p\<in>set ps. copyable mrl p" "pay + unat mrl + 1 \<le> dsz"
  obtains d' where "reass_copy mrl pay dsz ps d = Inr d'"
    "\<And>a. a < pay \<or> pay + unat mrl < a \<Longrightarrow> d' a = d a"
    "\<And>i. i \<le> unat mrl \<Longrightarrow> i \<notin> covered (set ps) \<Longrightarrow> d' (pay + i) = d (pay + i)"
    "\<And>i. i \<le> unat mrl \<Longrightarrow> i \<in> covered (set ps) \<Longrightarrow> \<exists>p\<in>set ps. i \<in> covered {p} \<and> d' (pay + i) = frag_byte p i"
  using assms
proof (induction ps arbitrary: d thesis)
  case Nil
  then show ?case by (simp add: covered_def)
next
  case (Cons p ps)
  from Cons.prems(2) obtain f l mf where fr: "frag_range p = Some (f, l, mf)" and f: "f \<le> unat mrl + 1"
    by (auto simp: copyable_def)
  note b = frag_range_bounds [OF fr]
  define n where "n = min (l + 1) (unat mrl + 1) - f"
  define e where "e = (\<lambda>a. if pay + f \<le> a \<and> a < pay + f + n
    then data p (14 + unat (ip_hdr_len (data p) 14) + (a - (pay + f))) else d a)"
  have cp: "covered {p} = {f..l}" using fr by (auto simp: covered_def)
  have e1: "memcpy_obj d dsz (pay + unat (ip_frag_off (data p) 14)) (data p) (sz p) (ip_const_payload (data p) 14)
      (reass_copy_len mrl (ip_frag_off (data p) 14) (ip_total_len (data p) 14 - ucast (ip_hdr_len (data p) 14))) = Inr e"
    using reass_copy_len_ok [OF fr f] b Cons.prems(3) f
    by (auto simp: memcpy_obj_def e_def n_def ip_const_payload_def fun_eq_iff)
  obtain d' where d': "reass_copy mrl pay dsz ps e = Inr d'"
    "\<And>a. a < pay \<or> pay + unat mrl < a \<Longrightarrow> d' a = e a"
    "\<And>i. i \<le> unat mrl \<Longrightarrow> i \<notin> covered (set ps) \<Longrightarrow> d' (pay + i) = e (pay + i)"
    "\<And>i. i \<le> unat mrl \<Longrightarrow> i \<in> covered (set ps) \<Longrightarrow> \<exists>p\<in>set ps. i \<in> covered {p} \<and> d' (pay + i) = frag_byte p i"
    using Cons.IH [of e thesis] Cons.prems(2,3) by auto
  have e_in: "e (pay + i) = frag_byte p i" if "i \<in> covered {p}" "i \<le> unat mrl" for i
    using that cp b(3) by (auto simp: e_def n_def frag_byte_def)
  have e_out: "e (pay + i) = d (pay + i)" if "i \<notin> covered {p}" for i
    using that cp f by (auto simp: e_def n_def)
  show ?case
  proof (rule Cons.prems(1))
    show "reass_copy mrl pay dsz (p # ps) d = Inr d'"
      using e1 d'(1) by (simp add: ether_const_payload_def Let_def)
    show "d' a = d a" if "a < pay \<or> pay + unat mrl < a" for a
      using d'(2) [OF that] that by (auto simp: e_def n_def)
    show "d' (pay + i) = d (pay + i)" if "i \<le> unat mrl" "i \<notin> covered (set (p # ps))" for i
      using d'(3) [of i] e_out [of i] that covered_insert [of p "set ps"] by auto
    show "\<exists>q\<in>set (p # ps). i \<in> covered {q} \<and> d' (pay + i) = frag_byte q i"
      if "i \<le> unat mrl" "i \<in> covered (set (p # ps))" for i
    proof (cases "i \<in> covered (set ps)")
      case True
      with d'(4) that show ?thesis by auto
    next
      case False
      then have "i \<in> covered {p}" using that covered_insert [of p "set ps"] by auto
      then show ?thesis using d'(3) [OF that(1) False] e_in that by auto
    qed
  qed
qed

text \<open>
  A fragment that starts beyond the end makes the truncated length wrap: the copy leaves its
  block.
\<close>

lemma reass_copy_len_wraps:
  assumes "frag_range p = Some (f, l, mf)" "unat mrl + 1 < f"
  shows "4294901760 \<le> reass_copy_len mrl (ip_frag_off (data p) 14)
    (ip_total_len (data p) 14 - ucast (ip_hdr_len (data p) 14))"
proof -
  note b = frag_range_bounds [OF assms(1)]
  let ?t = "ip_total_len (data p) 14" and ?h = "ucast (ip_hdr_len (data p) 14) :: u16"
  have len: "unat (?t - ?h) = l + 1 - f" using b(4) by (simp add: unat_sub word_le_nat_alt)
  have "unat (1 + ucast mrl - ucast (ip_frag_off (data p) 14) :: u32) = 4294967296 + unat mrl + 1 - f"
  proof -
    let ?N = "4294967296 + unat mrl + 1 - f"
    have "?N + unat (ip_frag_off (data p) 14) = 4294967296 + unat mrl + 1" using b(1-3) by simp
    then have "(of_nat (?N + unat (ip_frag_off (data p) 14)) :: u32) = of_nat (4294967296 + unat mrl + 1)"
      by (simp only:)
    then have "(of_nat ?N :: u32) + ucast (ip_frag_off (data p) 14) = of_nat 4294967296 + ucast mrl + 1"
      by (simp only: of_nat_add of_nat_unat of_nat_1)
    also have "(of_nat 4294967296 :: u32) = 0" by (simp add: word_unat_eq_iff unsigned_of_nat del: of_nat_numeral)
    finally have "(of_nat ?N :: u32) = 1 + ucast mrl - ucast (ip_frag_off (data p) 14)"
      by (metis add.commute add_0 add_diff_cancel_right')
    then have "1 + ucast mrl - ucast (ip_frag_off (data p) 14) = (of_nat ?N :: u32)" by (rule sym)
    moreover have "?N < 2 ^ LENGTH(32)" using assms(2) b(1,2) by simp
    then have "unat (of_nat ?N :: u32) = ?N" by (simp only: unsigned_of_nat take_bit_nat_eq_self of_nat_id)
    ultimately show ?thesis by (simp only:)
  qed
  moreover have "int (unat (ip_frag_off (data p) 14)) + int (unat (?t - ?h)) - 1 > int (unat mrl)"
    using len b(1,3) assms(2) by linarith
  ultimately show ?thesis using b(1,2) by (simp only: reass_copy_len_def) simp
qed

lemma reass_copy_overflows:
  assumes "p \<in> set ps" "frag_range p = Some (f, l, mf)" "unat mrl + 1 < f" "dsz < 4294901760"
  shows "reass_copy mrl pay dsz ps d = Inl OutOfBounds"
  using assms(1)
proof (induction ps arbitrary: d)
  case (Cons q ps)
  show ?case
  proof (cases "q = p")
    case True
    then show ?thesis using reass_copy_len_wraps [OF assms(2,3)] assms(4)
      by (simp add: ether_const_payload_def Let_def memcpy_obj_def)
  next
    case False
    with Cons show ?thesis by (simp add: ether_const_payload_def Let_def memcpy_obj_def and_then_def)
  qed
qed simp

text \<open>
  A datagram built from fragments: the header \<open>d0\<close> with the fragment fields reset, and at each
  position a byte of a fragment that covers it.  For a list, the header and the direction are
  those of the first fragment.
\<close>

definition datagram_from :: "mem \<Rightarrow> packet set \<Rightarrow> u16 \<Rightarrow> packet \<Rightarrow> bool" where
  "datagram_from d0 P mrl pkt \<longleftrightarrow>
     (let h = 14 + unat (ip_hdr_len d0 14)
      in sz pkt = h + unat mrl + 1 \<and>
         ip_hdr_len (data pkt) 14 = ip_hdr_len d0 14 \<and>
         ip_total_len (data pkt) 14 = ucast (ip_hdr_len d0 14) + mrl + 1 \<and>
         ip_frag_off (data pkt) 14 = 0 \<and> ip_more_frags (data pkt) 14 = 0 \<and>
         ip_dont_frag (data pkt) 14 = ip_dont_frag d0 14 \<and> ip_rsvd_bit (data pkt) 14 = ip_rsvd_bit d0 14 \<and>
         ip_hdr_cksum_calc (data pkt) 14 (ucast (ip_hdr_len d0 14)) = Some 0 \<and> ip_hdr_cksum (data pkt) 14 \<noteq> 0xFFFF \<and>
         (\<forall>a < h. a \<in> {16, 17, 20, 21, 24, 25} \<or> data pkt a = d0 a) \<and>
         (\<forall>i \<le> unat mrl. \<exists>p\<in>P. i \<in> covered {p} \<and> data pkt (h + i) = frag_byte p i))"

definition datagram_of :: "packet list \<Rightarrow> u16 \<Rightarrow> packet \<Rightarrow> bool" where
  "datagram_of ps mrl pkt \<longleftrightarrow>
     datagram_from (data (hd ps)) (set ps) mrl pkt \<and> direction pkt = direction (hd ps)"

lemma hdr_fields_cong:
  assumes "\<And>a. a < 34 \<Longrightarrow> g a = e a"
  shows "ip_frag_off g 14 = ip_frag_off e 14" "ip_more_frags g 14 = ip_more_frags e 14"
    "ip_dont_frag g 14 = ip_dont_frag e 14" "ip_rsvd_bit g 14 = ip_rsvd_bit e 14"
    "ip_total_len g 14 = ip_total_len e 14" "ip_hdr_len g 14 = ip_hdr_len e 14"
    "ip_hdr_cksum g 14 = ip_hdr_cksum e 14"
  by (simp_all add: field_defs hdr_simps assms)

lemma ip_hdr_cksum_calc_cong:
  assumes "\<And>a. a < 14 + unat (ip_hdr_len e 14) \<Longrightarrow> g a = e a" "20 \<le> unat (ip_hdr_len e 14)"
  shows "ip_hdr_cksum_calc g 14 n = ip_hdr_cksum_calc e 14 n"
proof -
  have h: "ip_hdr_len g 14 = ip_hdr_len e 14" using assms(1) [of 14] assms(2) by (simp add: ip_hdr_len_def hdr_simps)
  have "mem_bytes g 14 (unat (ip_hdr_len e 14)) = mem_bytes e 14 (unat (ip_hdr_len e 14))"
    by (rule mem_bytes_cong) (simp add: mem_agree_def assms)
  then show ?thesis by (simp add: ip_hdr_cksum_calc_rfc1071 h)
qed

text \<open>
  What the two reassemblers share: the header sequence run on a copy \<open>d\<close> of the header of
  \<open>d0\<close> succeeds, and any buffer with that header in front of fragment bytes is a datagram.
\<close>

lemma frag_hdr_datagram:
  fixes mrl :: u16 and d0 :: mem
  defines "h \<equiv> 14 + unat (ip_hdr_len d0 14)"
  assumes ihl: "20 \<le> unat (ip_hdr_len d0 14)" and d: "\<And>a. a < h \<Longrightarrow> d a = d0 a"
  obtains e where
    "set_frag_hdr d 14 0 0 (ucast (ip_hdr_len d0 14) + mrl + 1) (ucast (ip_hdr_len d0 14)) = Some e"
    "ip_hdr_len e 14 = ip_hdr_len d0 14"
    "\<And>g P pkt. (\<And>a. a < h \<Longrightarrow> g a = e a) \<Longrightarrow> sz pkt = h + unat mrl + 1 \<Longrightarrow> data pkt = g \<Longrightarrow>
       (\<And>i. i \<le> unat mrl \<Longrightarrow> \<exists>p\<in>P. i \<in> covered {p} \<and> g (h + i) = frag_byte p i) \<Longrightarrow> datagram_from d0 P mrl pkt"
proof -
  let ?ihl = "ip_hdr_len d0 14"
  have d34: "d a = d0 a" if "a < 34" for a using that ihl d by (simp add: h_def)
  have df: "ip_dont_frag d 14 = ip_dont_frag d0 14" "ip_rsvd_bit d 14 = ip_rsvd_bit d0 14" "ip_hdr_len d 14 = ?ihl"
    by (simp_all add: d34 hdr_fields_cong [of d d0])
  obtain e where e: "set_frag_hdr d 14 0 0 (ucast ?ihl + mrl + 1) (ucast ?ihl) = Some e"
    "ip_frag_off e 14 = 0" "ip_more_frags e 14 \<noteq> 0 \<longleftrightarrow> (0 :: cint) \<noteq> 0"
    "ip_dont_frag e 14 = ip_dont_frag d 14" "ip_rsvd_bit e 14 = ip_rsvd_bit d 14"
    "ip_total_len e 14 = ucast ?ihl + mrl + 1" "ip_hdr_len e 14 = ?ihl"
    "ip_hdr_cksum_calc e 14 (ucast ?ihl) = Some 0" "ip_hdr_cksum e 14 \<noteq> 0xFFFF"
    "\<And>a. a \<notin> {14 + 2, 14 + 3, 14 + 6, 14 + 7, 14 + 10, 14 + 11} \<Longrightarrow> e a = d a"
    using set_frag_hdr_ok [of d 14 0 0 "ucast ?ihl + mrl + 1"] ihl mod_0 [of "8 :: u16"] unfolding df(3) by metis
  have "datagram_from d0 P mrl pkt"
    if ge: "\<And>a. a < h \<Longrightarrow> g a = e a" and pk: "sz pkt = h + unat mrl + 1" "data pkt = g"
      and py: "\<And>i. i \<le> unat mrl \<Longrightarrow> \<exists>p\<in>P. i \<in> covered {p} \<and> g (h + i) = frag_byte p i" for g P pkt
  proof -
    have g34: "g a = e a" if "a < 34" for a using ge that ihl by (simp add: h_def)
    have gf: "ip_frag_off g 14 = ip_frag_off e 14" "ip_more_frags g 14 = ip_more_frags e 14"
      "ip_dont_frag g 14 = ip_dont_frag e 14" "ip_rsvd_bit g 14 = ip_rsvd_bit e 14"
      "ip_total_len g 14 = ip_total_len e 14" "ip_hdr_len g 14 = ip_hdr_len e 14"
      "ip_hdr_cksum g 14 = ip_hdr_cksum e 14"
      by (simp_all add: g34 hdr_fields_cong [of g e])
    have ck: "ip_hdr_cksum_calc g 14 (ucast ?ihl) = Some 0"
      using ip_hdr_cksum_calc_cong [of e g] ge e(7,8) ihl by (simp add: h_def)
    have "a \<in> {16, 17, 20, 21, 24, 25} \<or> g a = d0 a" if "a < h" for a
      using e(10) [of a] ge [OF that] d [OF that] by auto
    then show ?thesis
      unfolding datagram_from_def Let_def
      using e(2-7,9) gf df ck pk py by (simp add: h_def)
  qed
  with e(1,7) show ?thesis using that by blast
qed

lemma reassemble_packets_ok:
  fixes mrl :: u16
  assumes "\<forall>p\<in>set (p0 # ps). copyable mrl p" "{0..unat mrl} \<subseteq> covered (set (p0 # ps))"
    and "20 \<le> unat (ip_hdr_len (data p0) 14)"
    and al: "allocif_alloc loc s (packet_size (14 + unat (ip_hdr_len (data p0) 14) + unat mrl + 1)) = (Some b, s')"
  shows "\<exists>pkt. reassemble_packets loc s (p0 # ps) mrl = Inr (Some pkt, s') \<and> datagram_of (p0 # ps) mrl pkt"
proof -
  let ?h = "14 + unat (ip_hdr_len (data p0) 14)" and ?ihl = "ip_hdr_len (data p0) 14"
  let ?n = "?h + unat mrl + 1"
  have sz0: "?h \<le> sz p0"
    using assms(1) frag_range_bounds [of p0] by (fastforce simp: copyable_def)
  define d where "d = (\<lambda>a. if a < ?h then data p0 a else data b a)"
  have c1: "memcpy_obj (data b) ?n 0 (data p0) (sz p0) 0 ?h = Inr d"
    using sz0 by (auto simp: memcpy_obj_def d_def fun_eq_iff)
  have "d a = data p0 a" if "a < ?h" for a using that by (simp add: d_def)
  from frag_hdr_datagram [OF assms(3) this] obtain e where
    e: "set_frag_hdr d 14 0 0 (ucast ?ihl + mrl + 1) (ucast ?ihl) = Some e" "ip_hdr_len e 14 = ?ihl" and
    dg: "\<And>g P pkt. (\<And>a. a < ?h \<Longrightarrow> g a = e a) \<Longrightarrow> sz pkt = ?n \<Longrightarrow> data pkt = g \<Longrightarrow>
       (\<And>i. i \<le> unat mrl \<Longrightarrow> \<exists>p\<in>P. i \<in> covered {p} \<and> g (?h + i) = frag_byte p i) \<Longrightarrow>
       datagram_from (data p0) P mrl pkt" by blast
  obtain g where g: "reass_copy mrl ?h ?n (p0 # ps) e = Inr g"
    "\<And>a. a < ?h \<or> ?h + unat mrl < a \<Longrightarrow> g a = e a"
    "\<And>i. i \<le> unat mrl \<Longrightarrow> i \<in> covered (set (p0 # ps)) \<Longrightarrow>
       \<exists>p\<in>set (p0 # ps). i \<in> covered {p} \<and> g (?h + i) = frag_byte p i"
    by (rule reass_copy_ok [OF assms(1) order.refl, where pay = ?h and d = e]) blast
  let ?pkt = "b\<lparr>sz := ?n, direction := direction p0, data := g\<rparr>"
  have "reassemble_packets loc s (p0 # ps) mrl = Inr (Some ?pkt, s')"
    using al c1 e g(1)
    by (simp add: reassemble_packets_def ether_const_payload_def ether_payload_def packet_calc_data_def
        ip_payload_def Let_def del: reass_copy.simps)
  moreover have "datagram_from (data p0) (set (p0 # ps)) mrl ?pkt"
  proof (rule dg [where g = g])
    show "\<exists>p\<in>set (p0 # ps). i \<in> covered {p} \<and> g (?h + i) = frag_byte p i" if "i \<le> unat mrl" for i
      using g(3) [OF that] assms(2) that by (meson atLeastAtMost_iff subsetD zero_le)
  qed (use g(2) in auto)
  ultimately show ?thesis by (auto simp: datagram_of_def)
qed

text \<open>When every fragment carries bytes of one payload, the datagram has that payload.\<close>

lemma datagram_payload:
  assumes "datagram_from d0 P mrl pkt"
    and "\<And>p i. p \<in> P \<Longrightarrow> i \<in> covered {p} \<Longrightarrow> i \<le> unat mrl \<Longrightarrow> frag_byte p i = D i"
    and "i \<le> unat mrl"
  shows "data pkt (14 + unat (ip_hdr_len d0 14) + i) = D i"
proof -
  have "\<exists>p\<in>P. i \<in> covered {p} \<and> data pkt (14 + unat (ip_hdr_len d0 14) + i) = frag_byte p i"
    using assms(1,3) unfolding datagram_from_def Let_def by blast
  then show ?thesis using assms(2,3) by metis
qed

text \<open>The faults of the assembly.\<close>

lemma set_frag_hdr_short: "unat n < 20 \<Longrightarrow> set_frag_hdr d ip 0 mf t n = None"
  by (simp add: set_frag_hdr_def ip_set_frag_off_def ip_set_hdr_cksum_calc_def word_less_nat_alt Let_def)

lemma reassemble_packets_short_header:
  assumes "frag_range p = Some (f, l, mf)" "unat (ip_hdr_len (data p) 14) < 20" "total_alloc loc"
  shows "reassemble_packets loc s (p # ps) mrl = Inl Abort"
proof -
  obtain b s' where "allocif_alloc loc s (packet_size (14 + unat (ip_hdr_len (data p) 14) + unat mrl + 1)) = (Some b, s')"
    using total_allocE [OF assms(3)] by blast
  moreover have "14 + unat (ip_hdr_len (data p) 14) \<le> sz p" using frag_range_bounds(5) [OF assms(1)] by linarith
  ultimately show ?thesis using assms(2)
    by (simp add: reassemble_packets_def ether_const_payload_def packet_calc_data_def Let_def memcpy_obj_ok
        set_frag_hdr_short)
qed

lemma reassemble_packets_overflows:
  assumes "p \<in> set (p0 # ps)" "frag_range p = Some (f, l, mf)" "unat mrl + 1 < f" "total_alloc loc"
    and "20 \<le> unat (ip_hdr_len (data p0) 14)"
  shows "reassemble_packets loc s (p0 # ps) mrl = Inl OutOfBounds"
proof -
  let ?ihl = "ip_hdr_len (data p0) 14"
  let ?n = "14 + unat ?ihl + unat mrl + 1"
  have ov: "reass_copy mrl pay ?n (p0 # ps) d = Inl OutOfBounds" for pay d
    using reass_copy_overflows [OF assms(1-3)] unat_u16_less [of mrl] ip_hdr_len_le [of "data p0" 14] by simp
  obtain b s' where "allocif_alloc loc s (packet_size ?n) = (Some b, s')"
    using total_allocE [OF assms(4)] by blast
  moreover obtain d where "memcpy_obj (data b) ?n 0 (data p0) (sz p0) 0 (14 + unat ?ihl) \<in> {Inr d, Inl OutOfBounds}"
    and d: "d 14 = data p0 14"
    by (rule that [of "\<lambda>a. if a < 14 + unat ?ihl then data p0 a else data b a"]) (use assms(5) in \<open>auto simp: memcpy_obj_def fun_eq_iff\<close>)
  moreover have h: "ip_hdr_len d 14 = ?ihl" using d by (simp add: ip_hdr_len_def hdr_simps)
  obtain e where "set_frag_hdr d 14 0 0 (ucast ?ihl + mrl + 1) (ucast ?ihl) = Some e"
    using set_frag_hdr_ok [of d 14 0 0 "ucast ?ihl + mrl + 1"] assms(5) unfolding h by (metis mod_0)
  ultimately show ?thesis
    unfolding reassemble_packets_def using ov
    by (auto simp: ether_const_payload_def packet_calc_data_def ether_payload_def Let_def
        simp del: reass_copy.simps)
qed

end
