(* ===== verification/IpReass.thy ===== *)
theory IpReass
  imports Reass
begin

text \<open>
  Reassembly with a list of holes, \<^verbatim>\<open>src/ipfrag/ipreass.c\<close>.  The packet list and the hole list,
  intrusive linked lists in the code, are lists here; the descriptor of a new hole lives in the
  packet that created it, which the model does not need.  The context is an instance of
  \<open>reassembler\<close>: the holes are always the missing bytes.
\<close>

section \<open>Model\<close>

record reassctx =
  packet_list :: "packet list"
  hole_list :: "hole list"
  most_restricting_last :: u16

definition reassctx_init :: reassctx where
  "reassctx_init =
     \<lparr>packet_list = [], hole_list = [\<lparr>hole_first = 0, hole_last = 65535\<rparr>], most_restricting_last = 65535\<rparr>"

definition reassctx_complete :: "reassctx \<Rightarrow> bool" where
  "reassctx_complete ctx \<longleftrightarrow> hole_list ctx = []"

text \<open>Each packet is unlinked and released; the result is the state of the allocator.\<close>

fun free_packets :: "'s allocif \<Rightarrow> 's \<Rightarrow> packet list \<Rightarrow> 's" where
  "free_packets loc s [] = s"
| "free_packets loc s (p # ps) = free_packets loc (allocif_free loc s p) ps"

definition reassctx_free :: "'s allocif \<Rightarrow> 's \<Rightarrow> reassctx \<Rightarrow> reassctx \<times> 's" where
  "reassctx_free loc s ctx = (ctx\<lparr>packet_list := []\<rparr>, free_packets loc s (packet_list ctx))"

definition reassctx_reassemble :: "'s allocif \<Rightarrow> 's \<Rightarrow> reassctx \<Rightarrow> (packet option \<times> 's) outcome" where
  "reassctx_reassemble loc s ctx = reassemble_packets loc s (packet_list ctx) (most_restricting_last ctx)"

text \<open>The loop that cuts the holes at a new last byte.\<close>

fun trim_holes :: "u16 \<Rightarrow> hole list \<Rightarrow> hole list" where
  "trim_holes mrl [] = []"
| "trim_holes mrl (h # hs) =
     (if hole_first h > mrl then trim_holes mrl hs
      else if hole_last h > mrl then h\<lparr>hole_last := mrl\<rparr> # trim_holes mrl hs
      else h # trim_holes mrl hs)"

text \<open>
  The loop over the holes.  An equation without a recursive call is a \<^verbatim>\<open>return\<close>; the comparisons
  with \<open>data_last + 1\<close> and \<open>data_first - 1\<close> are those of C's \<^verbatim>\<open>int\<close>.
\<close>

fun fill_holes :: "u16 \<Rightarrow> u16 \<Rightarrow> hole list \<Rightarrow> hole list" where
  "fill_holes data_first data_last [] = []"
| "fill_holes data_first data_last (h # hs) =
     (if data_last = hole_last h then
        (if data_first \<le> hole_first h then hs
         else h\<lparr>hole_last := data_first - 1\<rparr> # hs)
      else if data_last < hole_last h then
        (if data_first \<le> hole_first h then
           (if unat data_last + 1 > unat (hole_first h) then h\<lparr>hole_first := data_last + 1\<rparr> # hs
            else h # hs)
         else \<lparr>hole_first = hole_first h, hole_last = data_first - 1\<rparr> # h\<lparr>hole_first := data_last + 1\<rparr> # hs)
      else
        (if data_first \<le> hole_first h then fill_holes data_first data_last hs
         else if int (unat (hole_last h)) > int (unat data_first) - 1
              then h\<lparr>hole_last := data_first - 1\<rparr> # fill_holes data_first data_last hs
              else h # fill_holes data_first data_last hs))"

definition reassctx_add :: "reassctx \<Rightarrow> packet \<Rightarrow> reassctx" where
  "reassctx_add ctx pkt =
     (let d = data pkt;
          ip = ether_const_payload 0;
          ctx = ctx\<lparr>packet_list := packet_list ctx @ [pkt]\<rparr>
      in if sz pkt < 34 \<or> ip_total_len d ip \<le> ucast (ip_hdr_len d ip) \<or> unat (ip_total_len d ip) + 14 > sz pkt
         then ctx
         else let data_first = ip_frag_off d ip
              in if unat (ip_total_len d ip) - (unat (ip_hdr_len d ip) + 1) + unat (ip_frag_off d ip) > 65535
                 then ctx
                 else let data_last = ip_total_len d ip - (ucast (ip_hdr_len d ip) + 1) + ip_frag_off d ip;
                          ctx = (if ip_more_frags d ip = 0 \<and> most_restricting_last ctx > data_last
                                 then ctx\<lparr>most_restricting_last := data_last,
                                          hole_list := trim_holes data_last (hole_list ctx)\<rparr>
                                 else ctx)
                      in ctx\<lparr>hole_list := fill_holes data_first data_last (hole_list ctx)\<rparr>)"

section \<open>Holes as sets of bytes\<close>

fun hole_bytes :: "hole list \<Rightarrow> nat set" where
  "hole_bytes [] = {}"
| "hole_bytes (h # hs) = {unat (hole_first h)..unat (hole_last h)} \<union> hole_bytes hs"

text \<open>Holes in ascending order, disjoint and not empty, from position \<open>lo\<close> on.\<close>

fun holes_wf :: "nat \<Rightarrow> hole list \<Rightarrow> bool" where
  "holes_wf lo [] = True"
| "holes_wf lo (h # hs) =
     (lo \<le> unat (hole_first h) \<and> unat (hole_first h) \<le> unat (hole_last h) \<and> holes_wf (unat (hole_last h) + 1) hs)"

lemma holes_wf_mono: "holes_wf lo hs \<Longrightarrow> lo' \<le> lo \<Longrightarrow> holes_wf lo' hs"
  by (cases hs) auto

lemma hole_bytes_lower: "holes_wf lo hs \<Longrightarrow> i \<in> hole_bytes hs \<Longrightarrow> lo \<le> i"
  by (induction hs arbitrary: lo) fastforce+

lemma holes_wf_empty: "holes_wf lo hs \<Longrightarrow> hole_bytes hs = {} \<longleftrightarrow> hs = []"
  by (cases hs) auto

lemma trim_holes_ok:
  assumes "holes_wf lo hs"
  shows "holes_wf lo (trim_holes m hs)" "hole_bytes (trim_holes m hs) = hole_bytes hs \<inter> {0..unat m}"
proof -
  have "holes_wf lo (trim_holes m hs) \<and> hole_bytes (trim_holes m hs) = hole_bytes hs \<inter> {0..unat m}"
    using assms
  proof (induction hs arbitrary: lo)
    case (Cons h hs)
    from Cons.prems have hs: "holes_wf (unat (hole_last h) + 1) hs" by simp
    note ih = Cons.IH [OF hs]
    have fl: "lo \<le> unat (hole_first h)" "unat (hole_first h) \<le> unat (hole_last h)" using Cons.prems by auto
    show ?case
    proof (cases "unat (hole_last h) \<le> unat m")
      case True
      then have "trim_holes m (h # hs) = h # trim_holes m hs"
        using fl(2) by (simp add: word_less_nat_alt)
      moreover have "{unat (hole_first h)..unat (hole_last h)} \<inter> {0..unat m} = {unat (hole_first h)..unat (hole_last h)}"
        using True by auto
      ultimately show ?thesis using ih fl by (simp add: Int_Un_distrib2)
    next
      case False
      have e: "hole_bytes hs \<inter> {0..unat m} = {}"
        using hole_bytes_lower [OF hs] False by fastforce
      then have t: "trim_holes m hs = []" using holes_wf_empty ih by blast
      show ?thesis
      proof (cases "unat m < unat (hole_first h)")
        case True
        then have "{unat (hole_first h)..unat (hole_last h)} \<inter> {0..unat m} = {}" by auto
        then show ?thesis using t e True by (simp add: word_less_nat_alt Int_Un_distrib2)
      next
        case nf: False
        then have "{unat (hole_first h)..unat (hole_last h)} \<inter> {0..unat m} = {unat (hole_first h)..unat m}"
          using False by auto
        then show ?thesis using t e False nf fl by (simp add: word_less_nat_alt Int_Un_distrib2)
      qed
    qed
  qed simp
  then show "holes_wf lo (trim_holes m hs)" "hole_bytes (trim_holes m hs) = hole_bytes hs \<inter> {0..unat m}"
    by auto
qed

lemma unat_pred: "y < (x :: u16) \<Longrightarrow> unat (x - 1) = unat x - 1"
  by (metis unat_minus_one word_gt_0 word_le_less_eq word_not_simps(1) word_zero_le le_less_trans)

lemma unat_succ: "(x :: u16) < y \<Longrightarrow> unat (x + 1) = unat x + 1"
  using unat_u16_less [of y] by (simp add: word_less_nat_alt unat_word_ariths)

text \<open>Interval differences, for the branches of the loop.\<close>

lemma interval_diff:
  fixes a b f l :: nat
  shows "f \<le> a \<Longrightarrow> b \<le> l \<Longrightarrow> {a..b} - {f..l} = {}"
    "a < f \<Longrightarrow> b \<le> l \<Longrightarrow> f \<le> b \<Longrightarrow> {a..b} - {f..l} = {a..f - 1}"
    "b < f \<Longrightarrow> {a..b} - {f..l} = {a..b}"
    "f \<le> a \<Longrightarrow> a \<le> l \<Longrightarrow> l < b \<Longrightarrow> {a..b} - {f..l} = {l + 1..b}"
    "l < a \<Longrightarrow> {a..b} - {f..l} = {a..b}"
    "a < f \<Longrightarrow> f \<le> l + 1 \<Longrightarrow> l < b \<Longrightarrow> {a..b} - {f..l} = {a..f - 1} \<union> {l + 1..b}"
  by auto

lemma fill_holes_ok:
  assumes "holes_wf lo hs" "unat f \<le> unat l + 1"
  shows "holes_wf lo (fill_holes f l hs) \<and> hole_bytes (fill_holes f l hs) = hole_bytes hs - {unat f..unat l}"
  using assms
proof (induction hs arbitrary: lo)
  case (Cons h hs)
  let ?a = "unat (hole_first h)" and ?b = "unat (hole_last h)" and ?f = "unat f" and ?l = "unat l"
  from Cons.prems have hs: "holes_wf (?b + 1) hs" and ab: "lo \<le> ?a" "?a \<le> ?b" by auto
  have fl: "?f \<le> ?l + 1" using Cons.prems(2) .
  have ih: "holes_wf (?b + 1) (fill_holes f l hs)" "hole_bytes (fill_holes f l hs) = hole_bytes hs - {?f..?l}"
    using Cons.IH [OF hs Cons.prems(2)] by auto
  have pred: "unat (f - 1) = ?f - 1" if "?a < ?f" using unat_pred [of "hole_first h" f] that by (simp add: word_less_nat_alt)
  have keep: "hole_bytes hs - {?f..?l} = hole_bytes hs" if "?l \<le> ?b"
    using hole_bytes_lower [OF hs] that by fastforce
  have distrib: "hole_bytes (h # hs) - {?f..?l} = ({?a..?b} - {?f..?l}) \<union> (hole_bytes hs - {?f..?l})"
    by (simp add: Un_Diff)
  have mono: "holes_wf lo hs" using holes_wf_mono [OF hs] ab by simp
  consider "?l = ?b" "?f \<le> ?a" | "?l = ?b" "?a < ?f" | "?l < ?b" "?f \<le> ?a" | "?l < ?b" "?a < ?f"
    | "?b < ?l" "?f \<le> ?a" | "?b < ?l" "?a < ?f" by linarith
  then show ?case
  proof cases
    case 1
    then show ?thesis using keep mono unfolding distrib
      by (simp add: interval_diff word_le_nat_alt word_unat_eq_iff)
  next
    case 2
    then have "{?a..?b} - {?f..?l} = {?a..?f - 1}"
      using fl by (cases "?f \<le> ?b") (auto simp: interval_diff)
    then show ?thesis using 2 keep hs ab pred fl holes_wf_mono [OF hs, of ?f] unfolding distrib
      by (simp add: word_le_nat_alt word_unat_eq_iff not_le)
  next
    case 3
    have "unat (l + 1) = ?l + 1" using unat_succ [of l "hole_last h"] 3 by (simp add: word_less_nat_alt)
    then show ?thesis using 3 keep hs ab unfolding distrib
      by (cases "?a \<le> ?l") (simp_all add: interval_diff word_le_nat_alt word_less_nat_alt word_unat_eq_iff)
  next
    case 4
    have "unat (l + 1) = ?l + 1" using unat_succ [of l "hole_last h"] 4 by (simp add: word_less_nat_alt)
    then show ?thesis using 4 keep hs ab pred fl unfolding distrib
      by (simp add: interval_diff word_le_nat_alt word_less_nat_alt word_unat_eq_iff not_le Un_assoc)
  next
    case 5
    then show ?thesis using ih holes_wf_mono [OF ih(1), of lo] ab unfolding distrib
      by (simp add: interval_diff word_le_nat_alt word_less_nat_alt word_unat_eq_iff)
  next
    case 6
    have "int ?f - 1 < int ?b \<longleftrightarrow> ?f \<le> ?b" "?a \<le> ?f - 1" using 6 by linarith+
    then show ?thesis using 6 ih ab pred fl holes_wf_mono [OF ih(1), of ?f] unfolding distrib
      by (cases "?f \<le> ?b")
        (simp_all add: interval_diff word_le_nat_alt word_less_nat_alt word_unat_eq_iff not_le)
  qed
qed simp

section \<open>Refinement\<close>

definition reass_inv :: "reassctx \<Rightarrow> bool" where
  "reass_inv ctx \<longleftrightarrow> holes_wf 0 (hole_list ctx) \<and> hole_bytes (hole_list ctx) \<subseteq> {0..unat (most_restricting_last ctx)}"

definition reass_abs :: "reassctx \<Rightarrow> reass_state" where
  "reass_abs ctx = (hole_bytes (hole_list ctx), unat (most_restricting_last ctx))"

lemma reassctx_add_None: "frag_range p = None \<Longrightarrow> reassctx_add ctx p = ctx\<lparr>packet_list := packet_list ctx @ [p]\<rparr>"
  unfolding frag_range_None_iff by (auto simp: reassctx_add_def ether_const_payload_def Let_def)

lemma reassctx_add_Some:
  assumes "frag_range p = Some (f, l, mf)"
  shows "reassctx_add ctx p =
    (let ctx = ctx\<lparr>packet_list := packet_list ctx @ [p]\<rparr>;
         ctx = (if \<not> mf \<and> l < unat (most_restricting_last ctx)
                then ctx\<lparr>most_restricting_last := data_last_of p, hole_list := trim_holes (data_last_of p) (hole_list ctx)\<rparr>
                else ctx)
     in ctx\<lparr>hole_list := fill_holes (ip_frag_off (data p) 14) (data_last_of p) (hole_list ctx)\<rparr>)"
proof -
  have n: "frag_range p \<noteq> None" using assms by simp
  have "data_last_of p < most_restricting_last ctx \<longleftrightarrow> l < unat (most_restricting_last ctx)"
    using unat_data_last [OF assms] by (simp add: word_less_nat_alt)
  then show ?thesis
    using n frag_range_bounds(7) [OF assms] unfolding frag_range_None_iff
    by (simp add: reassctx_add_def ether_const_payload_def Let_def)
qed

lemma reassctx_add_ok:
  assumes "reass_inv ctx"
  shows "reass_inv (reassctx_add ctx p) \<and> reass_abs (reassctx_add ctx p) = spec_add (reass_abs ctx) p"
proof (cases "frag_range p")
  case None
  then show ?thesis using assms by (simp add: reassctx_add_None reass_inv_def reass_abs_def spec_add_def)
next
  case (Some r)
  obtain f l mf where fr: "frag_range p = Some (f, l, mf)" using Some by (cases r) auto
  note b = frag_range_bounds [OF fr] and dl = unat_data_last [OF fr]
  let ?H = "hole_list ctx" and ?m = "most_restricting_last ctx" and ?f = "ip_frag_off (data p) 14" and ?l = "data_last_of p"
  have fl: "unat ?f \<le> unat ?l + 1" using b(1,3) dl by simp
  have wf: "holes_wf 0 ?H" and sub: "hole_bytes ?H \<subseteq> {0..unat ?m}" using assms by (auto simp: reass_inv_def)
  show ?thesis
  proof (cases "\<not> mf \<and> l < unat ?m")
    case True
    note t = trim_holes_ok [OF wf, of ?l]
    note g = fill_holes_ok [OF t(1) fl]
    show ?thesis using True g t(2) b(3) dl
      by (auto simp: reassctx_add_Some [OF fr] reass_inv_def reass_abs_def spec_add_def fr min_def Let_def)
  next
    case False
    note g = fill_holes_ok [OF wf fl]
    have "hole_bytes ?H \<inter> {0..unat ?m} = hole_bytes ?H" using sub by auto
    moreover have "(if mf then unat ?m else min (unat ?m) l) = unat ?m" using False by auto
    ultimately show ?thesis using False g sub b(3) dl
      by (auto simp: reassctx_add_Some [OF fr] reass_inv_def reass_abs_def spec_add_def fr Let_def)
  qed
qed

interpretation rc: reassembler reassctx_init reassctx_add reassctx_complete reass_inv reass_abs
proof unfold_locales
  show "reass_inv reassctx_init" by (auto simp: reass_inv_def reassctx_init_def)
  show "reass_abs reassctx_init = spec_init" by (simp add: reass_abs_def reassctx_init_def spec_init_def)
  show "reass_inv (reassctx_add c p)" if "reass_inv c" for c p using reassctx_add_ok [OF that] by blast
  show "reass_abs (reassctx_add c p) = spec_add (reass_abs c) p" if "reass_inv c" for c p
    using reassctx_add_ok [OF that] by blast
  show "reassctx_complete c \<longleftrightarrow> fst (reass_abs c) = {}" if "reass_inv c" for c
    using that holes_wf_empty by (auto simp: reassctx_complete_def reass_abs_def reass_inv_def)
qed

lemma packet_list_add: "packet_list (reassctx_add ctx p) = packet_list ctx @ [p]"
proof (cases "frag_range p")
  case (Some r)
  then show ?thesis by (cases r) (simp add: reassctx_add_Some Let_def)
qed (simp add: reassctx_add_None)

lemma packet_list_adds: "packet_list (foldl reassctx_add ctx ps) = packet_list ctx @ ps"
  by (induction ps arbitrary: ctx) (simp_all add: packet_list_add)

lemma mrl_adds: "unat (most_restricting_last (foldl reassctx_add reassctx_init ps)) = Min (limits (set ps))"
  using rc.abs_adds [of ps] by (simp add: reass_abs_def)

section \<open>Properties\<close>

text \<open>
  C4: After any sequence of packets, valid or not, in any order and with any overlap, the holes
  of the context are exactly the bytes up to the announced end that no valid fragment covered,
  in ascending order and disjoint; so the context is complete exactly when every byte arrived,
  and neither depends on the order or the repetition of the packets.
\<close>

theorem reassctx_holes_exact:
  fixes ps :: "packet list"
  defines "ctx \<equiv> foldl reassctx_add reassctx_init ps"
  shows "holes_wf 0 (hole_list ctx) \<and>
    hole_bytes (hole_list ctx) = {0..Min (limits (set ps))} - covered (set ps) \<and>
    unat (most_restricting_last ctx) = Min (limits (set ps)) \<and>
    (reassctx_complete ctx \<longleftrightarrow> {0..Min (limits (set ps))} \<subseteq> covered (set ps)) \<and>
    packet_list ctx = ps"
proof -
  have "reass_inv ctx" unfolding ctx_def by (rule rc.inv_adds [OF rc.inv_init])
  moreover have "reass_abs ctx = ({0..Min (limits (set ps))} - covered (set ps), Min (limits (set ps)))"
    unfolding ctx_def by (rule rc.abs_adds)
  moreover have "packet_list ctx = ps" by (simp add: ctx_def packet_list_adds packet_list_add reassctx_init_def)
  ultimately show ?thesis
    using rc.complete_adds [of ps] by (simp add: reass_inv_def reass_abs_def ctx_def [symmetric])
qed

text \<open>A fragment with a 20-byte header and less than 236 bytes of payload, all equal to \<open>c\<close>.\<close>

definition sample_fragment :: "u8 \<Rightarrow> bool \<Rightarrow> nat \<Rightarrow> u8 \<Rightarrow> packet" where
  "sample_fragment off8 mf len c =
     \<lparr>direction = PACKET_DIRECTION_DOWNLINK, sz = 34 + len,
      data = (\<lambda>_. c)(14 := 0x45, 16 := 0, 17 := of_nat (20 + len), 20 := (if mf then 0x20 else 0), 21 := off8)\<rparr>"

lemma sample_fragment_fields:
  assumes "len < 236"
  shows "unat (ip_hdr_len (data (sample_fragment off8 mf len c)) 14) = 20"
    "unat (ip_total_len (data (sample_fragment off8 mf len c)) 14) = 20 + len"
    "unat (ip_frag_off (data (sample_fragment off8 mf len c)) 14) = 8 * unat off8"
    "ip_more_frags (data (sample_fragment off8 mf len c)) 14 \<noteq> 0 \<longleftrightarrow> mf"
proof -
  have "mk16 0x20 x AND 0x1FFF = ucast x" "mk16 0 x AND 0x1FFF = ucast x" for x :: u8
    by (simp_all add: u16_eq_iff mk16_def bit_simps) (auto dest: bit_imp_le_length)
  then show "unat (ip_frag_off (data (sample_fragment off8 mf len c)) 14) = 8 * unat off8"
    using unat_u8_less [of off8]
    by (simp add: sample_fragment_def ip_frag_off_def hdr_simps unat_word_ariths)
  show "unat (ip_total_len (data (sample_fragment off8 mf len c)) 14) = 20 + len"
    using assms
    by (simp add: sample_fragment_def ip_total_len_def hdr_simps unat_mk16 unsigned_of_nat take_bit_nat_eq_self_iff
        del: of_nat_add)
qed (simp_all add: sample_fragment_def field_defs hdr_simps)

lemma frag_range_sample:
  "0 < len \<Longrightarrow> len < 236 \<Longrightarrow>
    frag_range (sample_fragment off8 mf len c) = Some (8 * unat off8, len - 1 + 8 * unat off8, mf)"
  using sample_fragment_fields [of len off8 mf c] unat_u8_less [of off8]
  by (simp add: frag_range_def Let_def) (simp add: sample_fragment_def)

lemma reassctx_reassembles:
  fixes p0 :: packet and ps :: "packet list"
  defines "ctx \<equiv> foldl reassctx_add reassctx_init (p0 # ps)"
  assumes "reassctx_complete ctx" "\<forall>p\<in>set (p0 # ps). copyable (most_restricting_last ctx) p"
    and "20 \<le> unat (ip_hdr_len (data p0) 14)" "total_alloc loc"
  shows "\<exists>pkt s'. reassctx_reassemble loc s ctx = Inr (Some pkt, s') \<and>
    datagram_of (p0 # ps) (most_restricting_last ctx) pkt"
proof -
  have pl: "packet_list ctx = p0 # ps" by (simp add: ctx_def packet_list_adds packet_list_add reassctx_init_def)
  have cov: "{0..unat (most_restricting_last ctx)} \<subseteq> covered (set (p0 # ps))"
    using assms(2) rc.complete_adds [of "p0 # ps"] mrl_adds [of "p0 # ps"] by (simp only: ctx_def)
  obtain b s' where
    "allocif_alloc loc s (packet_size (14 + unat (ip_hdr_len (data p0) 14) + unat (most_restricting_last ctx) + 1)) = (Some b, s')"
    using total_allocE [OF assms(5)] by blast
  from reassemble_packets_ok [OF assms(3) cov assms(4) this] show ?thesis
    by (auto simp: reassctx_reassemble_def pl)
qed

text \<open>
  C15: A complete context whose packets all passed the checks and start no later than right
  behind the last byte is turned into the datagram: the call succeeds, no copy leaves its
  block, the header is the one of the first packet with the fragment fields reset and a valid
  checksum, and each payload byte is the byte of a fragment that covers its position.
\<close>

theorem reassctx_reassemble_correct:
  fixes p0 :: packet and ps :: "packet list"
  defines "ctx \<equiv> foldl reassctx_add reassctx_init (p0 # ps)"
  assumes "reassctx_complete ctx" "\<forall>p\<in>set (p0 # ps). copyable (most_restricting_last ctx) p"
    and "20 \<le> unat (ip_hdr_len (data p0) 14)" "total_alloc loc"
  shows "\<exists>pkt s'. reassctx_reassemble loc s ctx = Inr (Some pkt, s') \<and>
    datagram_of (p0 # ps) (most_restricting_last ctx) pkt"
  using reassctx_reassembles [OF assms(2-5) [unfolded ctx_def]] unfolding ctx_def .

theorem reassctx_reassemble_correct_witness:
  "\<exists>pkt s'. reassctx_reassemble zero_alloc 0 (foldl reassctx_add reassctx_init
      [sample_fragment 1 False 4 9, sample_fragment 0 True 8 5]) = Inr (Some pkt, s') \<and>
    datagram_of [sample_fragment 1 False 4 9, sample_fragment 0 True 8 5] 11 pkt"
proof -
  let ?p = "sample_fragment 1 False 4 9" and ?q = "sample_fragment 0 True 8 5"
  let ?ctx = "foldl reassctx_add reassctx_init [?p, ?q]"
  have fr: "frag_range ?p = Some (8, 11, False)" "frag_range ?q = Some (0, 7, True)"
    by (simp_all add: frag_range_sample)
  have l: "limits {?p, ?q} = {65535, 11}" and c: "covered {?p, ?q} = {8..11} \<union> {0..7}"
    using fr by (auto simp: limits_def covered_def)
  have "unat (most_restricting_last ?ctx) = 11" using mrl_adds [of "[?p, ?q]"] l by simp
  then have m: "most_restricting_last ?ctx = 11" by (simp add: word_unat_eq_iff)
  have "{0..11} \<subseteq> covered {?p, ?q}" unfolding c by auto
  then have "reassctx_complete ?ctx" using rc.complete_adds [of "[?p, ?q]"] l by simp
  moreover have "copyable 11 ?p" "copyable 11 ?q" using fr by (auto simp: copyable_def)
  ultimately show ?thesis
    using reassctx_reassemble_correct [of ?p "[?q]" zero_alloc 0] m total_zero_alloc
      sample_fragment_fields(1) [of 4 1 False 9] by simp
qed

text \<open>
  C31: A context can become complete and still fault.  When a fragment that starts behind the end
  arrived before the final fragment, the length of its copy wraps around and the copy leaves the
  block; when the first packet has a header length below 20, which the checks accept, the
  checksum routine aborts.
\<close>

theorem reassctx_reassemble_faults:
  assumes "frag_range p = Some (f, l, True)" "frag_range q = Some (0, e, False)" "total_alloc loc"
  defines "ctx \<equiv> foldl reassctx_add reassctx_init [p, q]"
  shows "reassctx_complete (foldl reassctx_add reassctx_init [q]) \<and>
    (e + 1 < f \<longrightarrow> reassctx_complete ctx) \<and>
    (e + 1 < f \<longrightarrow> 20 \<le> unat (ip_hdr_len (data p) 14) \<longrightarrow> reassctx_reassemble loc s ctx = Inl OutOfBounds) \<and>
    (unat (ip_hdr_len (data q) 14) < 20 \<longrightarrow>
      reassctx_reassemble loc s (foldl reassctx_add reassctx_init [q]) = Inl Abort)"
proof -
  have lim: "limits {q} = {65535, e}" "limits {p, q} = {65535, e}" and e: "e < 65536"
    using assms(1,2) frag_range_bounds(2) [OF assms(2)] by (auto simp: limits_def)
  have mins: "Min (limits {q}) = e" "Min (limits {p, q}) = e" using lim e by auto
  have cov: "{0..e} \<subseteq> covered {q}" "{0..e} \<subseteq> covered {p, q}" using assms(2) by (auto simp: covered_def)
  have c: "reassctx_complete (foldl reassctx_add reassctx_init [q])" "reassctx_complete ctx"
    using rc.complete_adds [of "[q]"] rc.complete_adds [of "[p, q]"] mins cov by (simp_all add: ctx_def)
  have m: "unat (most_restricting_last ctx) = e" using mrl_adds [of "[p, q]"] mins by (simp add: ctx_def)
  have pl: "packet_list ctx = [p, q]" "packet_list (foldl reassctx_add reassctx_init [q]) = [q]"
    by (simp_all add: ctx_def packet_list_add reassctx_init_def)
  have "reassctx_reassemble loc s ctx = Inl OutOfBounds" if "e + 1 < f" "20 \<le> unat (ip_hdr_len (data p) 14)"
    using reassemble_packets_overflows [of p p "[q]" f l True "most_restricting_last ctx" loc s]
      assms(1,3) that m by (simp add: reassctx_reassemble_def pl)
  moreover have "reassctx_reassemble loc s (foldl reassctx_add reassctx_init [q]) = Inl Abort"
    if "unat (ip_hdr_len (data q) 14) < 20"
    using reassemble_packets_short_header [OF assms(2) that assms(3)] by (simp only: reassctx_reassemble_def pl(2))
  ultimately show ?thesis using c by blast
qed

theorem reassctx_reassemble_faults_witness:
  "reassctx_reassemble zero_alloc 0 (foldl reassctx_add reassctx_init
     [sample_fragment 2 True 8 1, sample_fragment 0 False 8 2]) = Inl OutOfBounds"
  using reassctx_reassemble_faults [of "sample_fragment 2 True 8 1" 16 23 "sample_fragment 0 False 8 2" 7 zero_alloc 0]
    total_zero_alloc sample_fragment_fields(1) [of 8 2 True 1]
  by (simp add: frag_range_sample)

end
