(* ===== verification/FragReass.thy ===== *)
theory FragReass
  imports IpFrag IpReass
begin

text \<open>
  Fragmentation followed by reassembly.  The fragments that \<^verbatim>\<open>fragment4\<close> makes of a frame, given
  to \<^verbatim>\<open>reassctx_add\<close> in any order and any number of times, are reassembled to the frame itself.
\<close>

section \<open>Headers that agree\<close>

lemma cksum_unique:
  assumes "12 \<le> n" "\<And>i. i < n \<Longrightarrow> i \<noteq> 10 \<Longrightarrow> i \<noteq> 10 + 1 \<Longrightarrow> g (p + i) = m (p + i)"
    and "rfc1071 (mem_bytes g p n) = 0" "rfc1071 (mem_bytes m p n) = 0"
    and "hdr_get16n g (p + 10) \<noteq> 0xFFFF" "hdr_get16n m (p + 10) \<noteq> 0xFFFF"
  shows "hdr_get16n g (p + 10) = hdr_get16n m (p + 10)"
proof -
  let ?A = "be_sum (mem_bytes g p n)" and ?B = "be_sum (mem_bytes m p n)"
  let ?c = "unat (hdr_get16n m (p + 10))" and ?c' = "unat (hdr_get16n g (p + 10))"
  have "?A + ?c = ?B + ?c'" using assms(1,2) by (intro be_sum_update16) auto
  moreover have "?A mod 65535 = 0" "?B mod 65535 = 0"
    using assms(3,4) by (simp_all add: rfc1071_0_iff valid_sum_def)
  ultimately have "?c mod 65535 = ?c' mod 65535" by (metis add_0 mod_add_left_eq)
  moreover have "x < 65535" if "x = unat (w :: u16)" "w \<noteq> 0xFFFF" for x w
  proof -
    have "x \<noteq> 65535" using that by (auto simp: word_unat_eq_iff)
    then show ?thesis using unat_u16_less [of w] that by simp
  qed
  ultimately show ?thesis using assms(5,6) by (simp add: word_unat_eq_iff)
qed

lemma mk16_inject: "mk16 a b = mk16 c d \<longleftrightarrow> a = c \<and> b = d"
  by (metis nth_byte_mk16)

text \<open>The flag and offset bytes are determined by the fields in them.\<close>

lemma flag_bytes_unique:
  assumes "ip_frag_off g p = 0" "ip_frag_off m p = 0" "ip_more_frags g p = ip_more_frags m p"
    and "ip_dont_frag g p = ip_dont_frag m p" "ip_rsvd_bit g p = ip_rsvd_bit m p"
  shows "g (p + 6) = m (p + 6)" "g (p + 7) = m (p + 7)"
proof -
  have z: "a AND 0x1F = 0 \<and> b = 0" if "(mk16 a b AND 0x1FFF) * 8 = 0" for a b :: u8
  proof -
    have le: "unat (mk16 a b AND 0x1FFF) \<le> 0x1FFF"
      using word_and_le1 [of "mk16 a b" "0x1FFF"] by (simp add: word_le_nat_alt and.commute)
    then have "unat ((mk16 a b AND 0x1FFF) * 8) = unat (mk16 a b AND 0x1FFF) * 8"
      by (simp add: unat_word_ariths)
    then have "mk16 a b AND 0x1FFF = 0" using that by (simp add: unsigned_eq_0_iff)
    then show ?thesis by (simp add: u16_eq_iff u8_eq_iff mk16_def bit_simps)
  qed
  have zs: "g (p + 6) AND 0x1F = 0 \<and> g (p + 7) = 0" "m (p + 6) AND 0x1F = 0 \<and> m (p + 7) = 0"
    using assms(1,2) z by (simp_all add: ip_frag_off_def hdr_simps add.commute [of p])
  then show "g (p + 7) = m (p + 7)" by simp
  have "bit (g (p + 6)) 5 = bit (m (p + 6)) 5" "bit (g (p + 6)) 6 = bit (m (p + 6)) 6"
    "bit (g (p + 6)) 7 = bit (m (p + 6)) 7"
    using assms(3-5) by (auto simp: ip_flag_bits split: if_splits)
  then show "g (p + 6) = m (p + 6)" using zs by (simp add: u8_eq_iff bit_simps)
qed

lemma total_len_bytes:
  "ip_total_len g p = ip_total_len m p \<Longrightarrow> g (p + 2) = m (p + 2) \<and> g (p + 3) = m (p + 3)"
  by (simp add: ip_total_len_def hdr_simps mk16_inject add.commute [of p] del: add_2_eq_Suc add_2_eq_Suc')

section \<open>Fragments as packets of the reassembly\<close>

lemma fragment_packet_range:
  assumes "fragment_packet pkt n start len p" "0 < unat len" "20 \<le> unat (ip_hdr_len pkt 14)"
    and "unat start + unat len \<le> n" "n \<le> 65535"
  shows "frag_range p = Some (unat start, unat start + unat len - 1, unat start + unat len < n)"
    "ip_hdr_len (data p) 14 = ip_hdr_len pkt 14"
    "\<And>i. i \<in> covered {p} \<Longrightarrow> frag_byte p i = pkt (14 + unat (ip_hdr_len pkt 14) + i)"
proof -
  show fr: "frag_range p = Some (unat start, unat start + unat len - 1, unat start + unat len < n)"
    using assms by (auto simp: fragment_packet_def frag_range_def Let_def)
  show "ip_hdr_len (data p) 14 = ip_hdr_len pkt 14" using assms(1) by (simp add: fragment_packet_def Let_def)
  show "frag_byte p i = pkt (14 + unat (ip_hdr_len pkt 14) + i)" if "i \<in> covered {p}" for i
  proof -
    have "unat start \<le> i" "i - unat start < unat len" using that fr assms(2) by (auto simp: covered_def)
    moreover from this obtain j where "i = unat start + j" "j < unat len" by (metis le_iff_add add_diff_cancel_left')
    ultimately show ?thesis
      using assms(1) by (auto simp: frag_byte_def fragment_packet_def Let_def add.assoc)
  qed
qed

text \<open>A set of fragments of one frame that together carry its whole payload of \<open>n\<close> bytes.\<close>

definition fragments_of :: "mem \<Rightarrow> nat \<Rightarrow> packet set \<Rightarrow> bool" where
  "fragments_of pkt n P \<longleftrightarrow>
     (\<forall>p\<in>P. \<exists>start len. fragment_packet pkt n start len p \<and> 0 < unat len \<and> unat start + unat len \<le> n) \<and>
     (\<forall>i<n. \<exists>p\<in>P. \<exists>start len. fragment_packet pkt n start len p \<and> 0 < unat len \<and> unat start + unat len \<le> n \<and>
        unat start \<le> i \<and> i < unat start + unat len)"

lemma fragments_of_cover:
  assumes "fragments_of pkt n P" "0 < n" "n \<le> 65535" "20 \<le> unat (ip_hdr_len pkt 14)"
  shows "covered P = {0..<n}" "limits P = {65535, n - 1}"
    "\<And>p. p \<in> P \<Longrightarrow> \<exists>f l mf. frag_range p = Some (f, l, mf) \<and> f < n"
    "\<And>p. p \<in> P \<Longrightarrow> ip_hdr_len (data p) 14 = ip_hdr_len pkt 14"
    "\<And>p i. p \<in> P \<Longrightarrow> i \<in> covered {p} \<Longrightarrow> frag_byte p i = pkt (14 + unat (ip_hdr_len pkt 14) + i)"
proof -
  have ex: "\<exists>start len. fragment_packet pkt n start len p \<and> 0 < unat len \<and> unat start + unat len \<le> n" if "p \<in> P" for p
    using assms(1) that by (auto simp: fragments_of_def)
  have range: "\<exists>f l mf. frag_range p = Some (f, l, mf) \<and> f \<le> l \<and> l < n \<and> (mf \<longleftrightarrow> l + 1 < n)" if pP: "p \<in> P" for p
  proof -
    obtain start len where "fragment_packet pkt n start len p" "0 < unat len" "unat start + unat len \<le> n"
      using ex [OF pP] by blast
    from fragment_packet_range(1) [OF this(1,2) assms(4) this(3) assms(3)] this(2,3)
    show ?thesis by auto
  qed
  have has: "\<exists>p\<in>P. \<exists>f l mf. frag_range p = Some (f, l, mf) \<and> f \<le> i \<and> i \<le> l" if "i < n" for i
  proof -
    obtain p start len where p: "p \<in> P" "fragment_packet pkt n start len p" "0 < unat len"
      "unat start + unat len \<le> n" "unat start \<le> i" "i < unat start + unat len"
      using assms(1) \<open>i < n\<close> by (auto simp: fragments_of_def)
    from fragment_packet_range(1) [OF p(2,3) assms(4) p(4) assms(3)] p(1,5,6) show ?thesis by fastforce
  qed
  show "covered P = {0..<n}"
    using has range by (fastforce simp: covered_def)
  show "limits P = {65535, n - 1}"
  proof -
    have "l = n - 1" if "p \<in> P" "frag_range p = Some (f, l, False)" for p f l
      using range [OF that(1)] that(2) by auto
    moreover have "\<exists>p\<in>P. \<exists>f. frag_range p = Some (f, n - 1, False)"
    proof -
      obtain p f l mf where p: "p \<in> P" "frag_range p = Some (f, l, mf)" "n - 1 \<le> l"
        using has [of "n - 1"] assms(2) by auto
      then have "l = n - 1" "\<not> mf" using range [OF p(1)] by auto
      then show ?thesis using p by (intro bexI [of _ p] exI [of _ f]) auto
    qed
    ultimately show ?thesis by (auto simp: limits_def)
  qed
  show "\<exists>f l mf. frag_range p = Some (f, l, mf) \<and> f < n" if "p \<in> P" for p using range [OF that] by fastforce
  show "ip_hdr_len (data p) 14 = ip_hdr_len pkt 14" if "p \<in> P" for p
    using ex [OF that] by (auto simp: fragment_packet_def Let_def)
  show "frag_byte p i = pkt (14 + unat (ip_hdr_len pkt 14) + i)" if "p \<in> P" "i \<in> covered {p}" for p i
    using ex [OF that(1)] fragment_packet_range(3) [OF _ _ assms(4) _ assms(3) that(2)] by blast
qed

text \<open>The datagram built from such fragments is the frame, byte for byte.\<close>

lemma datagram_of_fragments:
  fixes psz :: u16
  assumes "fragmentable pkt (unat psz)" "unat (ip_total_len pkt 14) = unat psz - 14"
    and "ip_hdr_cksum pkt 14 \<noteq> 0xFFFF" "fragments_of pkt n P" "q \<in> P"
    and "n = unat psz - 14 - unat (ip_hdr_len pkt 14)" "0 < n"
    and "datagram_from (data q) P mrl out" "unat mrl = n - 1"
  shows "sz out = unat psz \<and> (\<forall>a < unat psz. data out a = pkt a)"
proof -
  let ?ihl = "ip_hdr_len pkt 14" and ?g = "data out" and ?d0 = "data q"
  let ?h = "14 + unat ?ihl"
  have hs: "20 \<le> unat ?ihl" "?h \<le> unat psz" using assms(1) by (simp_all add: fragmentable_def)
  have n: "n \<le> 65535" using assms(6) unat_u16_less [of psz] by simp
  note c = fragments_of_cover [OF assms(4,7) n hs(1)]
  have ihl0: "ip_hdr_len ?d0 14 = ?ihl" using c(4) [OF assms(5)] .
  note dg = assms(8) [unfolded datagram_from_def Let_def ihl0]
  obtain start len where "fragment_packet pkt n start len q"
    using assms(4,5) by (auto simp: fragments_of_def)
  then have fp: "\<forall>a < ?h. a \<in> {16, 17, 20, 21, 24, 25} \<or> ?d0 a = pkt a"
    "ip_dont_frag ?d0 14 = ip_dont_frag pkt 14" "ip_rsvd_bit ?d0 14 = ip_rsvd_bit pkt 14"
    by (simp_all add: fragment_packet_def Let_def)
  have szo: "sz out = unat psz" using dg assms(6,7,9) hs(2) by simp
  have pay: "?g (?h + i) = pkt (?h + i)" if "i < n" for i
    using datagram_payload [OF assms(8), where D = "\<lambda>i. pkt (?h + i)" and i = i] c(5) that assms(9) ihl0 by simp
  have "unat (ip_total_len ?g 14) = unat psz - 14"
  proof -
    have "ip_total_len ?g 14 = ucast ?ihl + mrl + 1" using dg by simp
    moreover have "unat (ucast ?ihl + mrl + 1) = unat ?ihl + unat mrl + 1"
      using assms(6,7,9) hs unat_u16_less [of psz] by (simp add: unat_word_ariths)
    ultimately show ?thesis using assms(6,7,9) hs by simp
  qed
  then have tl: "?g 16 = pkt 16 \<and> ?g 17 = pkt 17"
    using total_len_bytes [of ?g 14 pkt] assms(2) by (simp add: word_unat_eq_iff)
  have fl: "?g 20 = pkt 20" "?g 21 = pkt 21"
    using flag_bytes_unique [of ?g 14 pkt] dg fp(2,3) assms(1) by (auto simp: fragmentable_def)
  have hb: "?g a = pkt a" if "a < ?h" "a \<noteq> 24" "a \<noteq> 25" for a
    using dg fp(1) tl fl that by (metis empty_iff insert_iff)
  have ih: "ip_hdr_len ?g 14 = ?ihl" using dg by simp
  have "hdr_get16n ?g (14 + 10) = hdr_get16n pkt (14 + 10)"
  proof (rule cksum_unique [where n = "unat ?ihl"])
    show "12 \<le> unat ?ihl" using hs by simp
    show "?g (14 + i) = pkt (14 + i)" if "i < unat ?ihl" "i \<noteq> 10" "i \<noteq> 10 + 1" for i using hb [of "14 + i"] that by simp
    show "rfc1071 (mem_bytes ?g 14 (unat ?ihl)) = 0"
      using dg ih by (simp add: ip_hdr_cksum_calc_rfc1071 split: if_splits)
    show "rfc1071 (mem_bytes pkt 14 (unat ?ihl)) = 0"
      using assms(1) by (simp add: fragmentable_def ip_hdr_cksum_calc_rfc1071 split: if_splits)
    show "hdr_get16n ?g (14 + 10) \<noteq> 0xFFFF" "hdr_get16n pkt (14 + 10) \<noteq> 0xFFFF"
      using dg assms(3) by (simp_all add: ip_hdr_cksum_def)
  qed
  then have ck: "?g 24 = pkt 24" "?g 25 = pkt 25" by (simp_all add: hdr_simps mk16_inject)
  have "?g a = pkt a" if "a < unat psz" for a
  proof (cases "a < ?h")
    case True
    then show ?thesis using hb [of a] ck by (cases "a = 24"; cases "a = 25") auto
  next
    case False
    then obtain i where "a = ?h + i" by (metis le_iff_add not_less)
    then show ?thesis using pay [of i] that assms(6) by simp
  qed
  with szo show ?thesis by blast
qed

section \<open>Round trip\<close>

text \<open>Requests for non-empty fragments that cover a payload of \<open>n\<close> bytes.\<close>

definition requests_cover :: "nat \<Rightarrow> fragment list \<Rightarrow> bool" where
  "requests_cover n frags \<longleftrightarrow>
     list_all (\<lambda>f. request_ok n f \<and> 0 < unat (datalen f)) frags \<and>
     (\<forall>i<n. \<exists>f\<in>set frags. unat (datastart f) \<le> i \<and> i < unat (datastart f) + unat (datalen f))"

definition fragment_packets :: "fragment list \<Rightarrow> packet set" where
  "fragment_packets frags = {p. \<exists>f\<in>set frags. frag_pkt f = Some p}"

lemma fragments_of_requests:
  assumes "requests_cover n frags" "list_all2 (fragment_of pkt n) frags frags'"
  shows "fragments_of pkt n (fragment_packets frags')"
proof -
  have ok: "request_ok n f" "0 < unat (datalen f)" if "f \<in> set frags" for f
    using assms(1) that by (auto simp: requests_cover_def list_all_iff)
  have 1: "\<exists>f\<in>set frags. fragment_packet pkt n (datastart f) (datalen f) p" if p: "p \<in> fragment_packets frags'" for p
  proof -
    obtain f' where f': "f' \<in> set frags'" "frag_pkt f' = Some p" using p by (auto simp: fragment_packets_def)
    from f'(1) assms(2) obtain f where "f \<in> set frags" "fragment_of pkt n f f'"
      by (metis in_set_conv_nth list_all2_conv_all_nth)
    then show ?thesis using f'(2) by (auto simp: fragment_of_def)
  qed
  have 2: "\<exists>p\<in>fragment_packets frags'. fragment_packet pkt n (datastart f) (datalen f) p" if f: "f \<in> set frags" for f
  proof -
    from f assms(2) obtain f' where "f' \<in> set frags'" "fragment_of pkt n f f'"
      by (metis in_set_conv_nth list_all2_conv_all_nth)
    then show ?thesis by (auto simp: fragment_of_def fragment_packets_def)
  qed
  show ?thesis
    unfolding fragments_of_def
  proof (intro conjI ballI allI impI)
    fix p assume "p \<in> fragment_packets frags'"
    from 1 [OF this] obtain f where "f \<in> set frags" "fragment_packet pkt n (datastart f) (datalen f) p" by blast
    with ok [of f] show "\<exists>start len. fragment_packet pkt n start len p \<and> 0 < unat len \<and> unat start + unat len \<le> n"
      unfolding request_ok_def by blast
  next
    fix i assume "i < n"
    then obtain f where f: "f \<in> set frags" "unat (datastart f) \<le> i" "i < unat (datastart f) + unat (datalen f)"
      using assms(1) by (auto simp: requests_cover_def)
    from 2 [OF f(1)] ok [OF f(1)] f(2,3)
    show "\<exists>p\<in>fragment_packets frags'. \<exists>start len. fragment_packet pkt n start len p \<and> 0 < unat len \<and>
      unat start + unat len \<le> n \<and> unat start \<le> i \<and> i < unat start + unat len"
      unfolding request_ok_def by blast
  qed
qed

lemma reassemble_fragments:
  fixes psz :: u16
  assumes "fragmentable pkt (unat psz)" "unat (ip_total_len pkt 14) = unat psz - 14"
    and "ip_hdr_cksum pkt 14 \<noteq> 0xFFFF" "fragments_of pkt n (set qs)"
    and "n = unat psz - 14 - unat (ip_hdr_len pkt 14)" "0 < n" "total_alloc loc"
  defines "ctx \<equiv> foldl reassctx_add reassctx_init qs"
  shows "reassctx_complete ctx \<and> (\<exists>out s'. reassctx_reassemble loc s ctx = Inr (Some out, s') \<and>
    sz out = unat psz \<and> (\<forall>a < unat psz. data out a = pkt a))"
proof -
  have hs: "20 \<le> unat (ip_hdr_len pkt 14)" using assms(1) by (simp add: fragmentable_def)
  have n: "n \<le> 65535" using assms(5) unat_u16_less [of psz] by simp
  note c = fragments_of_cover [OF assms(4,6) n hs]
  have ne: "qs \<noteq> []" using assms(4,6) by (auto simp: fragments_of_def)
  then obtain q qs' where qs: "qs = q # qs'" by (cases qs) auto
  have mrl: "unat (most_restricting_last ctx) = n - 1"
    using mrl_adds [of qs] c(2) n assms(6) by (simp add: ctx_def)
  have comp: "reassctx_complete ctx"
    using rc.complete_adds [of qs] c(1,2) n assms(6) by (auto simp: ctx_def)
  have cp: "\<forall>p\<in>set (q # qs'). copyable (most_restricting_last ctx) p"
    using c(3) mrl unfolding copyable_def qs by fastforce
  have h0: "20 \<le> unat (ip_hdr_len (data q) 14)" using c(4) [of q] hs qs by simp
  have cov: "{0..unat (most_restricting_last ctx)} \<subseteq> covered (set (q # qs'))"
  proof -
    have "{0..n - 1} = {0..<n}" using assms(6) by auto
    then show ?thesis using c(1) mrl unfolding qs by (simp only: order.refl)
  qed
  obtain b s' where
    "allocif_alloc loc s (packet_size (14 + unat (ip_hdr_len (data q) 14) + unat (most_restricting_last ctx) + 1)) = (Some b, s')"
    using total_allocE [OF assms(7)] by blast
  from reassemble_packets_ok [OF cp cov h0 this] obtain out where
    out: "reassemble_packets loc s qs (most_restricting_last ctx) = Inr (Some out, s')"
    "datagram_of qs (most_restricting_last ctx) out" unfolding qs by blast
  have pl: "packet_list ctx = qs" by (simp add: ctx_def packet_list_adds reassctx_init_def)
  show ?thesis
    using comp out(1) datagram_of_fragments [OF assms(1-4) _ assms(5,6) _ mrl, of "hd qs" out] out(2) ne
    by (auto simp: reassctx_reassemble_def pl datagram_of_def)
qed

text \<open>
  C1: Fragmentation and reassembly are inverse.  Whatever aligned, non-empty requests cover the
  payload, the fragments that \<^verbatim>\<open>fragment4\<close> makes, delivered to \<^verbatim>\<open>reassctx_add\<close> in any order and
  with any repetition, complete the context, and \<^verbatim>\<open>reassctx_reassemble\<close> returns the original
  frame byte for byte, checksum included.
\<close>

theorem fragment_reassemble_roundtrip:
  fixes psz :: u16
  assumes "fragmentable pkt (unat psz)" "unat (ip_total_len pkt 14) = unat psz - 14"
    and "ip_hdr_cksum pkt 14 \<noteq> 0xFFFF" "14 + unat (ip_hdr_len pkt 14) < unat psz"
    and "requests_cover (unat psz - 14 - unat (ip_hdr_len pkt 14)) frags"
    and "total_alloc loc" "total_alloc loc2"
  shows "\<exists>frags' s1. fragment4 loc s pkt psz frags = Inr (0, frags', s1) \<and>
    (\<forall>qs. set qs = fragment_packets frags' \<longrightarrow>
      reassctx_complete (foldl reassctx_add reassctx_init qs) \<and>
      (\<exists>out s2. reassctx_reassemble loc2 t (foldl reassctx_add reassctx_init qs) = Inr (Some out, s2) \<and>
        sz out = unat psz \<and> (\<forall>a < unat psz. data out a = pkt a)))"
proof -
  let ?n = "unat psz - 14 - unat (ip_hdr_len pkt 14)"
  have n: "0 < ?n" using assms(4) by simp
  have "list_all (request_ok ?n) frags" using assms(5) by (auto simp: requests_cover_def list_all_iff)
  with fragment4_succeeds [OF assms(1) _ assms(6)] obtain frags' s1 where
    f: "fragment4 loc s pkt psz frags = Inr (0, frags', s1)" "list_all2 (fragment_of pkt ?n) frags frags'"
    by blast
  have "fragments_of pkt ?n (set qs)" if "set qs = fragment_packets frags'" for qs
    using fragments_of_requests [OF assms(5) f(2)] that by simp
  with f(1) reassemble_fragments [OF assms(1-3) _ refl n assms(7)] show ?thesis by blast
qed

theorem fragment_reassemble_roundtrip_witness:
  "\<exists>frags' s1. fragment4 zero_alloc 0 sample_frame 50
     [\<lparr>datastart = 8, datalen = 8, frag_pkt = None\<rparr>, \<lparr>datastart = 0, datalen = 8, frag_pkt = None\<rparr>] =
       Inr (0, frags', s1) \<and>
    (\<forall>qs. set qs = fragment_packets frags' \<longrightarrow>
      reassctx_complete (foldl reassctx_add reassctx_init qs) \<and>
      (\<exists>out s2. reassctx_reassemble zero_alloc 0 (foldl reassctx_add reassctx_init qs) = Inr (Some out, s2) \<and>
        sz out = unat (50 :: u16) \<and> (\<forall>a < unat (50 :: u16). data out a = sample_frame a)))"
proof (rule fragment_reassemble_roundtrip)
  show "fragmentable sample_frame (unat (50 :: u16))" using fragmentable_sample(1) by simp
  show "14 + unat (ip_hdr_len sample_frame 14) < unat (50 :: u16)" using fragmentable_sample(2) by simp
  show "requests_cover (unat (50 :: u16) - 14 - unat (ip_hdr_len sample_frame 14))
     [\<lparr>datastart = 8, datalen = 8, frag_pkt = None\<rparr>, \<lparr>datastart = 0, datalen = 8, frag_pkt = None\<rparr>]"
    using fragmentable_sample(2) by (auto simp: requests_cover_def request_ok_def)
qed (simp_all add: total_zero_alloc, simp_all add: sample_frame_def field_defs hdr_simps mk16_def)

end
