(* ===== verification/Rfc791.thy ===== *)
theory Rfc791
  imports IpReass
begin

text \<open>
  Reassembly with a bitmap of 8-byte blocks, \<^verbatim>\<open>src/ipfrag/rfc791.c\<close>.  A fragment sets the bits of
  the blocks it covers wholly, whole words at once where it can; the lemmas show that this is
  the plain loop over the bits, what \<^verbatim>\<open>rfc791ctx_complete\<close> decides, that it is sound, and that it
  fails on datagrams whose length is a multiple of 8.
\<close>

section \<open>Model\<close>

record rfc791ctx =
  rfc791_last :: u16
  rfc791_packets :: "packet list"
  bits :: "u64 list"

definition rfc791ctx_init :: rfc791ctx where
  "rfc791ctx_init = \<lparr>rfc791_last = 65535, rfc791_packets = [], bits = replicate 128 0\<rparr>"

definition rfc791ctx_free :: "'s allocif \<Rightarrow> 's \<Rightarrow> rfc791ctx \<Rightarrow> rfc791ctx \<times> 's" where
  "rfc791ctx_free loc s ctx = (ctx\<lparr>rfc791_packets := []\<rparr>, free_packets loc s (rfc791_packets ctx))"

definition rfc791ctx_reassemble :: "'s allocif \<Rightarrow> 's \<Rightarrow> rfc791ctx \<Rightarrow> (packet option \<times> 's) outcome" where
  "rfc791ctx_reassemble loc s ctx = reassemble_packets loc s (rfc791_packets ctx) (rfc791_last ctx)"

text \<open>\<^verbatim>\<open>ctx->bits[i/64] |= 1ULL<<(i%64)\<close> for \<open>i\<close> from \<open>a\<close> to \<open>b - 1\<close>, and the loop over whole words.\<close>

definition set_bits :: "nat \<Rightarrow> nat \<Rightarrow> u64 list \<Rightarrow> u64 list" where
  "set_bits a b ws = fold (\<lambda>i ws. ws[i div 64 := ws ! (i div 64) OR push_bit (i mod 64) 1]) [a..<b] ws"

definition set_words :: "nat \<Rightarrow> nat \<Rightarrow> u64 list \<Rightarrow> u64 list" where
  "set_words a b ws = fold (\<lambda>i ws. ws[i := - 1]) [a..<b] ws"

definition rfc791_mark :: "nat \<Rightarrow> nat \<Rightarrow> u64 list \<Rightarrow> u64 list" where
  "rfc791_mark data_first data_last ws =
     (let firsttotal = (data_first + 8 * 64 - 1) div (8 * 64);
          onepastlasttotal = (data_last + 1) div (8 * 64);
          firstmaxbit = firsttotal * 64;
          secondminbit = onepastlasttotal * 64;
          firstmaxbit = (if firstmaxbit > (data_last + 1) div 8 then (data_last + 1) div 8 else firstmaxbit);
          secondminbit = (if secondminbit < data_first div 8 then data_first div 8 else secondminbit);
          ws = set_bits (data_first div 8) firstmaxbit ws;
          ws = set_words firsttotal onepastlasttotal ws
      in set_bits secondminbit ((data_last + 1) div 8) ws)"

definition rfc791ctx_add :: "rfc791ctx \<Rightarrow> packet \<Rightarrow> rfc791ctx" where
  "rfc791ctx_add ctx pkt =
     (let d = data pkt;
          ip = ether_const_payload 0;
          ctx = ctx\<lparr>rfc791_packets := rfc791_packets ctx @ [pkt]\<rparr>
      in if sz pkt < 34 \<or> ip_total_len d ip \<le> ucast (ip_hdr_len d ip) \<or> unat (ip_total_len d ip) + 14 > sz pkt
         then ctx
         else let data_first = ip_frag_off d ip
              in if unat (ip_total_len d ip) - (unat (ip_hdr_len d ip) + 1) + unat (ip_frag_off d ip) > 65535
                 then ctx
                 else let data_last = ip_total_len d ip - (ucast (ip_hdr_len d ip) + 1) + ip_frag_off d ip;
                          ctx = (if ip_more_frags d ip = 0 \<and> rfc791_last ctx > data_last
                                 then ctx\<lparr>rfc791_last := data_last\<rparr> else ctx)
                      in ctx\<lparr>bits := rfc791_mark (unat data_first) (unat data_last) (bits ctx)\<rparr>)"

text \<open>The library function: one plus the index of the lowest set bit, or 0.\<close>

definition ffsll :: "u64 \<Rightarrow> nat" where
  "ffsll w = (case find (\<lambda>i. bit w i) [0..<64] of None \<Rightarrow> 0 | Some i \<Rightarrow> i + 1)"

definition rfc791ctx_complete :: "rfc791ctx \<Rightarrow> bool" where
  "rfc791ctx_complete ctx =
     (let last_bit = unat (rfc791_last ctx) div 8;
          bitidx = last_bit div 64;
          bitoff = last_bit mod 64
      in if rfc791_last ctx = 65535 then False
         else if \<exists>i\<in>set [0..<bitidx]. bits ctx ! i \<noteq> - 1 then False
         else ffsll (NOT (bits ctx ! bitidx)) = bitoff + 1)"

section \<open>Bitmaps\<close>

text \<open>Block \<open>j\<close> of a bitmap.\<close>

definition blk :: "u64 list \<Rightarrow> nat \<Rightarrow> bool" where
  "blk ws j \<longleftrightarrow> bit (ws ! (j div 64)) (j mod 64)"

lemma blk_set_bit:
  assumes "i div 64 < length ws"
  shows "blk (ws[i div 64 := ws ! (i div 64) OR push_bit (i mod 64) 1]) j \<longleftrightarrow> j = i \<or> blk ws j"
proof (cases "j div 64 = i div 64")
  case True
  then have "j mod 64 = i mod 64 \<longleftrightarrow> j = i" by (metis mult_div_mod_eq)
  then show ?thesis using assms True by (auto simp: blk_def bit_simps)
next
  case False
  then show ?thesis by (auto simp: blk_def)
qed

lemma set_bits_ok:
  assumes "b \<le> 64 * length ws"
  shows "length (set_bits a b ws) = length ws" "blk (set_bits a b ws) j \<longleftrightarrow> (a \<le> j \<and> j < b) \<or> blk ws j"
proof -
  have "length (set_bits a b ws) = length ws \<and> (blk (set_bits a b ws) j \<longleftrightarrow> (a \<le> j \<and> j < b) \<or> blk ws j)"
    using assms
  proof (induction b)
    case (Suc b)
    show ?case
    proof (cases "a \<le> b")
      case True
      let ?ws = "set_bits a b ws"
      have s: "set_bits a (Suc b) ws = ?ws[b div 64 := ?ws ! (b div 64) OR push_bit (b mod 64) 1]"
        using True by (simp add: set_bits_def)
      have "b div 64 < length ?ws" using Suc by auto
      then show ?thesis unfolding s blk_set_bit [OF \<open>b div 64 < length ?ws\<close>] using Suc True by auto
    qed (auto simp: set_bits_def)
  qed (simp add: set_bits_def)
  then show "length (set_bits a b ws) = length ws" "blk (set_bits a b ws) j \<longleftrightarrow> (a \<le> j \<and> j < b) \<or> blk ws j"
    by auto
qed

lemma set_words_ok:
  assumes "b \<le> length ws"
  shows "length (set_words a b ws) = length ws \<and>
    (blk (set_words a b ws) j \<longleftrightarrow> (64 * a \<le> j \<and> j < 64 * b) \<or> blk ws j)"
  using assms
proof (induction b)
  case (Suc b)
  show ?case
  proof (cases "a \<le> b")
    case True
    let ?ws = "set_words a b ws"
    have s: "set_words a (Suc b) ws = ?ws[b := - 1]" using True by (simp add: set_words_def)
    have "blk (?ws[b := - 1]) j \<longleftrightarrow> j div 64 = b \<or> blk ?ws j"
      using Suc by (auto simp: blk_def nth_list_update bit_simps)
    moreover have "j div 64 = b \<longleftrightarrow> 64 * b \<le> j \<and> j < 64 * Suc b" by (auto simp: div_nat_eqI)
    ultimately show ?thesis using Suc True s by auto
  qed (auto simp: set_words_def)
qed (simp add: set_words_def)

text \<open>Two bitmaps of the same length with the same blocks are equal.\<close>

lemma bitmap_eqI:
  assumes "length ws = length vs" "\<And>j. j < 64 * length ws \<Longrightarrow> blk ws j = blk vs j"
  shows "ws = vs"
proof (rule nth_equalityI)
  fix i assume i: "i < length ws"
  show "ws ! i = vs ! i"
  proof (rule bit_word_eqI)
    fix n assume n: "n < LENGTH(64)"
    then show "bit (ws ! i) n = bit (vs ! i) n"
      using assms(2) [of "64 * i + n"] i by (simp add: blk_def)
  qed
qed (fact assms(1))

lemma rfc791_mark_ok:
  assumes "length ws = 128" "f \<le> l" "l < 65536"
  shows "length (rfc791_mark f l ws) = 128"
    "blk (rfc791_mark f l ws) j \<longleftrightarrow> (f div 8 \<le> j \<and> j < (l + 1) div 8) \<or> blk ws j"
proof -
  define ft where "ft = (f + 8 * 64 - 1) div (8 * 64)"
  define ol where "ol = (l + 1) div (8 * 64)"
  define e where "e = (l + 1) div 8"
  have e: "e \<le> 64 * 128" "ol \<le> 128" using assms(3) by (auto simp: e_def ol_def)
  have r: "64 * ol \<le> e" "e < 64 * ol + 64" "f div 8 \<le> 64 * ft" "ft \<le> ol \<or> 64 * ol + 64 \<le> 64 * ft"
    "ft \<le> ol \<or> 64 * ol \<le> f div 8"
    unfolding e_def ol_def ft_def by auto
  let ?w1 = "set_bits (f div 8) (if ft * 64 > e then e else ft * 64) ws"
  let ?w2 = "set_words ft ol ?w1"
  have w: "rfc791_mark f l ws = set_bits (if ol * 64 < f div 8 then f div 8 else ol * 64) e ?w2"
    by (simp only: rfc791_mark_def Let_def ft_def ol_def e_def)
  have 1: "length ?w1 = 128" "blk ?w1 j \<longleftrightarrow> (f div 8 \<le> j \<and> j < (if ft * 64 > e then e else ft * 64)) \<or> blk ws j"
    using set_bits_ok [of "if ft * 64 > e then e else ft * 64" ws "f div 8"] assms(1) e by auto
  have 2: "length ?w2 = 128" "blk ?w2 j \<longleftrightarrow> (64 * ft \<le> j \<and> j < 64 * ol) \<or> blk ?w1 j"
    using set_words_ok [of ol ?w1 ft j] 1(1) e by auto
  have 3: "length (rfc791_mark f l ws) = 128"
    "blk (rfc791_mark f l ws) j \<longleftrightarrow> ((if ol * 64 < f div 8 then f div 8 else ol * 64) \<le> j \<and> j < e) \<or> blk ?w2 j"
    unfolding w using set_bits_ok [of e ?w2] 2(1) e by auto
  show "length (rfc791_mark f l ws) = 128" by (fact 3(1))
  show "blk (rfc791_mark f l ws) j \<longleftrightarrow> (f div 8 \<le> j \<and> j < (l + 1) div 8) \<or> blk ws j"
    using r unfolding 3(2) 2(2) 1(2) e_def [symmetric] by auto
qed

lemma ffsll_not: "ffsll (NOT w) = k + 1 \<longleftrightarrow> k < 64 \<and> \<not> bit w k \<and> (\<forall>i<k. bit w i)"
proof -
  have "ffsll (NOT w) = k + 1 \<longleftrightarrow> find (\<lambda>i. bit (NOT w) i) [0..<64] = Some k"
    by (auto simp: ffsll_def split: option.splits)
  also have "\<dots> \<longleftrightarrow> k < 64 \<and> \<not> bit w k \<and> (\<forall>i<k. bit w i)"
    by (auto simp: find_Some_iff bit_simps)
  finally show ?thesis .
qed

lemma word_full_iff: "(w :: u64) = - 1 \<longleftrightarrow> (\<forall>n<64. bit w n)"
  by (auto simp: bit_eq_iff bit_simps possible_bit_def dest: bit_imp_le_length)

lemma rfc791ctx_complete_iff:
  fixes ctx
  defines "b \<equiv> unat (rfc791_last ctx) div 8"
  shows "rfc791ctx_complete ctx \<longleftrightarrow> rfc791_last ctx \<noteq> 65535 \<and> (\<forall>j<b. blk (bits ctx) j) \<and> \<not> blk (bits ctx) b"
proof -
  have "(\<forall>j<b. blk (bits ctx) j) \<longleftrightarrow>
      (\<forall>i<b div 64. bits ctx ! i = - 1) \<and> (\<forall>n<b mod 64. bit (bits ctx ! (b div 64)) n)" (is "?L \<longleftrightarrow> ?R")
  proof
    assume L: ?L
    have "bit (bits ctx ! i) n" if "i < b div 64" "n < 64" for i n
    proof -
      have "64 * i + n < b" using that times_div_less_eq_dividend [of 64 b] by linarith
      then show ?thesis using L that by (auto simp: blk_def dest: spec [of _ "64 * i + n"])
    qed
    moreover have "bit (bits ctx ! (b div 64)) n" if "n < b mod 64" for n
    proof -
      have "64 * (b div 64) + n < b" "n < 64" using that mod_less_divisor [of 64 b] mult_div_mod_eq [of 64 b] by linarith+
      then show ?thesis using L by (auto simp: blk_def dest: spec [of _ "64 * (b div 64) + n"])
    qed
    ultimately show ?R by (simp add: word_full_iff)
  next
    assume R: ?R
    show ?L
    proof (intro allI impI)
      fix j assume "j < b"
      then have "j div 64 < b div 64 \<or> j div 64 = b div 64 \<and> j mod 64 < b mod 64"
        by (metis div_le_mono le_neq_implies_less less_imp_le_nat mult_div_mod_eq nat_add_left_cancel_less)
      then show "blk (bits ctx) j" using R by (auto simp: blk_def word_full_iff)
    qed
  qed
  then show ?thesis
    unfolding rfc791ctx_complete_def b_def [symmetric] Let_def
    using ffsll_not [of "bits ctx ! (b div 64)" "b mod 64"] by (auto simp: blk_def)
qed

section \<open>Contexts after any packets\<close>

lemma rfc791ctx_add_None:
  "frag_range p = None \<Longrightarrow> rfc791ctx_add ctx p = ctx\<lparr>rfc791_packets := rfc791_packets ctx @ [p]\<rparr>"
  unfolding frag_range_None_iff by (auto simp: rfc791ctx_add_def ether_const_payload_def Let_def)

lemma rfc791ctx_add_Some:
  assumes "frag_range p = Some (f, l, mf)"
  shows "rfc791ctx_add ctx p = ctx\<lparr>rfc791_packets := rfc791_packets ctx @ [p],
    rfc791_last := (if \<not> mf \<and> l < unat (rfc791_last ctx) then data_last_of p else rfc791_last ctx),
    bits := rfc791_mark f l (bits ctx)\<rparr>"
proof -
  have n: "frag_range p \<noteq> None" using assms by simp
  have "data_last_of p < rfc791_last ctx \<longleftrightarrow> l < unat (rfc791_last ctx)"
    using unat_data_last [OF assms] by (simp add: word_less_nat_alt)
  then show ?thesis
    using n frag_range_bounds(3,7) [OF assms] unat_data_last [OF assms] unfolding frag_range_None_iff
    by (simp add: rfc791ctx_add_def ether_const_payload_def Let_def)
qed

text \<open>The blocks that a collection of packets marks.\<close>

definition marked :: "packet set \<Rightarrow> nat set" where
  "marked P = {j. \<exists>p\<in>P. \<exists>f l mf. frag_range p = Some (f, l, mf) \<and> f div 8 \<le> j \<and> j < (l + 1) div 8}"

lemma rfc791_adds:
  defines "ctx \<equiv> \<lambda>ps. foldl rfc791ctx_add rfc791ctx_init ps"
  shows "length (bits (ctx ps)) = 128 \<and> (\<forall>j < 8192. blk (bits (ctx ps)) j \<longleftrightarrow> j \<in> marked (set ps)) \<and>
    unat (rfc791_last (ctx ps)) = Min (limits (set ps)) \<and> rfc791_packets (ctx ps) = ps"
proof (induction ps rule: rev_induct)
  case Nil
  then show ?case by (simp add: ctx_def rfc791ctx_init_def limits_def marked_def blk_def)
next
  case (snoc p ps)
  have s: "ctx (ps @ [p]) = rfc791ctx_add (ctx ps) p" by (simp add: ctx_def)
  have fin: "finite (set ps)" by simp
  have lim: "Min (limits (set (ps @ [p]))) = min (Min (limits {p})) (Min (limits (set ps)))"
    using Min_limits_insert [OF fin, of p] by simp
  show ?case
  proof (cases "frag_range p")
    case None
    then have "limits {p} = {65535}" by (auto simp: limits_def)
    moreover have "marked (set (ps @ [p])) = marked (set ps)" using None by (auto simp: marked_def)
    ultimately show ?thesis
      using snoc None lim Min_limits_le [OF fin] unfolding s by (simp add: rfc791ctx_add_None min_absorb2)
  next
    case (Some r)
    obtain f l mf where fr: "frag_range p = Some (f, l, mf)" using Some by (cases r) auto
    note b = frag_range_bounds [OF fr]
    have m: "marked (set (ps @ [p])) = {j. f div 8 \<le> j \<and> j < (l + 1) div 8} \<union> marked (set ps)"
      using fr by (auto simp: marked_def)
    have "limits {p} = (if mf then {65535} else {65535, l})" using fr by (auto simp: limits_def)
    then have "Min (limits {p}) = (if mf then 65535 else l)" using b(2) by auto
    then have l: "unat (rfc791_last (ctx (ps @ [p]))) = Min (limits (set (ps @ [p])))"
      using snoc lim Min_limits_le [OF fin] unat_data_last [OF fr] unfolding s rfc791ctx_add_Some [OF fr] by auto
    have "length (bits (ctx ps)) = 128" using snoc by simp
    note mk = rfc791_mark_ok [OF this b(1,2)]
    show ?thesis using snoc l mk m unfolding s by (auto simp: rfc791ctx_add_Some [OF fr])
  qed
qed

lemma marked_covered: "j \<in> marked P \<Longrightarrow> {8 * j..8 * j + 7} \<subseteq> covered P"
proof
  fix i assume j: "j \<in> marked P" and i: "i \<in> {8 * j..8 * j + 7}"
  then obtain p f l mf where p: "p \<in> P" "frag_range p = Some (f, l, mf)" "f div 8 \<le> j" "j < (l + 1) div 8"
    by (auto simp: marked_def)
  have "f mod 8 = 0" using frag_range_bounds(3) [OF p(2)] ip_frag_off_mod8 by simp
  then have "f = 8 * (f div 8)" by auto
  then have "f \<le> i" using p(3) i by (metis atLeastAtMost_iff le_trans mult_le_mono2)
  moreover have "i \<le> l" using p(4) i by auto
  ultimately show "i \<in> covered P" using p by (auto simp: covered_def)
qed

text \<open>The fragment that announced the end covers its last block.\<close>

lemma last_fragment_covers:
  assumes "finite P" "Min (limits P) \<noteq> 65535"
  obtains p f where "p \<in> P" "frag_range p = Some (f, Min (limits P), False)" "f \<le> 8 * (Min (limits P) div 8)"
proof -
  have "Min (limits P) \<in> limits P" using finite_limits [OF assms(1)] by (intro Min_in) (auto simp: limits_def)
  then obtain p f where p: "p \<in> P" "frag_range p = Some (f, Min (limits P), False)"
    using assms(2) by (auto simp: limits_def)
  have "f mod 8 = 0" using frag_range_bounds(3) [OF p(2)] ip_frag_off_mod8 by simp
  moreover have "f \<le> Min (limits P)" using frag_range_bounds(1) [OF p(2)] .
  ultimately have "f \<le> 8 * (Min (limits P) div 8)" by (metis add.right_neutral div_le_mono mult_div_mod_eq mult_le_mono2)
  with p that show ?thesis by blast
qed

lemma rfc791_complete_marked:
  fixes ps :: "packet list"
  defines "m \<equiv> Min (limits (set ps))"
  shows "rfc791ctx_complete (foldl rfc791ctx_add rfc791ctx_init ps) \<longleftrightarrow>
    m \<noteq> 65535 \<and> (\<forall>j<m div 8. j \<in> marked (set ps)) \<and> m div 8 \<notin> marked (set ps)"
proof -
  let ?ctx = "foldl rfc791ctx_add rfc791ctx_init ps"
  have l: "unat (rfc791_last ?ctx) = m" and b: "\<forall>j < 8192. blk (bits ?ctx) j \<longleftrightarrow> j \<in> marked (set ps)"
    using rfc791_adds [of ps] by (auto simp: m_def)
  have "m div 8 < 8192" using unat_u16_less [of "rfc791_last ?ctx"] l by simp
  moreover have "rfc791_last ?ctx = 65535 \<longleftrightarrow> m = 65535" using l by (simp add: word_unat_eq_iff)
  ultimately show ?thesis using b unfolding rfc791ctx_complete_iff l by auto
qed

section \<open>Properties\<close>

text \<open>
  C32: Marking whole words at once is the plain loop over the bits: for every range the three
  loops with their adjusted bounds set exactly the bits that the simple loop sets.
\<close>

theorem rfc791_mark_reference:
  assumes "length ws = 128" "f \<le> l" "l < 65536"
  shows "rfc791_mark f l ws = set_bits (f div 8) ((l + 1) div 8) ws"
proof (rule bitmap_eqI)
  have e: "(l + 1) div 8 \<le> 64 * length ws" using assms by auto
  show "length (rfc791_mark f l ws) = length (set_bits (f div 8) ((l + 1) div 8) ws)"
    using rfc791_mark_ok(1) [OF assms] set_bits_ok(1) [OF e] assms(1) by simp
  show "blk (rfc791_mark f l ws) j = blk (set_bits (f div 8) ((l + 1) div 8) ws) j" for j
    by (simp only: rfc791_mark_ok(2) [OF assms] set_bits_ok(2) [OF e])
qed

theorem rfc791_mark_reference_witness:
  "rfc791_mark 512 2067 (replicate 128 0) = set_bits 64 258 (replicate 128 0)"
  using rfc791_mark_reference [of "replicate 128 0" 512 2067] by simp

text \<open>
  C33: What the completeness test of the bitmap decides.  It is sound: a complete context has
  every byte.  But a datagram whose length is a multiple of 8 is never complete, since the test
  wants the bit of the last block to be clear and the final fragment sets it; on the other
  lengths the test is exact when no fragment reaches beyond the end and all but the final one
  have lengths that are multiples of 8.
\<close>

theorem rfc791ctx_complete_decides:
  fixes ps :: "packet list"
  defines "m \<equiv> Min (limits (set ps))" and "ctx \<equiv> foldl rfc791ctx_add rfc791ctx_init ps"
  shows "(rfc791ctx_complete ctx \<longrightarrow> {0..m} \<subseteq> covered (set ps)) \<and>
    ((m + 1) mod 8 = 0 \<longrightarrow> \<not> rfc791ctx_complete ctx) \<and>
    ((m + 1) mod 8 \<noteq> 0 \<longrightarrow>
     (\<forall>p\<in>set ps. \<forall>f l mf. frag_range p = Some (f, l, mf) \<longrightarrow> l \<le> m \<and> (l + 1) mod 8 = (if mf then 0 else (m + 1) mod 8)) \<longrightarrow>
     {0..m} \<subseteq> covered (set ps) \<longrightarrow> rfc791ctx_complete ctx)"
proof (intro conjI impI)
  assume c: "rfc791ctx_complete ctx"
  then have m: "m \<noteq> 65535" "\<forall>j<m div 8. j \<in> marked (set ps)"
    using rfc791_complete_marked [of ps] by (auto simp: m_def ctx_def)
  obtain p f where p: "p \<in> set ps" "frag_range p = Some (f, m, False)" "f \<le> 8 * (m div 8)"
    using last_fragment_covers [of "set ps"] m(1) unfolding m_def by auto
  show "{0..m} \<subseteq> covered (set ps)"
  proof
    fix i assume i: "i \<in> {0..m}"
    show "i \<in> covered (set ps)"
    proof (cases "i div 8 < m div 8")
      case True
      then show ?thesis using m(2) marked_covered [of "i div 8" "set ps"] by auto
    next
      case False
      then have "8 * (m div 8) \<le> i" by (metis mult_le_mono2 not_less order_trans times_div_less_eq_dividend)
      then have "f \<le> i" using p(3) by simp
      then show ?thesis using coveredI [OF p(1,2)] i by simp
    qed
  qed
next
  assume m8: "(m + 1) mod 8 = 0"
  show "\<not> rfc791ctx_complete ctx"
  proof
    assume c: "rfc791ctx_complete ctx"
    then have m: "m \<noteq> 65535" "m div 8 \<notin> marked (set ps)"
      using rfc791_complete_marked [of ps] by (auto simp: m_def ctx_def)
    obtain p f where p: "p \<in> set ps" "frag_range p = Some (f, m, False)" "f \<le> 8 * (m div 8)"
      using last_fragment_covers [of "set ps"] m(1) unfolding m_def by auto
    have "f div 8 \<le> m div 8" using p(3) div_le_mono [of f "8 * (m div 8)" 8] by simp
    moreover have "m div 8 < (m + 1) div 8" using m8 by (simp add: div_Suc)
    ultimately have "f div 8 \<le> m div 8" "m div 8 < (m + 1) div 8" by auto
    then show False using m(2) p by (auto simp: marked_def)
  qed
next
  assume m8: "(m + 1) mod 8 \<noteq> 0"
    and all: "\<forall>p\<in>set ps. \<forall>f l mf. frag_range p = Some (f, l, mf) \<longrightarrow> l \<le> m \<and> (l + 1) mod 8 = (if mf then 0 else (m + 1) mod 8)"
    and cov: "{0..m} \<subseteq> covered (set ps)"
  have "m \<noteq> 65535" using m8 by auto
  moreover have "j \<in> marked (set ps)" if "j < m div 8" for j
  proof -
    have "8 * j + 7 \<in> covered (set ps)" "8 * j + 7 < m" using that cov by auto
    then obtain p f l mf where p: "p \<in> set ps" "frag_range p = Some (f, l, mf)" "f \<le> 8 * j + 7" "8 * j + 7 \<le> l"
      by (auto simp: covered_def)
    then have "f div 8 \<le> j" "j < (l + 1) div 8" by auto
    then show ?thesis using p by (auto simp: marked_def)
  qed
  moreover have "m div 8 \<notin> marked (set ps)"
  proof
    assume "m div 8 \<in> marked (set ps)"
    then obtain p f l mf where p: "p \<in> set ps" "frag_range p = Some (f, l, mf)" "m div 8 < (l + 1) div 8"
      by (auto simp: marked_def)
    then have "l \<le> m" using all by blast
    then have "(l + 1) div 8 \<le> (m + 1) div 8" by (simp add: div_le_mono)
    moreover have "(m + 1) div 8 = m div 8" using m8 by (metis Suc_eq_plus1 div_Suc)
    ultimately show False using p(3) by simp
  qed
  ultimately show "rfc791ctx_complete ctx" using rfc791_complete_marked [of ps] by (simp add: m_def ctx_def)
qed

theorem rfc791ctx_complete_decides_witness:
  "\<not> rfc791ctx_complete (foldl rfc791ctx_add rfc791ctx_init [sample_fragment 0 True 8 5, sample_fragment 1 False 8 9]) \<and>
   rfc791ctx_complete (foldl rfc791ctx_add rfc791ctx_init [sample_fragment 0 True 8 5, sample_fragment 1 False 4 9])"
proof
  let ?ps = "[sample_fragment 0 True 8 5, sample_fragment 1 False 8 9]"
  have "limits (set ?ps) = {65535, 15}"
    using frag_range_sample [of 8 0 True 5] frag_range_sample [of 8 1 False 9] by (auto simp: limits_def)
  then show "\<not> rfc791ctx_complete (foldl rfc791ctx_add rfc791ctx_init ?ps)"
    using rfc791ctx_complete_decides [of ?ps] by simp
next
  let ?ps = "[sample_fragment 0 True 8 5, sample_fragment 1 False 4 9]"
  have fr: "frag_range (sample_fragment 0 True 8 5) = Some (0, 7, True)"
    "frag_range (sample_fragment 1 False 4 9) = Some (8, 11, False)"
    using frag_range_sample [of 8 0 True 5] frag_range_sample [of 4 1 False 9] by auto
  then have l: "limits (set ?ps) = {65535, 11}" by (auto simp: limits_def)
  have "{0..11} \<subseteq> covered (set ?ps)"
  proof
    fix i :: nat assume "i \<in> {0..11}"
    then have "i \<le> 7 \<or> 8 \<le> i \<and> i \<le> 11" by auto
    then show "i \<in> covered (set ?ps)" using fr by (auto simp: covered_def)
  qed
  moreover have "\<forall>p\<in>set ?ps. \<forall>f l mf. frag_range p = Some (f, l, mf) \<longrightarrow>
      l \<le> 11 \<and> (l + 1) mod 8 = (if mf then 0 else (11 + 1) mod 8)" using fr by auto
  ultimately show "rfc791ctx_complete (foldl rfc791ctx_add rfc791ctx_init ?ps)"
    using rfc791ctx_complete_decides [of ?ps] l by simp
qed

end
