(* ===== verification/LinkedList.thy ===== *)
theory LinkedList
  imports Main "HOL-Library.Monad_Syntax"
begin

text \<open>
  The intrusive doubly linked list of \<^verbatim>\<open>src/linkedlist/linkedlist.h\<close>, on a store of nodes.  The
  operations are the assignments of the source, in their order.  \<open>dll h head xs\<close> says that the
  nodes \<open>xs\<close> form the circular list of \<open>head\<close>; each operation is shown to refine the operation
  on \<open>xs\<close>.  The locale \<open>node_list\<close> is the contract that users of the list rely on.
\<close>

section \<open>Store and operations\<close>

text \<open>Addresses are natural numbers, \<open>0\<close> is the null pointer; a head is the address of its node.\<close>

type_synonym addr = nat

record linked_list_node =
  prev :: addr
  "next" :: addr

type_synonym store = "addr \<Rightarrow> linked_list_node"

definition set_prev :: "store \<Rightarrow> addr \<Rightarrow> addr \<Rightarrow> store" where
  "set_prev h a p = h(a := (h a)\<lparr>prev := p\<rparr>)"

definition set_next :: "store \<Rightarrow> addr \<Rightarrow> addr \<Rightarrow> store" where
  "set_next h a p = h(a := (h a)\<lparr>next := p\<rparr>)"

definition linked_list_node_init :: "store \<Rightarrow> addr \<Rightarrow> store" where
  "linked_list_node_init h node =
     (let h = set_prev h node 0
      in set_next h node 0)"

definition linked_list_head_init :: "store \<Rightarrow> addr \<Rightarrow> store" where
  "linked_list_head_init h head =
     (let h = set_prev h head head
      in set_next h head head)"

definition linked_list_add_tail :: "store \<Rightarrow> addr \<Rightarrow> addr \<Rightarrow> store" where
  "linked_list_add_tail h node head =
     (let h = set_next h node head;
          h = set_prev h node (prev (h head));
          h = set_next h (prev (h head)) node
      in set_prev h head node)"

definition linked_list_add_head :: "store \<Rightarrow> addr \<Rightarrow> addr \<Rightarrow> store" where
  "linked_list_add_head h node head =
     (let h = set_prev h node head;
          h = set_next h node (next (h head));
          h = set_prev h (next (h head)) node
      in set_next h head node)"

definition linked_list_add_before :: "store \<Rightarrow> addr \<Rightarrow> addr \<Rightarrow> store" where
  "linked_list_add_before h newnode oldnode =
     (let h = set_prev h newnode (prev (h oldnode));
          h = set_next h newnode oldnode;
          h = set_next h (prev (h oldnode)) newnode
      in set_prev h oldnode newnode)"

definition linked_list_add_after :: "store \<Rightarrow> addr \<Rightarrow> addr \<Rightarrow> store" where
  "linked_list_add_after h newnode oldnode =
     (let h = set_prev h newnode oldnode;
          h = set_next h newnode (next (h oldnode));
          h = set_prev h (next (h oldnode)) newnode
      in set_next h oldnode newnode)"

definition linked_list_is_empty :: "store \<Rightarrow> addr \<Rightarrow> bool" where
  "linked_list_is_empty h head \<longleftrightarrow> next (h head) = head"

definition linked_list_delete :: "store \<Rightarrow> addr \<Rightarrow> store" where
  "linked_list_delete h node =
     (let h = set_next h (prev (h node)) (next (h node));
          h = set_prev h (next (h node)) (prev (h node));
          h = set_prev h node 0
      in set_next h node 0)"

text \<open>
  The iteration macros.  The loops follow pointers, so they are partial; the result is the list
  of the visited nodes.
\<close>

partial_function (option) for_each_from :: "store \<Rightarrow> addr \<Rightarrow> addr \<Rightarrow> addr list option" where
  "for_each_from h head iter =
     (if iter = head then Some []
      else do { ns \<leftarrow> for_each_from h head (next (h iter)); Some (iter # ns) })"

definition LINKED_LIST_FOR_EACH :: "store \<Rightarrow> addr \<Rightarrow> addr list option" where
  "LINKED_LIST_FOR_EACH h head = for_each_from h head (next (h head))"

partial_function (option) for_each_reverse_from :: "store \<Rightarrow> addr \<Rightarrow> addr \<Rightarrow> addr list option" where
  "for_each_reverse_from h head iter =
     (if iter = head then Some []
      else do { ns \<leftarrow> for_each_reverse_from h head (prev (h iter)); Some (iter # ns) })"

definition LINKED_LIST_FOR_EACH_REVERSE :: "store \<Rightarrow> addr \<Rightarrow> addr list option" where
  "LINKED_LIST_FOR_EACH_REVERSE h head = for_each_reverse_from h head (prev (h head))"

text \<open>The safe variant reads the successor before the body runs; \<open>body\<close> may unlink its node.\<close>

partial_function (option) for_each_safe_from ::
  "(store \<Rightarrow> addr \<Rightarrow> store) \<Rightarrow> addr \<Rightarrow> store \<Rightarrow> addr \<Rightarrow> addr \<Rightarrow> store option" where
  "for_each_safe_from body head h iter tmp =
     (if iter = head then Some h
      else (let h = body h iter
            in for_each_safe_from body head h tmp (next (h tmp))))"

definition LINKED_LIST_FOR_EACH_SAFE :: "(store \<Rightarrow> addr \<Rightarrow> store) \<Rightarrow> store \<Rightarrow> addr \<Rightarrow> store option" where
  "LINKED_LIST_FOR_EACH_SAFE body h head =
     for_each_safe_from body head h (next (h head)) (next (h (next (h head))))"

partial_function (option) linked_list_size_from :: "store \<Rightarrow> addr \<Rightarrow> addr \<Rightarrow> nat \<Rightarrow> nat option" where
  "linked_list_size_from h head node sz =
     (if node = head then Some sz else linked_list_size_from h head (next (h node)) (sz + 1))"

definition linked_list_size :: "store \<Rightarrow> addr \<Rightarrow> nat option" where
  "linked_list_size h head = linked_list_size_from h head (next (h head)) 0"

section \<open>Representation\<close>

text \<open>\<open>dseg h a xs b\<close>: following the links from \<open>a\<close> leads through \<open>xs\<close> to \<open>b\<close>, and back.\<close>

fun dseg :: "store \<Rightarrow> addr \<Rightarrow> addr list \<Rightarrow> addr \<Rightarrow> bool" where
  "dseg h a [] b \<longleftrightarrow> next (h a) = b \<and> prev (h b) = a"
| "dseg h a (x # xs) b \<longleftrightarrow> next (h a) = x \<and> prev (h x) = a \<and> dseg h x xs b"

definition dll :: "store \<Rightarrow> addr \<Rightarrow> addr list \<Rightarrow> bool" where
  "dll h head xs \<longleftrightarrow> dseg h head xs head \<and> distinct (head # xs) \<and> 0 \<notin> set (head # xs)"

lemma set_prev_next [simp]:
  "prev (set_prev h a p b) = (if b = a then p else prev (h b))"
  "next (set_prev h a p b) = next (h b)"
  "next (set_next h a p b) = (if b = a then p else next (h b))"
  "prev (set_next h a p b) = prev (h b)"
  by (simp_all add: set_prev_def set_next_def)

text \<open>The links inside a segment, without the one to its end.\<close>

fun dpath :: "store \<Rightarrow> addr \<Rightarrow> addr list \<Rightarrow> bool" where
  "dpath h a [] \<longleftrightarrow> True"
| "dpath h a (x # xs) \<longleftrightarrow> next (h a) = x \<and> prev (h x) = a \<and> dpath h x xs"

lemma dseg_append: "dseg h a (xs @ ys) b \<longleftrightarrow> dpath h a xs \<and> dseg h (last (a # xs)) ys b"
  by (induction xs arbitrary: a) auto

lemma dpath_cong:
  assumes "\<And>n. n \<in> set (butlast (a # xs)) \<Longrightarrow> next (h' n) = next (h n)"
    and "\<And>n. n \<in> set xs \<Longrightarrow> prev (h' n) = prev (h n)"
  shows "dpath h' a xs = dpath h a xs"
  using assms by (induction xs arbitrary: a) auto

lemma dseg_cong:
  assumes "\<And>n. n \<in> set (a # xs) \<Longrightarrow> next (h' n) = next (h n)"
    and "\<And>n. n \<in> set (xs @ [b]) \<Longrightarrow> prev (h' n) = prev (h n)"
  shows "dseg h' a xs b = dseg h a xs b"
  using assms by (induction xs arbitrary: a) auto

lemma dseg_neighbours:
  "dseg h a (ys @ x # zs) b \<Longrightarrow> prev (h x) = last (a # ys) \<and> next (h x) = hd (zs @ [b])"
  by (cases zs) (auto simp: dseg_append)

lemma dseg_ends: "dseg h a xs b \<Longrightarrow> next (h a) = hd (xs @ [b]) \<and> prev (h b) = last (a # xs)"
proof (induction xs arbitrary: a)
  case (Cons x xs)
  then show ?case by auto
qed simp

text \<open>
  Linking a fresh node \<open>n\<close> in, and unlinking a node \<open>x\<close>: only the links of the two neighbours
  change.
\<close>

lemma dll_link:
  assumes "dll h head (ys @ zs)" "n \<notin> set (head # ys @ zs)" "n \<noteq> 0"
    and "next (h' (last (head # ys))) = n" "prev (h' n) = last (head # ys)"
    and "next (h' n) = hd (zs @ [head])" "prev (h' (hd (zs @ [head]))) = n"
    and nx: "\<And>x. x \<noteq> last (head # ys) \<Longrightarrow> x \<noteq> n \<Longrightarrow> next (h' x) = next (h x)"
    and pv: "\<And>x. x \<noteq> hd (zs @ [head]) \<Longrightarrow> x \<noteq> n \<Longrightarrow> prev (h' x) = prev (h x)"
  shows "dll h' head (ys @ n # zs)"
proof -
  have d: "distinct (head # ys @ zs)" and s: "dseg h head (ys @ zs) head"
    using assms(1) by (auto simp: dll_def)
  have db: "last (head # ys) \<notin> set (butlast (head # ys))"
    using d by (metis append_butlast_last_id distinct.simps(2) distinct_append list.distinct(1)
        not_distinct_conv_prefix append_Cons)
  have "set (head # ys) \<inter> set zs = {}" using d by auto
  with last_in_set [of "head # ys"] have lz: "last (head # ys) \<notin> set zs" by blast
  have "dpath h' head ys = dpath h head ys"
  proof (rule dpath_cong)
    fix x assume "x \<in> set (butlast (head # ys))"
    then show "next (h' x) = next (h x)"
      using db assms(2) by (intro nx) (auto dest: in_set_butlastD split: if_splits)
  next
    fix x assume "x \<in> set ys"
    then show "prev (h' x) = prev (h x)"
      using d assms(2) by (intro pv) (cases zs; auto)+
  qed
  moreover have "dseg h' n zs head"
  proof (cases zs)
    case (Cons z zs')
    have "dseg h' z zs' head = dseg h z zs' head"
    proof (rule dseg_cong)
      fix x assume "x \<in> set (z # zs')"
      then show "next (h' x) = next (h x)"
        using lz assms(2) Cons by (intro nx) auto
    next
      fix x assume "x \<in> set (zs' @ [head])"
      then show "prev (h' x) = prev (h x)"
        using d assms(2) Cons by (intro pv) auto
    qed
    with s assms(6,7) Cons show ?thesis by (simp add: dseg_append)
  qed (use assms(6,7) in simp)
  ultimately show ?thesis
    using assms s d by (auto simp: dll_def dseg_append)
qed

lemma dll_unlink:
  assumes "dll h head (ys @ x # zs)"
    and "next (h' (last (head # ys))) = hd (zs @ [head])" "prev (h' (hd (zs @ [head]))) = last (head # ys)"
    and nx: "\<And>n. n \<noteq> last (head # ys) \<Longrightarrow> n \<noteq> x \<Longrightarrow> next (h' n) = next (h n)"
    and pv: "\<And>n. n \<noteq> hd (zs @ [head]) \<Longrightarrow> n \<noteq> x \<Longrightarrow> prev (h' n) = prev (h n)"
  shows "dll h' head (ys @ zs)"
proof -
  have d: "distinct (head # ys @ x # zs)" and s: "dseg h head (ys @ x # zs) head"
    using assms(1) by (auto simp: dll_def)
  have db: "last (head # ys) \<notin> set (butlast (head # ys))"
    using d by (metis append_butlast_last_id distinct.simps(2) distinct_append list.distinct(1)
        not_distinct_conv_prefix append_Cons)
  have "set (head # ys) \<inter> set zs = {}" using d by auto
  with last_in_set [of "head # ys"] have lz: "last (head # ys) \<notin> set zs" by blast
  have "dpath h' head ys = dpath h head ys"
  proof (rule dpath_cong)
    fix n assume "n \<in> set (butlast (head # ys))"
    then show "next (h' n) = next (h n)"
      using db d by (intro nx) (auto dest: in_set_butlastD split: if_splits)
  next
    fix n assume "n \<in> set ys"
    then show "prev (h' n) = prev (h n)"
      using d by (intro pv) (cases zs; auto)+
  qed
  moreover have "dseg h' (last (head # ys)) zs head"
  proof (cases zs)
    case (Cons z zs')
    have "dseg h' z zs' head = dseg h z zs' head"
    proof (rule dseg_cong)
      fix n assume "n \<in> set (z # zs')"
      then show "next (h' n) = next (h n)"
        using lz d Cons by (intro nx) auto
    next
      fix n assume "n \<in> set (zs' @ [head])"
      then show "prev (h' n) = prev (h n)"
        using d Cons by (intro pv) auto
    qed
    with s assms(2,3) Cons show ?thesis by (simp add: dseg_append)
  qed (use assms(2,3) in simp)
  ultimately show ?thesis
    using assms(1) s d by (auto simp: dll_def dseg_append)
qed

section \<open>The operations refine lists\<close>

lemma dll_head_init: "head \<noteq> 0 \<Longrightarrow> dll (linked_list_head_init h head) head []"
  by (simp add: dll_def linked_list_head_init_def)

lemma dll_add_tail:
  assumes "dll h head xs" "n \<notin> set (head # xs)" "n \<noteq> 0"
  shows "dll (linked_list_add_tail h n head) head (xs @ [n])"
proof (rule dll_link [where zs = "[]"])
  show "dll h head (xs @ [])" using assms by simp
qed (use assms dseg_ends [of h head xs head] in
    \<open>auto simp: dll_def linked_list_add_tail_def Let_def\<close>)

lemma dll_add_head:
  assumes "dll h head xs" "n \<notin> set (head # xs)" "n \<noteq> 0"
  shows "dll (linked_list_add_head h n head) head (n # xs)"
proof -
  have "hd (xs @ [head]) \<noteq> n" using assms(2) by (cases xs) auto
  then have "dll (linked_list_add_head h n head) head ([] @ n # xs)"
    using assms dseg_ends [of h head xs head]
    by (intro dll_link) (auto simp: dll_def linked_list_add_head_def Let_def)
  then show ?thesis by simp
qed

lemma dll_add_before:
  assumes "dll h head (ys @ x # zs)" "n \<notin> set (head # ys @ x # zs)" "n \<noteq> 0"
  shows "dll (linked_list_add_before h n x) head (ys @ n # x # zs)"
proof (rule dll_link)
  show "dll h head (ys @ x # zs)" using assms by simp
qed (use assms dseg_neighbours [of h head ys x zs head] in
    \<open>auto simp: dll_def linked_list_add_before_def Let_def\<close>)

lemma dll_add_after:
  assumes "dll h head (ys @ x # zs)" "n \<notin> set (head # ys @ x # zs)" "n \<noteq> 0"
  shows "dll (linked_list_add_after h n x) head (ys @ x # n # zs)"
proof -
  have "hd (zs @ [head]) \<noteq> n" using assms(2) by (cases zs) auto
  then have "dll (linked_list_add_after h n x) head ((ys @ [x]) @ n # zs)"
    using assms dseg_neighbours [of h head ys x zs head]
    by (intro dll_link) (auto simp: dll_def linked_list_add_after_def Let_def)
  then show ?thesis by simp
qed

lemma dll_delete:
  assumes "dll h head (ys @ x # zs)"
  shows "dll (linked_list_delete h x) head (ys @ zs)"
    "linked_list_delete h x x = \<lparr>prev = 0, next = 0\<rparr>"
proof -
  have d: "distinct (head # ys @ x # zs)" using assms by (auto simp: dll_def)
  define p where "p = last (head # ys)"
  define q where "q = hd (zs @ [head])"
  have nb: "prev (h x) = p" "next (h x) = q"
    using assms dseg_neighbours [of h head ys x zs head] by (auto simp: dll_def p_def q_def)
  have ne: "p \<noteq> x" "q \<noteq> x" using d by (auto simp: p_def q_def) (cases zs, auto)
  show "dll (linked_list_delete h x) head (ys @ zs)"
    by (rule dll_unlink [OF assms, folded p_def q_def])
      (simp_all add: nb ne ne [symmetric] linked_list_delete_def Let_def)
  have "prev (linked_list_delete h x x) = 0 \<and> next (linked_list_delete h x x) = 0"
    by (simp add: linked_list_delete_def Let_def)
  then show "linked_list_delete h x x = \<lparr>prev = 0, next = 0\<rparr>" by (metis linked_list_node.surjective unit.exhaust)
qed

lemma dll_is_empty: "dll h head xs \<Longrightarrow> linked_list_is_empty h head \<longleftrightarrow> xs = []"
  by (cases xs) (auto simp: dll_def linked_list_is_empty_def)

lemma for_each_from_dseg:
  "dseg h a xs head \<Longrightarrow> head \<notin> set xs \<Longrightarrow> for_each_from h head (next (h a)) = Some xs"
proof (induction xs arbitrary: a)
  case (Cons x xs)
  then show ?case by (subst for_each_from.simps) auto
qed (simp add: for_each_from.simps)

lemma dll_for_each: "dll h head xs \<Longrightarrow> LINKED_LIST_FOR_EACH h head = Some xs"
  by (simp add: dll_def LINKED_LIST_FOR_EACH_def for_each_from_dseg)

lemma dseg_snoc: "dseg h a (xs @ [x]) b \<longleftrightarrow> dseg h a xs x \<and> next (h x) = b \<and> prev (h b) = x"
  by (induction xs arbitrary: a) auto

lemma for_each_reverse_from_dseg:
  "dseg h head xs b \<Longrightarrow> head \<notin> set xs \<Longrightarrow> for_each_reverse_from h head (prev (h b)) = Some (rev xs)"
proof (induction xs arbitrary: b rule: rev_induct)
  case (snoc x xs)
  then show ?case by (subst for_each_reverse_from.simps) (auto simp: dseg_snoc)
qed (simp add: for_each_reverse_from.simps)

lemma dll_for_each_reverse: "dll h head xs \<Longrightarrow> LINKED_LIST_FOR_EACH_REVERSE h head = Some (rev xs)"
  by (simp add: dll_def LINKED_LIST_FOR_EACH_REVERSE_def for_each_reverse_from_dseg)

lemma linked_list_size_from_dseg:
  "dseg h a xs head \<Longrightarrow> head \<notin> set xs \<Longrightarrow>
     linked_list_size_from h head (next (h a)) sz = Some (sz + length xs)"
proof (induction xs arbitrary: a sz)
  case (Cons x xs)
  then show ?case by (subst linked_list_size_from.simps) auto
qed (simp add: linked_list_size_from.simps)

lemma dll_size: "dll h head xs \<Longrightarrow> linked_list_size h head = Some (length xs)"
  using linked_list_size_from_dseg [of h head xs head 0] by (simp add: dll_def linked_list_size_def)

text \<open>The loop that unlinks every node, as the release functions of the repository do.\<close>

lemma for_each_safe_delete:
  assumes "dll h head xs"
  shows "\<exists>h'. for_each_safe_from linked_list_delete head h (next (h head)) (next (h (next (h head)))) = Some h' \<and>
    dll h' head []"
  using assms
proof (induction xs arbitrary: h)
  case Nil
  then have "next (h head) = head" by (simp add: dll_def)
  then show ?case using Nil by (subst for_each_safe_from.simps) simp
next
  case (Cons x xs)
  have nx: "next (h head) = x" "x \<noteq> head" using Cons.prems by (auto simp: dll_def)
  have d: "dll (linked_list_delete h x) head xs"
    using dll_delete(1) [of h head "[]" x xs] Cons.prems by simp
  have "next (linked_list_delete h x head) = hd (xs @ [head])"
    using d dseg_ends by (auto simp: dll_def)
  moreover have "next (h x) = hd (xs @ [head])"
    using Cons.prems dseg_neighbours [of h head "[]" x xs head] by (simp add: dll_def)
  ultimately show ?case
    using Cons.IH [OF d] nx by (subst for_each_safe_from.simps) (simp add: Let_def)
qed

section \<open>The contract of an intrusive list\<close>

locale node_list =
  fixes repr :: "'s \<Rightarrow> 'p \<Rightarrow> 'p list \<Rightarrow> bool"
    and valid :: "'p \<Rightarrow> bool"
    and add_tail :: "'s \<Rightarrow> 'p \<Rightarrow> 'p \<Rightarrow> 's"
    and add_head :: "'s \<Rightarrow> 'p \<Rightarrow> 'p \<Rightarrow> 's"
    and delete :: "'s \<Rightarrow> 'p \<Rightarrow> 's"
    and for_each :: "'s \<Rightarrow> 'p \<Rightarrow> 'p list option"
  assumes repr_distinct: "repr s head xs \<Longrightarrow> distinct (head # xs)"
    and repr_valid: "repr s head xs \<Longrightarrow> n \<in> set xs \<Longrightarrow> valid n"
    and repr_add_tail: "repr s head xs \<Longrightarrow> n \<notin> set (head # xs) \<Longrightarrow> valid n \<Longrightarrow> repr (add_tail s n head) head (xs @ [n])"
    and repr_add_head: "repr s head xs \<Longrightarrow> n \<notin> set (head # xs) \<Longrightarrow> valid n \<Longrightarrow> repr (add_head s n head) head (n # xs)"
    and repr_delete: "repr s head (ys @ x # zs) \<Longrightarrow> repr (delete s x) head (ys @ zs)"
    and repr_for_each: "repr s head xs \<Longrightarrow> for_each s head = Some xs"
begin

text \<open>Appending nodes one by one, then iterating, visits them in order.\<close>

lemma repr_fold_add_tail:
  assumes "repr s head xs" "distinct (head # xs @ ns)" "list_all valid ns"
  shows "repr (fold (\<lambda>n s. add_tail s n head) ns s) head (xs @ ns)"
  using assms
proof (induction ns arbitrary: s xs)
  case (Cons n ns)
  then have "repr (add_tail s n head) head (xs @ [n])" by (intro repr_add_tail) auto
  from Cons.IH [OF this] Cons.prems show ?case by simp
qed simp

lemma repr_delete_member:
  assumes "repr s head xs" "x \<in> set xs"
  shows "repr (delete s x) head (remove1 x xs)"
proof -
  from assms(2) obtain ys zs where xs: "xs = ys @ x # zs" "x \<notin> set ys" by (metis split_list_first)
  with assms(1) repr_delete show ?thesis by (simp add: remove1_append)
qed

text \<open>A node moved to the end, as in a queue that serves its members in turn.\<close>

lemma repr_rotate:
  assumes "repr s head (x # xs)"
  shows "repr (add_tail (delete s x) x head) head (xs @ [x])"
  using assms repr_delete [of s head "[]" x xs] repr_distinct [of s head "x # xs"] repr_valid [of s head "x # xs" x]
  by (intro repr_add_tail) auto

lemma for_each_after_adds:
  assumes "repr s head xs" "distinct (head # xs @ ns)" "list_all valid ns"
  shows "for_each (fold (\<lambda>n s. add_tail s n head) ns s) head = Some (xs @ ns)"
  by (rule repr_for_each) (rule repr_fold_add_tail [OF assms])

end

interpretation ll: node_list dll "\<lambda>n. n \<noteq> 0" linked_list_add_tail linked_list_add_head
  linked_list_delete LINKED_LIST_FOR_EACH
proof unfold_locales
  show "distinct (head # xs)" if "dll s head xs" for s head xs using that by (simp add: dll_def)
  show "n \<noteq> 0" if "dll s head xs" "n \<in> set xs" for s head xs n using that by (metis dll_def list.set_intros(2))
qed (fact dll_add_tail dll_add_head dll_delete(1) dll_for_each)+

section \<open>Lists that share a store\<close>

lemma dll_cong:
  "(\<And>n. n \<in> set (head # xs) \<Longrightarrow> h' n = h n) \<Longrightarrow> dll h' head xs = dll h head xs"
  using dseg_cong [of head xs h' h head] by (simp add: dll_def)

lemma dll_member_links:
  assumes "dll h head xs" "x \<in> set (head # xs)"
  shows "next (h x) \<in> set (head # xs)" "prev (h x) \<in> set (head # xs)"
proof -
  have hd_in: "hd (zs @ [head]) \<in> set (zs @ [head])" for zs by (cases zs) auto
  have last_in: "last (head # ys) \<in> set (head # ys)" for ys by (rule last_in_set) simp
  have "next (h x) \<in> set (head # xs) \<and> prev (h x) \<in> set (head # xs)"
  proof (cases "x = head")
    case True
    have "next (h head) = hd (xs @ [head])" "prev (h head) = last (head # xs)"
      using assms(1) dseg_ends [of h head xs head] unfolding dll_def by blast+
    with True show ?thesis using hd_in [of xs] last_in [of xs] by (metis Un_iff set_append list.set_intros set_ConsD empty_iff list.set(1))
  next
    case False
    with assms(2) obtain ys zs where xs: "xs = ys @ x # zs" by (auto dest: split_list)
    have "prev (h x) = last (head # ys)" "next (h x) = hd (zs @ [head])"
      using assms(1) dseg_neighbours [of h head ys x zs head] unfolding dll_def xs by blast+
    then show ?thesis using hd_in [of zs] last_in [of ys] unfolding xs by auto
  qed
  then show "next (h x) \<in> set (head # xs)" "prev (h x) \<in> set (head # xs)" by auto
qed

text \<open>An operation writes only to the nodes of its list and to its argument.\<close>

lemma linked_list_frame:
  assumes "dll h head xs" "a \<notin> set (head # xs)" "a \<noteq> n"
  shows "linked_list_add_tail h n head a = h a" "linked_list_add_head h n head a = h a"
    "x \<in> set (head # xs) \<Longrightarrow> linked_list_add_before h n x a = h a"
    "x \<in> set (head # xs) \<Longrightarrow> linked_list_add_after h n x a = h a"
    "x \<in> set xs \<Longrightarrow> linked_list_delete h x a = h a"
proof -
  have l: "next (h x) \<noteq> a" "prev (h x) \<noteq> a" if "x \<in> set (head # xs)" for x
    using dll_member_links [OF assms(1) that] assms(2) by auto
  have ne: "x \<noteq> a" if "x \<in> set (head # xs)" for x using that assms(2) by auto
  show "linked_list_add_tail h n head a = h a" "linked_list_add_head h n head a = h a"
    using assms(2,3) l [of head]
    by (auto simp: linked_list_add_tail_def linked_list_add_head_def Let_def set_prev_def set_next_def)
  show "linked_list_add_before h n x a = h a" "linked_list_add_after h n x a = h a" if "x \<in> set (head # xs)"
    using assms(3) l [OF that] ne [OF that]
    by (auto simp: linked_list_add_before_def linked_list_add_after_def Let_def set_prev_def set_next_def)
  show "linked_list_delete h x a = h a" if "x \<in> set xs"
    using l [of x] ne [of x] that
    by (auto simp: linked_list_delete_def Let_def set_prev_def set_next_def)
qed

section \<open>Properties\<close>

text \<open>
  C8: Each list operation refines the operation on the list of nodes, be it empty or not: the
  initialisation of the head gives the empty list, insertion at either end adds a node there, and
  insertion before and after a member and deletion of it change its neighbourhood only; deletion also
  clears the links of the deleted node.
\<close>

theorem linked_list_refines:
  assumes "dll h head xs" "n \<notin> set (head # xs)" "n \<noteq> 0"
  shows "dll (linked_list_head_init h head) head [] \<and>
    dll (linked_list_add_tail h n head) head (xs @ [n]) \<and>
    dll (linked_list_add_head h n head) head (n # xs) \<and>
    (\<forall>ys x zs. xs = ys @ x # zs \<longrightarrow>
      dll (linked_list_add_before h n x) head (ys @ n # x # zs) \<and>
      dll (linked_list_add_after h n x) head (ys @ x # n # zs) \<and>
      dll (linked_list_delete h x) head (ys @ zs) \<and> linked_list_delete h x x = \<lparr>prev = 0, next = 0\<rparr>)"
proof (intro conjI allI impI)
  have "head \<noteq> 0" using assms(1) by (simp add: dll_def)
  then show "dll (linked_list_head_init h head) head []" by (rule dll_head_init)
  show "dll (linked_list_add_tail h n head) head (xs @ [n])" by (rule dll_add_tail [OF assms])
  show "dll (linked_list_add_head h n head) head (n # xs)" by (rule dll_add_head [OF assms])
  fix ys x zs assume "xs = ys @ x # zs"
  note xs = assms [unfolded this]
  show "dll (linked_list_add_before h n x) head (ys @ n # x # zs)" "dll (linked_list_add_after h n x) head (ys @ x # n # zs)"
    using dll_add_before [OF xs] dll_add_after [OF xs] by simp_all
  show "dll (linked_list_delete h x) head (ys @ zs)" "linked_list_delete h x x = \<lparr>prev = 0, next = 0\<rparr>"
    using dll_delete [OF xs(1)] by simp_all
qed

theorem linked_list_refines_witness:
  "dll (linked_list_add_tail ((\<lambda>_. \<lparr>prev = 0, next = 0\<rparr>)(1 := \<lparr>prev = 1, next = 1\<rparr>)) 3 1) 1 [3] \<and>
   dll (linked_list_add_before ((\<lambda>_. \<lparr>prev = 0, next = 0\<rparr>)
     (1 := \<lparr>prev = 2, next = 2\<rparr>, 2 := \<lparr>prev = 1, next = 1\<rparr>)) 3 2) 1 [3, 2]"
  using linked_list_refines [of "(\<lambda>_. \<lparr>prev = 0, next = 0\<rparr>)(1 := \<lparr>prev = 1, next = 1\<rparr>)" 1 "[]" 3]
    linked_list_refines [of "(\<lambda>_. \<lparr>prev = 0, next = 0\<rparr>)
     (1 := \<lparr>prev = 2, next = 2\<rparr>, 2 := \<lparr>prev = 1, next = 1\<rparr>)" 1 "[2]" 3]
  by (fastforce simp: dll_def)

text \<open>
  On a well-formed list the iterations end: they visit the nodes in order, backwards in
  reverse order, the size is the length, and the emptiness test is right.
\<close>

theorem linked_list_iterates:
  assumes "dll h head xs"
  shows "LINKED_LIST_FOR_EACH h head = Some xs \<and> LINKED_LIST_FOR_EACH_REVERSE h head = Some (rev xs) \<and>
    linked_list_size h head = Some (length xs) \<and> (linked_list_is_empty h head \<longleftrightarrow> xs = [])"
  using dll_for_each [OF assms] dll_for_each_reverse [OF assms] dll_size [OF assms] dll_is_empty [OF assms]
  by simp

theorem linked_list_iterates_witness:
  "LINKED_LIST_FOR_EACH ((\<lambda>_. \<lparr>prev = 0, next = 0\<rparr>)
     (1 := \<lparr>prev = 2, next = 2\<rparr>, 2 := \<lparr>prev = 1, next = 1\<rparr>)) 1 = Some [2]"
  using linked_list_iterates [of "(\<lambda>_. \<lparr>prev = 0, next = 0\<rparr>)
     (1 := \<lparr>prev = 2, next = 2\<rparr>, 2 := \<lparr>prev = 1, next = 1\<rparr>)" 1 "[2]"]
  by (simp add: dll_def)

text \<open>
  Nodes appended to an initialised list are visited in the order of their insertion, and
  the loop that unlinks every node while iterating ends with the empty list.
\<close>

theorem linked_list_fifo_and_free:
  assumes "distinct (head # ns)" "0 \<notin> set (head # ns)"
  defines "h' \<equiv> \<lambda>h. fold (\<lambda>n h. linked_list_add_tail h n head) ns (linked_list_head_init h head)"
  shows "LINKED_LIST_FOR_EACH (h' h) head = Some ns \<and>
    (\<exists>h2. LINKED_LIST_FOR_EACH_SAFE linked_list_delete (h' h) head = Some h2 \<and> linked_list_is_empty h2 head)"
proof -
  have i: "dll (linked_list_head_init h head) head []" using assms(2) by (simp add: dll_head_init)
  have v: "list_all (\<lambda>n. n \<noteq> 0) ns" using assms(2) by (auto simp: list_all_iff intro: ccontr)
  have "dll (h' h) head ns"
    using ll.repr_fold_add_tail [OF i _ v] assms(1) by (simp add: h'_def)
  moreover have "LINKED_LIST_FOR_EACH (h' h) head = Some ns"
    using ll.for_each_after_adds [OF i _ v] assms(1) by (simp add: h'_def)
  ultimately show ?thesis
    using for_each_safe_delete [of "h' h" head ns] dll_is_empty [of _ head "[]"]
    by (auto simp: LINKED_LIST_FOR_EACH_SAFE_def)
qed

theorem linked_list_fifo_and_free_witness:
  "LINKED_LIST_FOR_EACH (fold (\<lambda>n h. linked_list_add_tail h n 1) [2, 3]
     (linked_list_head_init (\<lambda>_. \<lparr>prev = 0, next = 0\<rparr>) 1)) 1 = Some [2, 3]"
  using linked_list_fifo_and_free [of 1 "[2, 3]" "\<lambda>_. \<lparr>prev = 0, next = 0\<rparr>"] by simp

text \<open>
  Lists with disjoint nodes in one store do not interfere: every operation on one list
  leaves the other list as it was.
\<close>

theorem linked_list_disjoint:
  assumes "dll h head xs" "dll h head2 zs" "set (head # xs) \<inter> set (head2 # zs) = {}"
    and "n \<notin> set (head2 # zs)" "x \<in> set xs"
  shows "dll (linked_list_add_tail h n head) head2 zs \<and> dll (linked_list_add_head h n head) head2 zs \<and>
    dll (linked_list_add_before h n x) head2 zs \<and> dll (linked_list_add_after h n x) head2 zs \<and>
    dll (linked_list_delete h x) head2 zs"
proof -
  have a: "a \<notin> set (head # xs)" "a \<noteq> n" if "a \<in> set (head2 # zs)" for a using assms(3,4) that by auto
  have x: "x \<in> set (head # xs)" using assms(5) by simp
  note f = linked_list_frame [OF assms(1) a]
  have k: "dll h' head2 zs" if "\<And>a. a \<in> set (head2 # zs) \<Longrightarrow> h' a = h a" for h'
    using dll_cong [of head2 zs h' h, OF that] assms(2) by blast
  show ?thesis
    by (intro conjI k f(1) f(2) f(3) f(4) f(5) x assms(5))
qed

theorem linked_list_disjoint_witness:
  "dll (linked_list_delete ((\<lambda>_. \<lparr>prev = 0, next = 0\<rparr>)
     (1 := \<lparr>prev = 2, next = 2\<rparr>, 2 := \<lparr>prev = 1, next = 1\<rparr>, 5 := \<lparr>prev = 5, next = 5\<rparr>)) 2) 5 []"
  using linked_list_disjoint [of "(\<lambda>_. \<lparr>prev = 0, next = 0\<rparr>)
     (1 := \<lparr>prev = 2, next = 2\<rparr>, 2 := \<lparr>prev = 1, next = 1\<rparr>, 5 := \<lparr>prev = 5, next = 5\<rparr>)" 1 "[2]" 5 "[]" 3 2]
  by (simp add: dll_def)

end
