(* ===== verification/Rfc815.thy ===== *)
theory Rfc815
  imports IpReass LinkedList
begin

text \<open>
  Reassembly with the hole descriptors stored in the datagram buffer itself, \<^verbatim>\<open>src/ipfrag/rfc815.c\<close>.
  A descriptor is four 16-bit fields at the first byte of its hole; the descriptors form a doubly
  linked list by buffer index, with 65535 for the head.  The list is related to the linked lists of
  \<open>LinkedList\<close>, its operations refine those on the list of holes of \<open>IpReass\<close>, and the
  descriptors never overlap each other or received data.
\<close>

section \<open>Model\<close>

record rfc815hole =
  rh_first :: u16
  rh_last :: u16
  next_hole :: u16
  prev_hole :: u16

record rfc815ctx =
  first_hole :: u16
  last_hole :: u16
  rfc815_last :: u16
  hdr_len :: nat
  rfc815_direction :: packet_direction
  pkt_header :: mem
  pkt :: mem

text \<open>
  \<open>pkt\<close> is the memory from the start of the array \<^verbatim>\<open>ctx->pkt\<close> on, which has
  \<open>rfc815_pkt_size\<close> bytes.  The stores of the descriptors and of received data go to this memory
  without a check, as in the code: a store at the index \<open>rfc815_pkt_size\<close>, by a fragment that
  ends at byte 65535 or a descriptor at index 65528, is no fault here but changes the byte behind
  the array, and the theorem on overruns shows that it happens.  The copy of the datagram out of
  the array is checked.
\<close>

definition rfc815_pkt_size :: nat where
  "rfc815_pkt_size = 65535"

text \<open>\<^verbatim>\<open>memcpy\<close> between a descriptor variable and the buffer at index \<open>idx\<close>.\<close>

definition load_hole :: "mem \<Rightarrow> nat \<Rightarrow> rfc815hole" where
  "load_hole m idx =
     \<lparr>rh_first = hdr_get16h m idx, rh_last = hdr_get16h m (idx + 2),
      next_hole = hdr_get16h m (idx + 4), prev_hole = hdr_get16h m (idx + 6)\<rparr>"

definition store_hole :: "rfc815ctx \<Rightarrow> nat \<Rightarrow> rfc815hole \<Rightarrow> rfc815ctx" where
  "store_hole ctx idx hole = ctx\<lparr>pkt :=
     hdr_set16h (hdr_set16h (hdr_set16h (hdr_set16h (pkt ctx) idx (rh_first hole)) (idx + 2) (rh_last hole))
       (idx + 4) (next_hole hole)) (idx + 6) (prev_hole hole)\<rparr>"

definition rfc815ctx_init_fast :: "rfc815ctx \<Rightarrow> rfc815ctx" where
  "rfc815ctx_init_fast ctx =
     (let hole = \<lparr>rh_first = 0, rh_last = 65535, next_hole = 65535, prev_hole = 65535\<rparr>;
          ctx = ctx\<lparr>first_hole := 0, last_hole := 0, rfc815_last := 65535, hdr_len := 0\<rparr>
      in store_hole ctx 0 hole)"

definition rfc815ctx_init :: "rfc815ctx \<Rightarrow> rfc815ctx" where
  "rfc815ctx_init ctx = rfc815ctx_init_fast (ctx\<lparr>pkt := memset (pkt ctx) 0 0 rfc815_pkt_size\<rparr>)"

text \<open>\<open>None\<close> is a call of \<^verbatim>\<open>abort()\<close>.\<close>

definition rfc815ctx_complete :: "rfc815ctx \<Rightarrow> bool option" where
  "rfc815ctx_complete ctx =
     (if first_hole ctx = 65535 \<and> last_hole ctx \<noteq> 65535 then None
      else if first_hole ctx \<noteq> 65535 \<and> last_hole ctx = 65535 then None
      else Some (first_hole ctx = 65535))"

definition holenonptr_set_prev :: "rfc815ctx \<Rightarrow> u16 \<Rightarrow> u16 \<Rightarrow> rfc815ctx" where
  "holenonptr_set_prev ctx idx p =
     (if idx = 65535 then ctx\<lparr>last_hole := p\<rparr>
      else store_hole ctx (unat idx) ((load_hole (pkt ctx) (unat idx))\<lparr>prev_hole := p\<rparr>))"

definition holenonptr_set_next :: "rfc815ctx \<Rightarrow> u16 \<Rightarrow> u16 \<Rightarrow> rfc815ctx" where
  "holenonptr_set_next ctx idx n =
     (if idx = 65535 then ctx\<lparr>first_hole := n\<rparr>
      else store_hole ctx (unat idx) ((load_hole (pkt ctx) (unat idx))\<lparr>next_hole := n\<rparr>))"

text \<open>The two calls that take a hole out of the list.\<close>

definition unlink_hole :: "rfc815ctx \<Rightarrow> rfc815hole \<Rightarrow> rfc815ctx" where
  "unlink_hole ctx hole =
     holenonptr_set_prev (holenonptr_set_next ctx (prev_hole hole) (next_hole hole)) (next_hole hole) (prev_hole hole)"

partial_function (option) rfc815_trim :: "rfc815ctx \<Rightarrow> u16 \<Rightarrow> rfc815ctx option" where
  "rfc815_trim ctx iter =
     (if iter = 65535 then Some ctx
      else let hole = load_hole (pkt ctx) (unat iter)
           in if rh_first hole > rfc815_last ctx
              then rfc815_trim (unlink_hole ctx hole) (next_hole hole)
              else if rh_last hole > rfc815_last ctx
              then rfc815_trim (store_hole ctx (unat iter) (hole\<lparr>rh_last := rfc815_last ctx\<rparr>)) (next_hole hole)
              else rfc815_trim ctx (next_hole hole))"

text \<open>The main loop; \<open>md\<close> is the flag \<^verbatim>\<open>mod\<close>.  A result without a recursive call is a \<^verbatim>\<open>break\<close>.\<close>

partial_function (option) rfc815_fill ::
  "u16 \<Rightarrow> u16 \<Rightarrow> rfc815ctx \<Rightarrow> u16 \<Rightarrow> bool \<Rightarrow> (rfc815ctx \<times> bool) option" where
  "rfc815_fill data_first data_last ctx iter md =
     (if iter = 65535 then Some (ctx, md)
      else let hole = load_hole (pkt ctx) (unat iter)
      in if data_last = rh_last hole then
           (if data_first \<le> rh_first hole then Some (unlink_hole ctx hole, True)
            else Some (store_hole ctx (unat iter) (hole\<lparr>rh_last := data_first - 1\<rparr>), True))
         else if data_last < rh_last hole then
           (if data_first \<le> rh_first hole then
              (if unat data_last + 1 > unat (rh_first hole) then
                 (let hole = hole\<lparr>rh_first := data_last + 1\<rparr>;
                      ctx = holenonptr_set_next ctx (prev_hole hole) (data_last + 1);
                      ctx = holenonptr_set_prev ctx (next_hole hole) (data_last + 1)
                  in Some (store_hole ctx (unat data_last + 1) hole, True))
               else Some (ctx, md))
            else
              (let old_last = rh_last hole;
                   old_next = next_hole hole;
                   hole = hole\<lparr>rh_last := data_first - 1\<rparr>;
                   ctx = holenonptr_set_prev ctx (next_hole hole) (data_last + 1);
                   hole = hole\<lparr>next_hole := data_last + 1\<rparr>;
                   ctx = store_hole ctx (unat iter) hole;
                   hole = hole\<lparr>prev_hole := iter, next_hole := old_next, rh_first := data_last + 1, rh_last := old_last\<rparr>
               in Some (store_hole ctx (unat data_last + 1) hole, True)))
         else
           (if data_first \<le> rh_first hole then
              rfc815_fill data_first data_last (unlink_hole ctx hole) (next_hole hole) True
            else if int (unat (rh_last hole)) > int (unat data_first) - 1
            then rfc815_fill data_first data_last
                   (store_hole ctx (unat iter) (hole\<lparr>rh_last := data_first - 1\<rparr>)) (next_hole hole) True
            else rfc815_fill data_first data_last ctx (next_hole hole) md))"

text \<open>The main loop from the first hole, and the copy of the payload when a hole changed.\<close>

definition rfc815_fill_copy :: "mem \<Rightarrow> ptr \<Rightarrow> u16 \<Rightarrow> u16 \<Rightarrow> rfc815ctx \<Rightarrow> rfc815ctx option" where
  "rfc815_fill_copy d ip data_first data_last ctx =
     do { (ctx, md) \<leftarrow> rfc815_fill data_first data_last ctx (first_hole ctx) False;
          Some (if md
                then ctx\<lparr>pkt := (\<lambda>a. if unat data_first \<le> a \<and> a < unat data_first + (unat data_last + 1 - unat data_first)
                                    then d (ip_const_payload d ip + (a - unat data_first)) else pkt ctx a)\<rparr>
                else ctx) }"

definition rfc815ctx_add :: "rfc815ctx \<Rightarrow> packet \<Rightarrow> rfc815ctx option" where
  "rfc815ctx_add ctx p =
     (let d = data p;
          ip = ether_const_payload 0
      in if sz p < 34 \<or> ip_total_len d ip \<le> ucast (ip_hdr_len d ip) \<or> unat (ip_total_len d ip) + 14 > sz p
         then Some ctx
         else
           let ctx = (if hdr_len ctx = 0
                      then (let n = 14 + unat (ip_hdr_len d ip)
                            in ctx\<lparr>hdr_len := n,
                                   pkt_header := (\<lambda>a. if a < n then d a else pkt_header ctx a)\<rparr>)
                      else ctx);
               data_first = ip_frag_off d ip
           in if unat (ip_total_len d ip) - (unat (ip_hdr_len d ip) + 1) + unat (ip_frag_off d ip) > 65535
              then Some ctx
              else
                let data_last = ip_total_len d ip - (ucast (ip_hdr_len d ip) + 1) + ip_frag_off d ip
                in if ip_more_frags d ip = 0 \<and> rfc815_last ctx > data_last
                   then do { ctx \<leftarrow> rfc815_trim (ctx\<lparr>rfc815_last := data_last\<rparr>) (first_hole ctx);
                             rfc815_fill_copy d ip data_first data_last ctx }
                   else if data_last < 7 then Some ctx
                   else rfc815_fill_copy d ip data_first (of_nat ((unat data_last + 1) div 8 * 8 - 1)) ctx)"

definition rfc815ctx_reassemble :: "'s allocif \<Rightarrow> 's \<Rightarrow> rfc815ctx \<Rightarrow> (packet option \<times> 's) outcome" where
  "rfc815ctx_reassemble loc s ctx =
     (let n = hdr_len ctx + unat (rfc815_last ctx) + 1
      in case allocif_alloc loc s (packet_size n) of
           (None, s) \<Rightarrow> Inr (None, s)
         | (Some p, s) \<Rightarrow>
             (let p = p\<lparr>sz := n, direction := rfc815_direction ctx\<rparr>;
                  ether2 = packet_calc_data;
                  ip2 = ether_payload ether2
              in and_then (memcpy_obj (data p) n ether2 (pkt_header ctx) 128 0 (hdr_len ctx)) (\<lambda>d.
                 and_then (or_abort (set_frag_hdr d ip2 0 0 (of_nat (hdr_len ctx) - 14 + rfc815_last ctx + 1)
                     (of_nat (hdr_len ctx) - 14))) (\<lambda>d.
                 let pay2 = ether2 + hdr_len ctx
                 in and_then (memcpy_obj d n pay2 (pkt ctx) rfc815_pkt_size 0 (unat (rfc815_last ctx) + 1)) (\<lambda>d.
                 Inr (Some (p\<lparr>data := d\<rparr>), s))))))"

section \<open>Descriptors in the buffer\<close>

lemma hdr_get16h_set16h:
  "hdr_get16h (hdr_set16h m p v) p = v"
  "q + 2 \<le> p \<or> p + 2 \<le> q \<Longrightarrow> hdr_get16h (hdr_set16h m p v) q = hdr_get16h m q"
  by (auto simp: hdr_get16h_def hdr_set16h_def split: endian.split)

lemma hdr_set16h_outside: "a < p \<or> p + 2 \<le> a \<Longrightarrow> hdr_set16h m p v a = m a"
  by (auto simp: hdr_set16h_def split: endian.split)

lemma load_store_hole [simp]: "load_hole (pkt (store_hole ctx idx hole)) idx = hole"
  by (simp add: load_hole_def store_hole_def hdr_get16h_set16h)

lemma load_store_other:
  "j + 8 \<le> idx \<or> idx + 8 \<le> j \<Longrightarrow> load_hole (pkt (store_hole ctx idx hole)) j = load_hole (pkt ctx) j"
  by (auto simp: load_hole_def store_hole_def hdr_get16h_set16h)

lemma store_hole_outside: "a < idx \<or> idx + 8 \<le> a \<Longrightarrow> pkt (store_hole ctx idx hole) a = pkt ctx a"
  by (auto simp: store_hole_def hdr_set16h_outside)

lemma store_hole_fields [simp]:
  "first_hole (store_hole ctx idx hole) = first_hole ctx" "last_hole (store_hole ctx idx hole) = last_hole ctx"
  "rfc815_last (store_hole ctx idx hole) = rfc815_last ctx" "hdr_len (store_hole ctx idx hole) = hdr_len ctx"
  "pkt_header (store_hole ctx idx hole) = pkt_header ctx"
  "rfc815_direction (store_hole ctx idx hole) = rfc815_direction ctx"
  by (simp_all add: store_hole_def)

section \<open>The list of descriptors as a linked list\<close>

text \<open>
  Index \<open>i\<close> is the address \<open>i + 1\<close>, the head is 65536.  Only multiples of 8 hold descriptors; two
  of them at different places do not overlap.
\<close>

definition aligned :: "nat \<Rightarrow> bool" where
  "aligned i \<longleftrightarrow> i mod 8 = 0 \<and> i < 65535"

definition hole_store :: "rfc815ctx \<Rightarrow> store" where
  "hole_store ctx a =
     (if a = 65536 then \<lparr>prev = unat (last_hole ctx) + 1, next = unat (first_hole ctx) + 1\<rparr>
      else if 0 < a \<and> aligned (a - 1)
      then \<lparr>prev = unat (prev_hole (load_hole (pkt ctx) (a - 1))) + 1,
            next = unat (next_hole (load_hole (pkt ctx) (a - 1))) + 1\<rparr>
      else \<lparr>prev = 0, next = 0\<rparr>)"

definition hole_range :: "rfc815ctx \<Rightarrow> nat \<Rightarrow> u16 \<times> u16" where
  "hole_range ctx i = (rh_first (load_hole (pkt ctx) i), rh_last (load_hole (pkt ctx) i))"

lemma aligned_apart: "aligned i \<Longrightarrow> aligned j \<Longrightarrow> i \<noteq> j \<Longrightarrow> i + 8 \<le> j \<or> j + 8 \<le> i"
  unfolding aligned_def by (metis add_diff_cancel_left' le_add_diff_inverse mod_0_imp_dvd dvd_imp_le dvd_diff_nat
      linorder_le_cases nat_less_le zero_less_diff add.commute add_le_cancel_left)

lemma hole_store_store:
  assumes "aligned i"
  shows "hole_store (store_hole ctx i hole) =
    (hole_store ctx)(i + 1 := \<lparr>prev = unat (prev_hole hole) + 1, next = unat (next_hole hole) + 1\<rparr>)"
proof
  fix a
  have "i < 65535" using assms by (simp add: aligned_def)
  show "hole_store (store_hole ctx i hole) a =
      ((hole_store ctx)(i + 1 := \<lparr>prev = unat (prev_hole hole) + 1, next = unat (next_hole hole) + 1\<rparr>)) a"
  proof (cases "a = i + 1")
    case True
    then show ?thesis using assms \<open>i < 65535\<close> by (simp add: hole_store_def)
  next
    case False
    have "load_hole (pkt (store_hole ctx i hole)) (a - 1) = load_hole (pkt ctx) (a - 1)" if "0 < a" "aligned (a - 1)"
      using aligned_apart [OF that(2) assms] False that by (intro load_store_other) auto
    then show ?thesis using False by (simp add: hole_store_def)
  qed
qed

lemma hole_range_store:
  "aligned i \<Longrightarrow> aligned j \<Longrightarrow>
     hole_range (store_hole ctx i hole) j = (if j = i then (rh_first hole, rh_last hole) else hole_range ctx j)"
  using aligned_apart [of j i] by (auto simp: hole_range_def load_store_other)

definition linkable :: "u16 \<Rightarrow> bool" where
  "linkable i \<longleftrightarrow> i = 65535 \<or> aligned (unat i)"

lemma linkable_cases:
  assumes "linkable i"
  obtains "i = 65535" | "i \<noteq> 65535" "aligned (unat i)" "unat i + 1 \<noteq> 65536"
proof (cases "i = 65535")
  case False
  then have "unat i \<noteq> 65535" by (simp add: word_unat_eq_iff)
  with False assms that show ?thesis by (auto simp: linkable_def)
qed (use that in blast)

lemma hole_store_set_prev:
  assumes "linkable i"
  shows "hole_store (holenonptr_set_prev ctx i p) = set_prev (hole_store ctx) (unat i + 1) (unat p + 1)"
  using assms
proof (cases rule: linkable_cases)
  case 1
  then show ?thesis by (auto simp: holenonptr_set_prev_def hole_store_def set_prev_def fun_eq_iff)
next
  case 2
  then show ?thesis
    by (simp add: holenonptr_set_prev_def hole_store_store set_prev_def) (simp add: hole_store_def)
qed

lemma hole_store_set_next:
  assumes "linkable i"
  shows "hole_store (holenonptr_set_next ctx i n) = set_next (hole_store ctx) (unat i + 1) (unat n + 1)"
  using assms
proof (cases rule: linkable_cases)
  case 1
  then show ?thesis by (auto simp: holenonptr_set_next_def hole_store_def set_next_def fun_eq_iff)
next
  case 2
  then show ?thesis
    by (simp add: holenonptr_set_next_def hole_store_store set_next_def) (simp add: hole_store_def)
qed

lemma hole_range_set_link:
  assumes "linkable i" "aligned j"
  shows "hole_range (holenonptr_set_prev ctx i v) j = hole_range ctx j"
    "hole_range (holenonptr_set_next ctx i v) j = hole_range ctx j"
  using assms(1)
  by (cases rule: linkable_cases;
      use assms(2) in \<open>auto simp: holenonptr_set_prev_def holenonptr_set_next_def hole_range_store\<close>;
      simp add: hole_range_def)+

text \<open>Writes stay in the eight bytes of one descriptor.\<close>

lemma set_link_outside:
  assumes "j = 65535 \<or> a < unat j \<or> unat j + 8 \<le> a"
  shows "pkt (holenonptr_set_prev ctx j v) a = pkt ctx a" "pkt (holenonptr_set_next ctx j v) a = pkt ctx a"
  using assms by (auto simp: holenonptr_set_prev_def holenonptr_set_next_def store_hole_outside)

lemma set_link_fields [simp]:
  "rfc815_last (holenonptr_set_prev ctx j v) = rfc815_last ctx" "hdr_len (holenonptr_set_prev ctx j v) = hdr_len ctx"
  "pkt_header (holenonptr_set_prev ctx j v) = pkt_header ctx"
  "rfc815_direction (holenonptr_set_prev ctx j v) = rfc815_direction ctx"
  "rfc815_last (holenonptr_set_next ctx j v) = rfc815_last ctx" "hdr_len (holenonptr_set_next ctx j v) = hdr_len ctx"
  "pkt_header (holenonptr_set_next ctx j v) = pkt_header ctx"
  "rfc815_direction (holenonptr_set_next ctx j v) = rfc815_direction ctx"
  by (simp_all add: holenonptr_set_prev_def holenonptr_set_next_def)



section \<open>Operations on the list\<close>

definition addr :: "hole \<Rightarrow> nat" where
  "addr h = unat (hole_first h) + 1"

definition nidx :: "hole list \<Rightarrow> u16" where
  "nidx zs = (case zs of [] \<Rightarrow> 65535 | z # _ \<Rightarrow> hole_first z)"

definition pidx :: "hole list \<Rightarrow> u16" where
  "pidx ys = (if ys = [] then 65535 else hole_first (last ys))"

text \<open>The descriptors of the context are the holes \<open>hs\<close>, linked in this order.\<close>

definition holes_in :: "rfc815ctx \<Rightarrow> hole list \<Rightarrow> bool" where
  "holes_in ctx hs \<longleftrightarrow>
     dll (hole_store ctx) 65536 (map addr hs) \<and>
     (\<forall>h\<in>set hs. aligned (unat (hole_first h)) \<and> hole_range ctx (unat (hole_first h)) = (hole_first h, hole_last h))"

text \<open>The bytes that the descriptors occupy.\<close>

definition desc_bytes :: "hole list \<Rightarrow> nat set" where
  "desc_bytes hs = (\<Union>h\<in>set hs. {unat (hole_first h)..<unat (hole_first h) + 8})"

lemma addr_nidx: "hd (map addr zs @ [65536]) = unat (nidx zs) + 1"
  by (cases zs) (simp_all add: nidx_def addr_def)

lemma addr_pidx: "last (65536 # map addr ys) = unat (pidx ys) + 1"
  by (simp add: pidx_def addr_def last_map)

lemma unat_plus_1_inject: "unat (x :: u16) + 1 = unat y + 1 \<longleftrightarrow> x = y"
  by (simp add: word_unat_eq_iff)

lemma holes_in_links:
  assumes "holes_in ctx (ys @ h # zs)"
  shows "load_hole (pkt ctx) (unat (hole_first h)) =
      \<lparr>rh_first = hole_first h, rh_last = hole_last h, next_hole = nidx zs, prev_hole = pidx ys\<rparr>"
    "linkable (nidx zs)" "linkable (pidx ys)" "aligned (unat (hole_first h))" "hole_first h \<noteq> 65535"
proof -
  have al: "aligned (unat (hole_first x))" if "x \<in> set (ys @ h # zs)" for x
    using assms that unfolding holes_in_def by blast
  show a: "aligned (unat (hole_first h))" using al [of h] by simp
  then show "hole_first h \<noteq> 65535" by (auto simp: aligned_def)
  show "linkable (nidx zs)" using al by (cases zs) (auto simp: nidx_def linkable_def)
  show "linkable (pidx ys)" using al [of "last ys"] by (cases "ys = []") (auto simp: pidx_def linkable_def)
  have "dseg (hole_store ctx) 65536 (map addr ys @ addr h # map addr zs) 65536"
    using assms by (simp add: holes_in_def dll_def)
  from dseg_neighbours [OF this]
  have "prev (hole_store ctx (addr h)) = unat (pidx ys) + 1 \<and> next (hole_store ctx (addr h)) = unat (nidx zs) + 1"
    unfolding addr_nidx addr_pidx .
  then have "prev_hole (load_hole (pkt ctx) (unat (hole_first h))) = pidx ys"
    "next_hole (load_hole (pkt ctx) (unat (hole_first h))) = nidx zs"
    using a by (auto simp: hole_store_def addr_def aligned_def word_unat_eq_iff split: if_splits)
  moreover have "hole_range ctx (unat (hole_first h)) = (hole_first h, hole_last h)"
    using assms unfolding holes_in_def by auto
  ultimately show "load_hole (pkt ctx) (unat (hole_first h)) =
      \<lparr>rh_first = hole_first h, rh_last = hole_last h, next_hole = nidx zs, prev_hole = pidx ys\<rparr>"
    by (simp add: hole_range_def)
qed

lemma holes_in_ends:
  assumes "holes_in ctx hs"
  shows "first_hole ctx = nidx hs" "last_hole ctx = pidx hs"
proof -
  have "dseg (hole_store ctx) 65536 (map addr hs) 65536" using assms by (simp add: holes_in_def dll_def)
  from dseg_ends [OF this]
  have "next (hole_store ctx 65536) = unat (nidx hs) + 1" "prev (hole_store ctx 65536) = unat (pidx hs) + 1"
    unfolding addr_nidx addr_pidx by auto
  then show "first_hole ctx = nidx hs" "last_hole ctx = pidx hs"
    by (simp_all add: hole_store_def word_unat_eq_iff)
qed

lemma nidx_outside: "a \<notin> desc_bytes zs \<Longrightarrow> nidx zs = 65535 \<or> a < unat (nidx zs) \<or> unat (nidx zs) + 8 \<le> a"
  by (cases zs) (auto simp: nidx_def desc_bytes_def)

lemma pidx_outside: "a \<notin> desc_bytes ys \<Longrightarrow> pidx ys = 65535 \<or> a < unat (pidx ys) \<or> unat (pidx ys) + 8 \<le> a"
  by (cases ys rule: rev_cases) (auto simp: pidx_def desc_bytes_def)

lemma desc_bytes_append [simp]:
  "desc_bytes (ys @ zs) = desc_bytes ys \<union> desc_bytes zs"
  "desc_bytes (h # zs) = {unat (hole_first h)..<unat (hole_first h) + 8} \<union> desc_bytes zs"
  by (auto simp: desc_bytes_def)

lemma holes_in_distinct:
  assumes "holes_in ctx (ys @ h # zs)"
  shows "distinct (map addr (ys @ h # zs))" "65536 \<notin> set (map addr (ys @ h # zs))"
  using assms by (auto simp: holes_in_def dll_def)

lemma holes_in_others:
  assumes "holes_in ctx (ys @ h # zs)" "x \<in> set (ys @ zs)"
  shows "unat (hole_first x) \<noteq> unat (hole_first h)" "aligned (unat (hole_first x))"
    "hole_range ctx (unat (hole_first x)) = (hole_first x, hole_last x)"
proof -
  have "addr x \<in> addr ` set (ys @ zs)" using assms(2) by blast
  moreover have "addr h \<notin> addr ` set (ys @ zs)" using holes_in_distinct(1) [OF assms(1)] by auto
  ultimately have "addr x \<noteq> addr h" by metis
  then show "unat (hole_first x) \<noteq> unat (hole_first h)" by (simp add: addr_def)
  show "aligned (unat (hole_first x))" "hole_range ctx (unat (hole_first x)) = (hole_first x, hole_last x)"
    using assms unfolding holes_in_def by auto
qed

lemma unlink_hole_ok:
  assumes "holes_in ctx (ys @ h # zs)"
  defines "ctx' \<equiv> unlink_hole ctx (load_hole (pkt ctx) (unat (hole_first h)))"
  shows "holes_in ctx' (ys @ zs)" "\<And>a. a \<notin> desc_bytes (ys @ zs) \<Longrightarrow> pkt ctx' a = pkt ctx a"
    "rfc815_last ctx' = rfc815_last ctx \<and> hdr_len ctx' = hdr_len ctx \<and> pkt_header ctx' = pkt_header ctx"
proof -
  note l = holes_in_links [OF assms(1)]
  let ?P = "unat (pidx ys) + 1" and ?N = "unat (nidx zs) + 1"
  have c: "ctx' = holenonptr_set_prev (holenonptr_set_next ctx (pidx ys) (nidx zs)) (nidx zs) (pidx ys)"
    by (simp add: ctx'_def l(1) unlink_hole_def)
  have st: "hole_store ctx' = set_prev (set_next (hole_store ctx) ?P ?N) ?N ?P"
    unfolding c by (simp add: hole_store_set_prev [OF l(2)] hole_store_set_next [OF l(3)])
  have d: "dll (hole_store ctx) 65536 (map addr ys @ addr h # map addr zs)"
    using assms(1) by (simp add: holes_in_def)
  have "dll (hole_store ctx') 65536 (map addr ys @ map addr zs)"
    by (rule dll_unlink [OF d, unfolded addr_nidx addr_pidx]) (simp_all add: st)
  moreover have "aligned (unat (hole_first x)) \<and> hole_range ctx' (unat (hole_first x)) = (hole_first x, hole_last x)"
    if "x \<in> set (ys @ zs)" for x
  proof -
    have x: "aligned (unat (hole_first x))" "hole_range ctx (unat (hole_first x)) = (hole_first x, hole_last x)"
      using assms(1) that unfolding holes_in_def by auto
    then show ?thesis unfolding c by (simp add: hole_range_set_link l)
  qed
  ultimately show "holes_in ctx' (ys @ zs)" unfolding holes_in_def by simp
  show "pkt ctx' a = pkt ctx a" if "a \<notin> desc_bytes (ys @ zs)" for a
  proof -
    have "a \<notin> desc_bytes zs" "a \<notin> desc_bytes ys" using that by auto
    from nidx_outside [OF this(1)] pidx_outside [OF this(2)]
    show ?thesis unfolding c by (simp add: set_link_outside)
  qed
qed (simp add: ctx'_def unlink_hole_def)

text \<open>Shortening a hole at its end rewrites its descriptor in place.\<close>

lemma shorten_hole_ok:
  fixes v :: u16
  assumes "holes_in ctx (ys @ h # zs)"
  defines "ctx' \<equiv> store_hole ctx (unat (hole_first h)) ((load_hole (pkt ctx) (unat (hole_first h)))\<lparr>rh_last := v\<rparr>)"
  shows "holes_in ctx' (ys @ h\<lparr>hole_last := v\<rparr> # zs)"
    "\<And>a. a \<notin> desc_bytes [h] \<Longrightarrow> pkt ctx' a = pkt ctx a"
proof -
  note l = holes_in_links [OF assms(1)] and dist = holes_in_distinct [OF assms(1)]
  have st: "hole_store ctx' = hole_store ctx"
    unfolding ctx'_def hole_store_store [OF l(4)]
    using l(4) by (auto simp: fun_eq_iff hole_store_def aligned_def)
  have "addr (h\<lparr>hole_last := v\<rparr>) = addr h" by (simp add: addr_def)
  then have "dll (hole_store ctx') 65536 (map addr (ys @ h\<lparr>hole_last := v\<rparr> # zs))"
    using assms(1) unfolding st holes_in_def by simp
  moreover have "aligned (unat (hole_first x)) \<and> hole_range ctx' (unat (hole_first x)) = (hole_first x, hole_last x)"
    if "x \<in> set (ys @ h\<lparr>hole_last := v\<rparr> # zs)" for x
  proof (cases "x = h\<lparr>hole_last := v\<rparr>")
    case True
    then show ?thesis using l(1,4) by (simp add: ctx'_def hole_range_store)
  next
    case False
    then have "x \<in> set (ys @ zs)" using that by auto
    from holes_in_others [OF assms(1) this] show ?thesis using l(4) by (simp add: ctx'_def hole_range_store)
  qed
  ultimately show "holes_in ctx' (ys @ h\<lparr>hole_last := v\<rparr> # zs)" unfolding holes_in_def by blast
  show "pkt ctx' a = pkt ctx a" if "a \<notin> desc_bytes [h]" for a
    using that by (auto simp: ctx'_def store_hole_outside desc_bytes_def)
qed



lemma idx_fresh:
  assumes "holes_in ctx (ys @ h # zs)" "aligned (unat n)" "n \<notin> hole_first ` set (ys @ h # zs)"
  shows "unat (nidx zs) + 1 \<noteq> unat n + 1" "unat (pidx ys) + 1 \<noteq> unat n + 1"
    "unat n + 1 \<notin> set (65536 # map addr (ys @ h # zs))" "unat (nidx zs) + 1 \<noteq> addr h" "unat (pidx ys) + 1 \<noteq> addr h"
    "addr h \<noteq> unat n + 1" "\<And>x. x \<in> set (ys @ h # zs) \<Longrightarrow> unat (hole_first x) \<noteq> unat n"
proof -
  have n: "unat n < 65535" using assms(2) by (simp add: aligned_def)
  have ne: "unat n \<noteq> unat (hole_first x)" if "x \<in> set (ys @ h # zs)" for x
    using assms(3) that by (auto simp: word_unat_eq_iff)
  then show "unat (hole_first x) \<noteq> unat n" if "x \<in> set (ys @ h # zs)" for x using that by metis
  show "unat n + 1 \<notin> set (65536 # map addr (ys @ h # zs))" using n ne by (auto simp: addr_def)
  show "unat (nidx zs) + 1 \<noteq> unat n + 1"
    using n ne [of "hd zs"] by (cases zs) (auto simp: nidx_def)
  show "unat (pidx ys) + 1 \<noteq> unat n + 1"
    using n ne [of "last ys"] by (cases "ys = []") (auto simp: pidx_def)
  show "addr h \<noteq> unat n + 1" using ne [of h] by (simp add: addr_def)
  have h: "unat (hole_first h) < 65535" using holes_in_links(4) [OF assms(1)] by (simp add: aligned_def)
  show "unat (nidx zs) + 1 \<noteq> addr h"
    using h holes_in_others(1) [OF assms(1), of "hd zs"] by (cases zs) (auto simp: nidx_def addr_def)
  show "unat (pidx ys) + 1 \<noteq> addr h"
    using h holes_in_others(1) [OF assms(1), of "last ys"] by (cases "ys = []") (auto simp: pidx_def addr_def)
qed

text \<open>Moving the start of a hole writes its descriptor to the new place and relinks it.\<close>

lemma move_hole_ok:
  fixes n :: u16
  assumes "holes_in ctx (ys @ h # zs)" "aligned (unat n)" "n \<notin> hole_first ` set (ys @ h # zs)"
  defines "ctx' \<equiv> store_hole (holenonptr_set_prev (holenonptr_set_next ctx (pidx ys) n) (nidx zs) n) (unat n)
      \<lparr>rh_first = n, rh_last = hole_last h, next_hole = nidx zs, prev_hole = pidx ys\<rparr>"
  shows "holes_in ctx' (ys @ h\<lparr>hole_first := n\<rparr> # zs)"
    "\<And>a. a \<notin> desc_bytes (ys @ h\<lparr>hole_first := n\<rparr> # zs) \<Longrightarrow> pkt ctx' a = pkt ctx a"
proof -
  note l = holes_in_links [OF assms(1)] and fr = idx_fresh [OF assms(1-3)]
  let ?P = "unat (pidx ys) + 1" and ?N = "unat (nidx zs) + 1" and ?n = "unat n + 1"
  let ?H = "hole_store ctx"
  have st: "hole_store ctx' = (set_prev (set_next ?H ?P ?n) ?N ?n)(?n := \<lparr>prev = ?P, next = ?N\<rparr>)"
    unfolding ctx'_def hole_store_store [OF assms(2)]
    by (simp add: hole_store_set_prev [OF l(2)] hole_store_set_next [OF l(3)])
  have d: "dll ?H 65536 (map addr ys @ addr h # map addr zs)"
    using assms(1) by (simp add: holes_in_def)
  have u: "dll (set_prev (set_next ?H ?P ?N) ?N ?P) 65536 (map addr ys @ map addr zs)"
    by (rule dll_unlink [OF d, unfolded addr_nidx addr_pidx]) simp_all
  have "dll (hole_store ctx') 65536 (map addr ys @ ?n # map addr zs)"
    by (rule dll_link [OF u, unfolded addr_nidx addr_pidx]) (use fr in \<open>auto simp: st\<close>)
  moreover have "aligned (unat (hole_first x)) \<and> hole_range ctx' (unat (hole_first x)) = (hole_first x, hole_last x)"
    if "x \<in> set (ys @ h\<lparr>hole_first := n\<rparr> # zs)" for x
  proof (cases "x = h\<lparr>hole_first := n\<rparr>")
    case True
    then show ?thesis using assms(2) by (simp add: ctx'_def hole_range_store)
  next
    case False
    then have x: "x \<in> set (ys @ zs)" using that by auto
    note o = holes_in_others [OF assms(1) x]
    have "unat (hole_first x) \<noteq> unat n" using fr(7) [of x] x by auto
    then show ?thesis using o assms(2) l by (simp add: ctx'_def hole_range_store hole_range_set_link)
  qed
  moreover have "addr (h\<lparr>hole_first := n\<rparr>) = ?n" by (simp add: addr_def)
  ultimately show "holes_in ctx' (ys @ h\<lparr>hole_first := n\<rparr> # zs)" unfolding holes_in_def by simp
  show "pkt ctx' a = pkt ctx a" if a: "a \<notin> desc_bytes (ys @ h\<lparr>hole_first := n\<rparr> # zs)" for a
  proof -
    have "a \<notin> desc_bytes zs" "a \<notin> desc_bytes ys" "a < unat n \<or> unat n + 8 \<le> a" using a by auto
    from nidx_outside [OF this(1)] pidx_outside [OF this(2)] this(3)
    show ?thesis by (simp add: ctx'_def store_hole_outside set_link_outside)
  qed
qed

text \<open>Splitting a hole shortens its descriptor and links a new one behind it.\<close>

lemma split_hole_ok:
  fixes n v :: u16
  assumes "holes_in ctx (ys @ h # zs)" "aligned (unat n)" "n \<notin> hole_first ` set (ys @ h # zs)"
  defines "ctx' \<equiv> store_hole (store_hole (holenonptr_set_prev ctx (nidx zs) n) (unat (hole_first h))
        \<lparr>rh_first = hole_first h, rh_last = v, next_hole = n, prev_hole = pidx ys\<rparr>) (unat n)
      \<lparr>rh_first = n, rh_last = hole_last h, next_hole = nidx zs, prev_hole = hole_first h\<rparr>"
  shows "holes_in ctx' (ys @ \<lparr>hole_first = hole_first h, hole_last = v\<rparr> # h\<lparr>hole_first := n\<rparr> # zs)"
    "\<And>a. a \<notin> desc_bytes (h # h\<lparr>hole_first := n\<rparr> # zs) \<Longrightarrow> pkt ctx' a = pkt ctx a"
proof -
  note l = holes_in_links [OF assms(1)] and fr = idx_fresh [OF assms(1-3)]
  let ?P = "unat (pidx ys) + 1" and ?N = "unat (nidx zs) + 1" and ?n = "unat n + 1"
  let ?H = "hole_store ctx" and ?g = "\<lparr>hole_first = hole_first h, hole_last = v\<rparr>"
  have st: "hole_store ctx' = ((set_prev ?H ?N ?n)(addr h := \<lparr>prev = ?P, next = ?n\<rparr>))
      (?n := \<lparr>prev = addr h, next = ?N\<rparr>)"
    unfolding ctx'_def hole_store_store [OF assms(2)] hole_store_store [OF l(4)]
    by (simp add: hole_store_set_prev [OF l(2)] addr_def)
  have d: "dll ?H 65536 (map addr (ys @ [h]) @ map addr zs)"
    using assms(1) by (simp add: holes_in_def)
  have pl: "last (65536 # map addr (ys @ [h])) = addr h" by simp
  have "prev (?H (addr h)) = ?P"
    using l(1,4) by (simp add: hole_store_def addr_def aligned_def)
  then have "dll (hole_store ctx') 65536 (map addr (ys @ [h]) @ ?n # map addr zs)"
    using fr by (intro dll_link [OF d, unfolded addr_nidx pl]) (auto simp: st)
  moreover have "aligned (unat (hole_first x)) \<and> hole_range ctx' (unat (hole_first x)) = (hole_first x, hole_last x)"
    if x: "x \<in> set (ys @ ?g # h\<lparr>hole_first := n\<rparr> # zs)" for x
  proof -
    consider "x = ?g" | "x = h\<lparr>hole_first := n\<rparr>" | "x \<in> set (ys @ zs)" using x by auto
    then show ?thesis
    proof cases
      case 1
      then show ?thesis using assms(2) l(4) fr(6) by (simp add: ctx'_def hole_range_store addr_def)
    next
      case 2
      then show ?thesis using assms(2) by (simp add: ctx'_def hole_range_store)
    next
      case 3
      note o = holes_in_others [OF assms(1) 3]
      have "unat (hole_first x) \<noteq> unat n" using fr(7) [of x] 3 by auto
      then show ?thesis using o assms(2) l by (simp add: ctx'_def hole_range_store hole_range_set_link)
    qed
  qed
  moreover have "addr (h\<lparr>hole_first := n\<rparr>) = ?n" "addr ?g = addr h" by (simp_all add: addr_def)
  ultimately show "holes_in ctx' (ys @ ?g # h\<lparr>hole_first := n\<rparr> # zs)" unfolding holes_in_def by simp
  show "pkt ctx' a = pkt ctx a" if a: "a \<notin> desc_bytes (h # h\<lparr>hole_first := n\<rparr> # zs)" for a
  proof -
    have "a \<notin> desc_bytes zs" "a < unat n \<or> unat n + 8 \<le> a"
      "a < unat (hole_first h) \<or> unat (hole_first h) + 8 \<le> a" using a by auto
    from nidx_outside [OF this(1)] this(2,3)
    show ?thesis by (simp add: ctx'_def store_hole_outside set_link_outside)
  qed
qed



section \<open>The loops refine those on lists of holes\<close>

lemma nidx_Cons [simp]: "nidx (h # hs) = hole_first h"
  by (simp add: nidx_def)

lemma nidx_Nil [simp]: "nidx [] = 65535"
  by (simp add: nidx_def)

definition same_hdr :: "rfc815ctx \<Rightarrow> rfc815ctx \<Rightarrow> bool" where
  "same_hdr c c' \<longleftrightarrow> rfc815_last c' = rfc815_last c \<and> hdr_len c' = hdr_len c \<and> pkt_header c' = pkt_header c"

lemma same_hdr_simps [simp]:
  "same_hdr c c" "same_hdr c (store_hole c i h)" "same_hdr c (unlink_hole c h)"
  "same_hdr c (holenonptr_set_next c j v)" "same_hdr c (holenonptr_set_prev c j v)"
  by (simp_all add: same_hdr_def unlink_hole_def)

lemma same_hdr_trans: "same_hdr a b \<Longrightarrow> same_hdr b c \<Longrightarrow> same_hdr a c"
  by (simp add: same_hdr_def)

lemma rfc815_trim_ok:
  assumes "holes_in ctx (ys @ hs)"
  obtains ctx' where "rfc815_trim ctx (nidx hs) = Some ctx'"
    "holes_in ctx' (ys @ trim_holes (rfc815_last ctx) hs)" "same_hdr ctx ctx'"
    "\<And>a. a \<notin> desc_bytes (ys @ hs) \<Longrightarrow> pkt ctx' a = pkt ctx a"
  using assms
proof (induction hs arbitrary: ctx ys thesis)
  case Nil
  then show ?case using Nil.prems(1) [of ctx] by (simp add: rfc815_trim.simps [of ctx])
next
  case (Cons h hs)
  let ?m = "rfc815_last ctx"
  note l = holes_in_links [OF Cons.prems(2)]
  note step = rfc815_trim.simps [of ctx "hole_first h"]
  consider "hole_first h > ?m" | "\<not> hole_first h > ?m" "hole_last h > ?m" | "\<not> hole_first h > ?m" "\<not> hole_last h > ?m"
    by blast
  then show ?case
  proof cases
    case 1
    let ?c = "unlink_hole ctx (load_hole (pkt ctx) (unat (hole_first h)))"
    note u = unlink_hole_ok [OF Cons.prems(2)]
    have m: "rfc815_last ?c = ?m" using u(3) by simp
    obtain ctx' where c: "rfc815_trim ?c (nidx hs) = Some ctx'" "holes_in ctx' (ys @ trim_holes ?m hs)"
      "same_hdr ?c ctx'" "\<And>a. a \<notin> desc_bytes (ys @ hs) \<Longrightarrow> pkt ctx' a = pkt ?c a"
      using Cons.IH [OF _ u(1)] unfolding m by blast
    show ?thesis
    proof (rule Cons.prems(1))
      show "rfc815_trim ctx (nidx (h # hs)) = Some ctx'" using 1 c(1) l by (simp add: step Let_def)
      show "holes_in ctx' (ys @ trim_holes ?m (h # hs))" using c(2) 1 by simp
      show "same_hdr ctx ctx'" using same_hdr_trans [OF _ c(3)] by simp
      show "pkt ctx' a = pkt ctx a" if "a \<notin> desc_bytes (ys @ h # hs)" for a
        using c(4) [of a] u(2) [of a] that by auto
    qed
  next
    case 2
    let ?c = "store_hole ctx (unat (hole_first h)) ((load_hole (pkt ctx) (unat (hole_first h)))\<lparr>rh_last := ?m\<rparr>)"
    note u = shorten_hole_ok [OF Cons.prems(2), where v = ?m]
    have h: "holes_in ?c ((ys @ [h\<lparr>hole_last := ?m\<rparr>]) @ hs)" using u(1) by simp
    have m: "rfc815_last ?c = ?m" by simp
    obtain ctx' where c: "rfc815_trim ?c (nidx hs) = Some ctx'"
      "holes_in ctx' ((ys @ [h\<lparr>hole_last := ?m\<rparr>]) @ trim_holes ?m hs)"
      "same_hdr ?c ctx'" "\<And>a. a \<notin> desc_bytes ((ys @ [h\<lparr>hole_last := ?m\<rparr>]) @ hs) \<Longrightarrow> pkt ctx' a = pkt ?c a"
      using Cons.IH [OF _ h] unfolding m by blast
    show ?thesis
    proof (rule Cons.prems(1))
      show "rfc815_trim ctx (nidx (h # hs)) = Some ctx'" using 2 c(1) l by (simp add: step Let_def)
      show "holes_in ctx' (ys @ trim_holes ?m (h # hs))" using c(2) 2 by simp
      show "same_hdr ctx ctx'" using same_hdr_trans [OF _ c(3)] by simp
      show "pkt ctx' a = pkt ctx a" if "a \<notin> desc_bytes (ys @ h # hs)" for a
        using c(4) [of a] u(2) [of a] that by (auto simp: desc_bytes_def)
    qed
  next
    case 3
    have h: "holes_in ctx ((ys @ [h]) @ hs)" using Cons.prems(2) by simp
    obtain ctx' where c: "rfc815_trim ctx (nidx hs) = Some ctx'" "holes_in ctx' ((ys @ [h]) @ trim_holes ?m hs)"
      "same_hdr ctx ctx'" "\<And>a. a \<notin> desc_bytes ((ys @ [h]) @ hs) \<Longrightarrow> pkt ctx' a = pkt ctx a"
      using Cons.IH [OF _ h] by blast
    show ?thesis
    proof (rule Cons.prems(1))
      show "rfc815_trim ctx (nidx (h # hs)) = Some ctx'" using 3 c(1) l by (simp add: step Let_def)
      show "holes_in ctx' (ys @ trim_holes ?m (h # hs))" using c(2) 3 by simp
    qed (use c in auto)
  qed
qed

lemma holes_wf_first: "holes_wf lo hs \<Longrightarrow> x \<in> set hs \<Longrightarrow> lo \<le> unat (hole_first x)"
  by (induction hs arbitrary: lo) fastforce+



text \<open>
  What the main loop leaves: the filled holes, unchanged header fields, and a buffer that
  differs only where descriptors are or were.
\<close>

definition fills :: "u16 \<Rightarrow> u16 \<Rightarrow> hole list \<Rightarrow> hole list \<Rightarrow> rfc815ctx \<Rightarrow> bool \<Rightarrow> rfc815ctx \<Rightarrow> bool \<Rightarrow> bool" where
  "fills f l ys hs ctx md ctx' md' \<longleftrightarrow>
     holes_in ctx' (ys @ fill_holes f l hs) \<and> same_hdr ctx ctx' \<and> (md' \<or> \<not> md \<and> fill_holes f l hs = hs) \<and>
     (\<forall>a. a \<notin> desc_bytes (ys @ hs @ fill_holes f l hs) \<longrightarrow> pkt ctx' a = pkt ctx a)"

lemma rfc815_fill_ok:
  assumes "holes_in ctx (ys @ hs)" "holes_wf lo hs" "\<forall>y\<in>set ys. unat (hole_first y) < lo"
    and "unat f \<le> unat l + 1" "\<forall>h\<in>set hs. unat l < unat (hole_last h) \<longrightarrow> (unat l + 1) mod 8 = 0"
  shows "\<exists>ctx' md'. rfc815_fill f l ctx (nidx hs) md = Some (ctx', md') \<and> fills f l ys hs ctx md ctx' md'"
  using assms
proof (induction hs arbitrary: ctx ys lo md)
  case Nil
  then show ?case by (simp add: rfc815_fill.simps [of f l ctx] fills_def)
next
  case (Cons h hs)
  note l = holes_in_links [OF Cons.prems(1)]
  note step = rfc815_fill.simps [of f l ctx "hole_first h" md]
  let ?a = "unat (hole_first h)" and ?b = "unat (hole_last h)"
  from Cons.prems(2) have hs: "holes_wf (?b + 1) hs" and ab: "lo \<le> ?a" "?a \<le> ?b" by auto
  have ys: "\<forall>y\<in>set ys. unat (hole_first y) < ?b + 1" "\<forall>y\<in>set (ys @ [h]). unat (hole_first y) < ?b + 1"
    using Cons.prems(3) ab by fastforce+
  have al: "\<forall>h\<in>set hs. unat l < unat (hole_last h) \<longrightarrow> (unat l + 1) mod 8 = 0" using Cons.prems(5) by simp
  have new: "unat (l + 1) = unat l + 1 \<and> aligned (unat (l + 1)) \<and> l + 1 \<notin> hole_first ` set (ys @ h # hs)"
    if "l < hole_last h" "?a < unat l + 1"
  proof -
    have u: "unat (l + 1) = unat l + 1" by (rule unat_succ [OF that(1)])
    have lb: "unat l < ?b" using that(1) by (simp add: word_less_nat_alt)
    then have m8: "(unat l + 1) mod 8 = 0" using Cons.prems(5) by simp
    then have "unat l + 1 \<noteq> 65535" by auto
    then have "aligned (unat (l + 1))"
      using u m8 lb unat_u16_less [of "hole_last h"] by (simp add: aligned_def)
    moreover have "unat l + 1 \<noteq> unat (hole_first x)" if x: "x \<in> set (ys @ h # hs)" for x
    proof -
      consider "x \<in> set ys" | "x = h" | "x \<in> set hs" using x by auto
      then show ?thesis
      proof cases
        case 1
        then show ?thesis using Cons.prems(3) ab \<open>?a < unat l + 1\<close> by fastforce
      next
        case 3
        then show ?thesis using holes_wf_first [OF hs] lb by fastforce
      qed (use \<open>?a < unat l + 1\<close> in simp)
    qed
    then have "l + 1 \<notin> hole_first ` set (ys @ h # hs)" using u by (metis imageE)
    ultimately show ?thesis using u by blast
  qed
  consider (eq) "l = hole_last h" | (lt) "l < hole_last h" | (gt) "l \<noteq> hole_last h" "\<not> l < hole_last h" by blast
  then show ?case
  proof cases
    case eq
    show ?thesis
    proof (cases "f \<le> hole_first h")
      case True
      let ?c = "unlink_hole ctx (load_hole (pkt ctx) (unat (hole_first h)))"
      note u = unlink_hole_ok [OF Cons.prems(1)]
      have "rfc815_fill f l ctx (nidx (h # hs)) md = Some (?c, True)"
        using True eq [symmetric] l by (simp add: step Let_def)
      moreover have "fills f l ys (h # hs) ctx md ?c True" using u True eq by (simp add: fills_def)
      ultimately show ?thesis by blast
    next
      case False
      let ?c = "store_hole ctx (unat (hole_first h)) ((load_hole (pkt ctx) (unat (hole_first h)))\<lparr>rh_last := f - 1\<rparr>)"
      note u = shorten_hole_ok [OF Cons.prems(1), where v = "f - 1"]
      have "rfc815_fill f l ctx (nidx (h # hs)) md = Some (?c, True)"
        using False eq [symmetric] l by (simp add: step Let_def)
      moreover have "fills f l ys (h # hs) ctx md ?c True" using u False eq by (auto simp: fills_def desc_bytes_def)
      ultimately show ?thesis by blast
    qed
  next
    case lt
    then have ne: "l \<noteq> hole_last h" by auto
    show ?thesis
    proof (cases "f \<le> hole_first h")
      case True
      show ?thesis
      proof (cases "?a < unat l + 1")
        case less: True
        note n = new [OF lt less]
        let ?c = "store_hole (holenonptr_set_prev (holenonptr_set_next ctx (pidx ys) (l + 1)) (nidx hs) (l + 1)) (unat (l + 1))
          \<lparr>rh_first = l + 1, rh_last = hole_last h, next_hole = nidx hs, prev_hole = pidx ys\<rparr>"
        note u = move_hole_ok [OF Cons.prems(1), where n = "l + 1"]
        have "rfc815_fill f l ctx (nidx (h # hs)) md = Some (?c, True)"
          using True lt ne less l n by (simp add: step Let_def)
        moreover have "fills f l ys (h # hs) ctx md ?c True"
          using u n True lt ne less by (auto simp: fills_def same_hdr_def)
        ultimately show ?thesis by blast
      next
        case False
        have "rfc815_fill f l ctx (nidx (h # hs)) md = Some (ctx, md)"
          using True lt ne False l by (simp add: step Let_def)
        moreover have "fills f l ys (h # hs) ctx md ctx md"
          using Cons.prems(1) True lt ne False by (simp add: fills_def)
        ultimately show ?thesis by blast
      qed
    next
      case False
      have "?a < unat l + 1" using False Cons.prems(4) by (simp add: word_le_nat_alt)
      note n = new [OF lt this]
      let ?c = "store_hole (store_hole (holenonptr_set_prev ctx (nidx hs) (l + 1)) (unat (hole_first h))
          \<lparr>rh_first = hole_first h, rh_last = f - 1, next_hole = l + 1, prev_hole = pidx ys\<rparr>) (unat (l + 1))
        \<lparr>rh_first = l + 1, rh_last = hole_last h, next_hole = nidx hs, prev_hole = hole_first h\<rparr>"
      note u = split_hole_ok [OF Cons.prems(1), where n = "l + 1" and v = "f - 1"]
      have "rfc815_fill f l ctx (nidx (h # hs)) md = Some (?c, True)"
        using False lt ne l n by (simp add: step Let_def)
      moreover have "fills f l ys (h # hs) ctx md ?c True"
        using u n False lt ne by (auto simp: fills_def same_hdr_def desc_bytes_def)
      ultimately show ?thesis by blast
    qed
  next
    case gt
    show ?thesis
    proof (cases "f \<le> hole_first h")
      case True
      let ?c = "unlink_hole ctx (load_hole (pkt ctx) (unat (hole_first h)))"
      note u = unlink_hole_ok [OF Cons.prems(1)]
      obtain ctx' md' where c: "rfc815_fill f l ?c (nidx hs) True = Some (ctx', md')" "fills f l ys hs ?c True ctx' md'"
        using Cons.IH [OF u(1) hs ys(1) Cons.prems(4) al] by blast
      have "rfc815_fill f l ctx (nidx (h # hs)) md = Some (ctx', md')"
        using True gt l c(1) by (simp add: step Let_def)
      moreover have "fills f l ys (h # hs) ctx md ctx' md'"
        using c(2) u(2) True gt same_hdr_trans [of ctx ?c ctx'] unfolding fills_def by auto
      ultimately show ?thesis by blast
    next
      case ff: False
      show ?thesis
      proof (cases "int (unat (hole_last h)) > int (unat f) - 1")
        case True
        let ?c = "store_hole ctx (unat (hole_first h)) ((load_hole (pkt ctx) (unat (hole_first h)))\<lparr>rh_last := f - 1\<rparr>)"
        let ?h = "h\<lparr>hole_last := f - 1\<rparr>"
        note u = shorten_hole_ok [OF Cons.prems(1), where v = "f - 1"]
        have y: "\<forall>y\<in>set (ys @ [?h]). unat (hole_first y) < ?b + 1" using ys(2) by auto
        have "holes_in ?c ((ys @ [?h]) @ hs)" using u(1) by simp
        from Cons.IH [OF this hs y Cons.prems(4) al] obtain ctx' md' where
          c: "rfc815_fill f l ?c (nidx hs) True = Some (ctx', md')" "fills f l (ys @ [?h]) hs ?c True ctx' md'"
          by blast
        have "rfc815_fill f l ctx (nidx (h # hs)) md = Some (ctx', md')"
          using True ff gt l c(1) by (simp add: step Let_def)
        moreover have "fills f l ys (h # hs) ctx md ctx' md'"
          using c(2) u(2) True ff gt same_hdr_trans [of ctx ?c ctx'] unfolding fills_def by (auto simp: desc_bytes_def)
        ultimately show ?thesis by blast
      next
        case False
        have "holes_in ctx ((ys @ [h]) @ hs)" using Cons.prems(1) by simp
        from Cons.IH [OF this hs ys(2) Cons.prems(4) al] obtain ctx' md' where
          c: "rfc815_fill f l ctx (nidx hs) md = Some (ctx', md')" "fills f l (ys @ [h]) hs ctx md ctx' md'"
          by blast
        have "rfc815_fill f l ctx (nidx (h # hs)) md = Some (ctx', md')"
          using False ff gt l c(1) by (simp add: step Let_def)
        moreover have "fills f l ys (h # hs) ctx md ctx' md'"
          using c(2) False ff gt unfolding fills_def by auto
        ultimately show ?thesis by blast
      qed
    qed
  qed
qed



section \<open>Adding a packet\<close>

text \<open>
  The abstract effect: like \<open>spec_add\<close>, but a fragment that does not move the end counts only up
  to the last multiple of 8.
\<close>

definition spec815_add :: "reass_state \<Rightarrow> packet \<Rightarrow> reass_state" where
  "spec815_add st p =
     (case frag_range p of
        None \<Rightarrow> st
      | Some (f, l, mf) \<Rightarrow>
          if \<not> mf \<and> l < snd st then (fst st \<inter> {0..l} - {f..l}, l)
          else (fst st - {f..<(l + 1) div 8 * 8}, snd st))"

text \<open>
  The invariant, for the list of holes \<open>hs\<close>: the descriptors are linked in ascending order, each
  hole ends before a multiple of 8 or at the end of the datagram, and the bytes outside the holes
  are among those that \<open>D\<close> allows.
\<close>

definition inv815 :: "(nat \<Rightarrow> u8 set) \<Rightarrow> rfc815ctx \<Rightarrow> hole list \<Rightarrow> bool" where
  "inv815 D ctx hs \<longleftrightarrow>
     holes_in ctx hs \<and> holes_wf 0 hs \<and> hole_bytes hs \<subseteq> {0..unat (rfc815_last ctx)} \<and>
     (\<forall>h\<in>set hs. (unat (hole_last h) + 1) mod 8 = 0 \<or> hole_last h = rfc815_last ctx) \<and>
     (\<forall>i \<le> unat (rfc815_last ctx). i \<notin> hole_bytes hs \<longrightarrow> pkt ctx i \<in> D i)"

text \<open>Where a descriptor overlaps bytes up to the end, these are bytes of its hole.\<close>

lemma desc_bytes_sub:
  assumes "holes_wf lo hs" "\<forall>h\<in>set hs. aligned (unat (hole_first h))"
    and "\<forall>h\<in>set hs. (unat (hole_last h) + 1) mod 8 = 0 \<or> hole_last h = m"
    and "a \<in> desc_bytes hs" "a \<le> unat m"
  shows "a \<in> hole_bytes hs"
  using assms
proof (induction hs arbitrary: lo)
  case (Cons h hs)
  show ?case
  proof (cases "a \<in> desc_bytes hs")
    case True
    then show ?thesis using Cons by auto
  next
    case False
    then have a: "unat (hole_first h) \<le> a" "a < unat (hole_first h) + 8" using Cons.prems(4) by auto
    have f: "unat (hole_first h) mod 8 = 0" "unat (hole_first h) \<le> unat (hole_last h)"
      using Cons.prems(1,2) by (auto simp: aligned_def)
    have "(unat (hole_last h) + 1) mod 8 = 0 \<or> hole_last h = m" using Cons.prems(3) by simp
    then have "a \<le> unat (hole_last h)"
    proof
      assume l: "(unat (hole_last h) + 1) mod 8 = 0"
      from f(1) obtain j where j: "unat (hole_first h) = 8 * j" by (auto elim: dvdE simp: mod_eq_0_iff_dvd)
      from l obtain k where k: "unat (hole_last h) + 1 = 8 * k" by (auto elim: dvdE simp: mod_eq_0_iff_dvd)
      have "j < k" using f(2) j k by linarith
      then show ?thesis using a(2) j k by linarith
    qed (use Cons.prems(5) in simp)
    then show ?thesis using a(1) by simp
  qed
qed (simp add: desc_bytes_def)

lemma trim_holes_mem:
  "h \<in> set (trim_holes m hs) \<Longrightarrow> \<exists>g\<in>set hs. hole_first h = hole_first g \<and> (hole_last h = hole_last g \<or> hole_last h = m)"
  by (induction hs) (auto split: if_splits)

lemma fill_holes_mem:
  assumes "h \<in> set (fill_holes f l hs)"
  shows "\<exists>g\<in>set hs. (hole_first h = hole_first g \<or> hole_first h = l + 1 \<and> l < hole_last g) \<and>
    (hole_last h = hole_last g \<or> hole_last h = f - 1 \<and> hole_first g < f)"
  using assms
proof (induction hs)
  case (Cons g hs)
  then show ?case by (auto simp: not_le split: if_splits)
qed simp

text \<open>The end of a shortened hole is again before a multiple of 8.\<close>

lemma pred_aligned: "y < (f :: u16) \<Longrightarrow> unat f mod 8 = 0 \<Longrightarrow> (unat (f - 1) + 1) mod 8 = 0"
  by (simp add: unat_pred) (metis Suc_pred gr_implies_not0 neq0_conv word_less_nat_alt)

lemma hole_first_in: "holes_wf lo hs \<Longrightarrow> h \<in> set hs \<Longrightarrow> unat (hole_first h) \<in> hole_bytes hs"
  by (induction hs arbitrary: lo) fastforce+

lemma holes_wf_last: "holes_wf lo hs \<Longrightarrow> h \<in> set hs \<Longrightarrow> unat (hole_last h) \<in> hole_bytes hs"
  by (induction hs arbitrary: lo) fastforce+



lemma load_hole_cong:
  assumes "\<And>a. i \<le> a \<Longrightarrow> a < i + 8 \<Longrightarrow> m a = m' a"
  shows "load_hole m i = load_hole m' i"
  using assms by (simp add: load_hole_def hdr_get16h_def split: endian.split)

lemma holes_in_cong:
  assumes "holes_in ctx hs" "\<And>a. a \<in> desc_bytes hs \<Longrightarrow> m a = pkt ctx a"
  shows "holes_in (ctx\<lparr>pkt := m\<rparr>) hs"
proof -
  have l: "load_hole m (unat (hole_first h)) = load_hole (pkt ctx) (unat (hole_first h))" if "h \<in> set hs" for h
    by (rule load_hole_cong) (use assms(2) that in \<open>auto simp: desc_bytes_def\<close>)
  have "hole_store (ctx\<lparr>pkt := m\<rparr>) a = hole_store ctx a" if a: "a \<in> set (65536 # map addr hs)" for a
  proof (cases "a = 65536")
    case False
    then obtain h where "h \<in> set hs" "a = addr h" using a by auto
    then show ?thesis using l [of h] False by (simp add: hole_store_def addr_def)
  qed (simp add: hole_store_def)
  then have "dll (hole_store (ctx\<lparr>pkt := m\<rparr>)) 65536 (map addr hs) = dll (hole_store ctx) 65536 (map addr hs)"
    by (rule dll_cong)
  then show ?thesis using assms(1) l unfolding holes_in_def by (simp add: hole_range_def)
qed

lemma fill_and_copy_ok:
  fixes f l :: u16
  assumes "inv815 D ctx hs" "unat f mod 8 = 0" "unat f \<le> unat l + 1"
    and "(unat l + 1) mod 8 = 0 \<or> l = rfc815_last ctx"
    and "\<And>i. unat f \<le> i \<Longrightarrow> i \<le> unat l \<Longrightarrow> d (pay + (i - unat f)) \<in> D i"
  defines "copy \<equiv> \<lambda>c. \<lambda>a. if unat f \<le> a \<and> a < unat f + (unat l + 1 - unat f) then d (pay + (a - unat f)) else pkt c a"
  shows "\<exists>ctx' md. rfc815_fill f l ctx (first_hole ctx) False = Some (ctx', md) \<and> same_hdr ctx ctx' \<and>
    inv815 D (if md then ctx'\<lparr>pkt := copy ctx'\<rparr> else ctx') (fill_holes f l hs)"
proof -
  let ?m = "rfc815_last ctx" and ?hs = "fill_holes f l hs"
  have i: "holes_in ctx hs" "holes_wf 0 hs" "hole_bytes hs \<subseteq> {0..unat ?m}"
    "\<forall>h\<in>set hs. (unat (hole_last h) + 1) mod 8 = 0 \<or> hole_last h = ?m"
    "\<forall>i \<le> unat ?m. i \<notin> hole_bytes hs \<longrightarrow> pkt ctx i \<in> D i"
    using assms(1) by (auto simp: inv815_def)
  have "\<forall>h\<in>set hs. unat l < unat (hole_last h) \<longrightarrow> (unat l + 1) mod 8 = 0"
    using assms(4) i(3) holes_wf_last [OF i(2)] by fastforce
  with rfc815_fill_ok [of ctx "[]" hs 0 f l False] i(1,2) assms(3)
  obtain ctx' md where c: "rfc815_fill f l ctx (nidx hs) False = Some (ctx', md)" "fills f l [] hs ctx False ctx' md"
    by auto
  have h': "holes_in ctx' ?hs" "same_hdr ctx ctx'" "md \<or> ?hs = hs"
    "\<And>a. a \<notin> desc_bytes hs \<Longrightarrow> a \<notin> desc_bytes ?hs \<Longrightarrow> pkt ctx' a = pkt ctx a"
    using c(2) by (auto simp: fills_def)
  have m': "rfc815_last ctx' = ?m" using h'(2) by (simp add: same_hdr_def)
  note w = fill_holes_ok [OF i(2) assms(3)]
  have ends: "\<forall>h\<in>set ?hs. (unat (hole_last h) + 1) mod 8 = 0 \<or> hole_last h = ?m"
  proof
    fix h assume "h \<in> set ?hs"
    from fill_holes_mem [OF this] obtain g where "g \<in> set hs"
      "hole_last h = hole_last g \<or> hole_last h = f - 1 \<and> hole_first g < f" by blast
    then show "(unat (hole_last h) + 1) mod 8 = 0 \<or> hole_last h = ?m"
      using i(4) pred_aligned [OF _ assms(2)] by auto
  qed
  have al: "\<forall>h\<in>set ?hs. aligned (unat (hole_first h))" "\<forall>h\<in>set hs. aligned (unat (hole_first h))"
    using h'(1) i(1) by (auto simp: holes_in_def)
  have nd: "a \<notin> desc_bytes hs" if "a \<notin> hole_bytes hs" "a \<le> unat ?m" for a
    using desc_bytes_sub [OF i(2) al(2) i(4)] that by blast
  have nd': "a \<notin> desc_bytes ?hs" if "a \<notin> hole_bytes ?hs" "a \<le> unat ?m" for a
    using desc_bytes_sub [OF _ al(1) ends] w that by blast
  have apart: "a < unat f \<or> unat l < a" if "a \<in> desc_bytes ?hs" for a
  proof -
    from that obtain h where h: "h \<in> set ?hs" "unat (hole_first h) \<le> a" "a < unat (hole_first h) + 8"
      by (auto simp: desc_bytes_def)
    have "unat (hole_first h) \<in> hole_bytes ?hs" using hole_first_in [of 0 ?hs h] w h(1) by blast
    then have "unat (hole_first h) < unat f \<or> unat l < unat (hole_first h)" using w by auto
    moreover have "unat (hole_first h) mod 8 = 0" using al(1) h(1) by (auto simp: aligned_def)
    then have "unat (hole_first h) < unat f \<Longrightarrow> unat (hole_first h) + 8 \<le> unat f"
      using assms(2) by (auto simp: mod_eq_0_iff_dvd elim!: dvdE)
    ultimately show ?thesis using h(2,3) by auto
  qed
  let ?c = "if md then ctx'\<lparr>pkt := copy ctx'\<rparr> else ctx'"
  have "holes_in ?c ?hs"
  proof (cases md)
    case True
    have "copy ctx' a = pkt ctx' a" if "a \<in> desc_bytes ?hs" for a using apart [OF that] by (auto simp: copy_def)
    then show ?thesis using holes_in_cong [OF h'(1)] True by simp
  qed (use h'(1) in simp)
  moreover have "pkt ?c a \<in> D a" if a: "a \<le> unat ?m" "a \<notin> hole_bytes ?hs" for a
  proof (cases "md \<and> unat f \<le> a \<and> a \<le> unat l")
    case True
    then show ?thesis using assms(5) [of a] by (auto simp: copy_def)
  next
    case False
    then have "a \<notin> hole_bytes hs" using a(2) w h'(3) by auto
    then have "pkt ctx' a \<in> D a" using h'(4) [OF nd nd'] i(5) a by auto
    then show ?thesis using False by (auto simp: copy_def)
  qed
  ultimately have "inv815 D ?c ?hs"
    using w i(3) ends m' by (auto simp: inv815_def)
  moreover have "first_hole ctx = nidx hs" using holes_in_ends(1) [OF i(1)] .
  ultimately show ?thesis using c(1) h'(2) by auto
qed



lemma inv815_hdr [simp]:
  "inv815 D (ctx\<lparr>hdr_len := n, pkt_header := x\<rparr>) hs = inv815 D ctx hs"
proof -
  let ?c = "ctx\<lparr>hdr_len := n, pkt_header := x\<rparr>"
  have "hole_store ?c = hole_store ctx" "hole_range ?c = hole_range ctx"
    by (auto simp: hole_store_def hole_range_def)
  then show ?thesis by (simp add: inv815_def holes_in_def)
qed

lemma trim_inv815:
  assumes "inv815 D ctx hs" "dl < rfc815_last ctx"
  obtains ctx' where "rfc815_trim (ctx\<lparr>rfc815_last := dl\<rparr>) (first_hole ctx) = Some ctx'"
    "inv815 D ctx' (trim_holes dl hs)" "same_hdr (ctx\<lparr>rfc815_last := dl\<rparr>) ctx'"
proof -
  let ?c = "ctx\<lparr>rfc815_last := dl\<rparr>" and ?m = "rfc815_last ctx" and ?hs = "trim_holes dl hs"
  have i: "holes_in ctx hs" "holes_wf 0 hs" "hole_bytes hs \<subseteq> {0..unat ?m}"
    "\<forall>h\<in>set hs. (unat (hole_last h) + 1) mod 8 = 0 \<or> hole_last h = ?m"
    "\<forall>i \<le> unat ?m. i \<notin> hole_bytes hs \<longrightarrow> pkt ctx i \<in> D i"
    using assms(1) by (auto simp: inv815_def)
  have "hole_store ?c = hole_store ctx" "hole_range ?c = hole_range ctx"
    by (auto simp: hole_store_def hole_range_def)
  then have c: "holes_in ?c ([] @ hs)" using i(1) by (simp add: holes_in_def)
  obtain ctx' where t: "rfc815_trim ?c (nidx hs) = Some ctx'" "holes_in ctx' ?hs" "same_hdr ?c ctx'"
    "\<And>a. a \<notin> desc_bytes hs \<Longrightarrow> pkt ctx' a = pkt ctx a"
    using rfc815_trim_ok [OF c] by auto
  have m': "rfc815_last ctx' = dl" using t(3) by (simp add: same_hdr_def)
  note w = trim_holes_ok [OF i(2), of dl]
  have lt: "unat dl < unat ?m" using assms(2) by (simp add: word_less_nat_alt)
  have ends: "(unat (hole_last h) + 1) mod 8 = 0 \<or> hole_last h = dl" if h: "h \<in> set ?hs" for h
  proof -
    obtain g where g: "g \<in> set hs" "hole_last h = hole_last g \<or> hole_last h = dl"
      using trim_holes_mem [OF h] by blast
    have "unat (hole_last h) \<le> unat dl" using holes_wf_last [OF w(1) h] w(2) by auto
    then have "hole_last h \<noteq> ?m" using lt by auto
    then show ?thesis using g i(4) by auto
  qed
  have al: "\<forall>h\<in>set hs. aligned (unat (hole_first h))" using i(1) by (auto simp: holes_in_def)
  have "pkt ctx' a \<in> D a" if "a \<le> unat dl" "a \<notin> hole_bytes ?hs" for a
  proof -
    have a: "a \<notin> hole_bytes hs" "a \<le> unat ?m" using that w(2) lt by auto
    then have "a \<notin> desc_bytes hs" using desc_bytes_sub [OF i(2) al i(4)] by blast
    then show ?thesis using t(4) i(5) a by auto
  qed
  then have "inv815 D ctx' ?hs" using t(2) w ends m' by (auto simp: inv815_def)
  moreover have "first_hole ctx = nidx hs" using holes_in_ends(1) [OF i(1)] .
  ultimately show ?thesis using that t(1,3) by auto
qed

text \<open>The header of the datagram is that of the first packet that passes the length checks.\<close>

definition has_hdr :: "packet \<Rightarrow> bool" where
  "has_hdr p \<longleftrightarrow> \<not> (sz p < 34 \<or> ip_total_len (data p) 14 \<le> ucast (ip_hdr_len (data p) 14) \<or>
     unat (ip_total_len (data p) 14) + 14 > sz p)"

definition save_hdr :: "rfc815ctx \<Rightarrow> packet \<Rightarrow> rfc815ctx" where
  "save_hdr ctx p =
     (if has_hdr p \<and> hdr_len ctx = 0
      then (let n = 14 + unat (ip_hdr_len (data p) 14)
            in ctx\<lparr>hdr_len := n, pkt_header := (\<lambda>a. if a < n then data p a else pkt_header ctx a)\<rparr>)
      else ctx)"

lemma save_hdr_inv [simp]: "inv815 D (save_hdr ctx p) hs = inv815 D ctx hs"
  "rfc815_last (save_hdr ctx p) = rfc815_last ctx" "first_hole (save_hdr ctx p) = first_hole ctx"
  by (simp_all add: save_hdr_def Let_def)

lemma rfc815ctx_add_None:
  assumes "frag_range p = None"
  shows "rfc815ctx_add ctx p = Some (save_hdr ctx p)"
  using assms unfolding frag_range_None_iff
  by (cases "has_hdr p") (auto simp: has_hdr_def rfc815ctx_add_def save_hdr_def ether_const_payload_def Let_def)

lemma rfc815ctx_add_Some:
  assumes "frag_range p = Some (f, l, mf)"
  shows "rfc815ctx_add ctx p =
    (if \<not> mf \<and> l < unat (rfc815_last ctx)
     then do { c \<leftarrow> rfc815_trim ((save_hdr ctx p)\<lparr>rfc815_last := data_last_of p\<rparr>) (first_hole ctx);
               rfc815_fill_copy (data p) 14 (ip_frag_off (data p) 14) (data_last_of p) c }
     else if l < 7 then Some (save_hdr ctx p)
     else rfc815_fill_copy (data p) 14 (ip_frag_off (data p) 14) (of_nat ((l + 1) div 8 * 8 - 1)) (save_hdr ctx p))"
proof -
  note b = frag_range_bounds [OF assms(1)] and dl = unat_data_last [OF assms(1)]
  have n: "frag_range p \<noteq> None" using assms(1) by simp
  have h: "has_hdr p" using n unfolding frag_range_None_iff has_hdr_def by blast
  have lt: "data_last_of p < rfc815_last ctx \<longleftrightarrow> l < unat (rfc815_last ctx)" "data_last_of p < 7 \<longleftrightarrow> l < 7"
    using dl by (simp_all add: word_less_nat_alt)
  have sv: "save_hdr ctx p = (if hdr_len ctx = 0
      then ctx\<lparr>hdr_len := 14 + unat (ip_hdr_len (data p) 14),
        pkt_header := (\<lambda>a. if a < 14 + unat (ip_hdr_len (data p) 14) then data p a else pkt_header ctx a)\<rparr> else ctx)"
    using h by (simp add: save_hdr_def Let_def)
  show ?thesis
    using n b(7) dl lt h unfolding frag_range_None_iff
    by (cases mf; cases "l < unat (rfc815_last ctx)")
      (simp_all add: rfc815ctx_add_def ether_const_payload_def Let_def sv)
qed



lemma rfc815_fill_copy_ok:
  fixes f l :: u16
  assumes "inv815 D ctx hs" "unat f mod 8 = 0" "unat f \<le> unat l + 1"
    and "(unat l + 1) mod 8 = 0 \<or> l = rfc815_last ctx"
    and "\<And>i. unat f \<le> i \<Longrightarrow> i \<le> unat l \<Longrightarrow> d (ip_const_payload d ip + (i - unat f)) \<in> D i"
  shows "\<exists>ctx'. rfc815_fill_copy d ip f l ctx = Some ctx' \<and> same_hdr ctx ctx' \<and> inv815 D ctx' (fill_holes f l hs)"
proof -
  obtain c md where "rfc815_fill f l ctx (first_hole ctx) False = Some (c, md)" "same_hdr ctx c"
    "inv815 D (if md then c\<lparr>pkt := \<lambda>a. if unat f \<le> a \<and> a < unat f + (unat l + 1 - unat f)
       then d (ip_const_payload d ip + (a - unat f)) else pkt c a\<rparr> else c) (fill_holes f l hs)"
    using fill_and_copy_ok [OF assms] by blast
  then show ?thesis by (cases md) (auto simp: rfc815_fill_copy_def same_hdr_def)
qed

lemma rfc815ctx_add_ok:
  assumes "inv815 D ctx hs"
    and "\<And>i. i \<in> covered {p} \<Longrightarrow> frag_byte p i \<in> D i"
  shows "\<exists>ctx' hs'. rfc815ctx_add ctx p = Some ctx' \<and> inv815 D ctx' hs' \<and>
    hdr_len ctx' = hdr_len (save_hdr ctx p) \<and> pkt_header ctx' = pkt_header (save_hdr ctx p) \<and>
    (hole_bytes hs', unat (rfc815_last ctx')) = spec815_add (hole_bytes hs, unat (rfc815_last ctx)) p"
proof (cases "frag_range p")
  case None
  then show ?thesis using assms(1) by (intro exI [of _ "save_hdr ctx p"] exI [of _ hs])
      (simp add: rfc815ctx_add_None spec815_add_def)
next
  case (Some r)
  obtain f l mf where fr: "frag_range p = Some (f, l, mf)" using Some by (cases r) auto
  note b = frag_range_bounds [OF fr] and dl = unat_data_last [OF fr]
  have f8: "unat (ip_frag_off (data p) 14) mod 8 = 0" by (rule ip_frag_off_mod8)
  have D: "data p (ip_const_payload (data p) 14 + (i - unat (ip_frag_off (data p) 14))) \<in> D i" if "f \<le> i" "i \<le> l" for i
    using assms(2) [of i] coveredI [of p "{p}", OF _ fr that] by (simp add: frag_byte_def ip_const_payload_def)
  let ?m = "rfc815_last ctx" and ?f = "ip_frag_off (data p) 14"
  have wf: "holes_wf 0 hs" using assms(1) by (simp add: inv815_def)
  show ?thesis
  proof (cases "\<not> mf \<and> l < unat ?m")
    case True
    have sv: "inv815 D (save_hdr ctx p) hs" "data_last_of p < rfc815_last (save_hdr ctx p)"
      using assms(1) True dl by (simp_all add: word_less_nat_alt)
    obtain c where c: "rfc815_trim ((save_hdr ctx p)\<lparr>rfc815_last := data_last_of p\<rparr>) (first_hole ctx) = Some c"
      "inv815 D c (trim_holes (data_last_of p) hs)" "same_hdr ((save_hdr ctx p)\<lparr>rfc815_last := data_last_of p\<rparr>) c"
      using trim_inv815 [OF sv] by auto
    have m: "rfc815_last c = data_last_of p" using c(3) by (simp add: same_hdr_def)
    obtain c' where c': "rfc815_fill_copy (data p) 14 ?f (data_last_of p) c = Some c'" "same_hdr c c'"
      "inv815 D c' (fill_holes ?f (data_last_of p) (trim_holes (data_last_of p) hs))"
      using rfc815_fill_copy_ok [OF c(2) f8, of "data_last_of p" "data p" 14] D b dl m by auto
    have t: "holes_wf 0 (trim_holes (data_last_of p) hs)" "hole_bytes (trim_holes (data_last_of p) hs) = hole_bytes hs \<inter> {0..l}"
      using trim_holes_ok [OF wf, of "data_last_of p"] dl by auto
    have "hole_bytes (fill_holes ?f (data_last_of p) (trim_holes (data_last_of p) hs)) = hole_bytes hs \<inter> {0..l} - {f..l}"
      using fill_holes_ok [OF t(1), of ?f "data_last_of p"] t(2) b dl by simp
    moreover have "unat (rfc815_last c') = l" using c'(2) m dl by (simp add: same_hdr_def)
    moreover have "hdr_len c' = hdr_len (save_hdr ctx p)" "pkt_header c' = pkt_header (save_hdr ctx p)"
      using c(3) c'(2) by (simp_all add: same_hdr_def)
    ultimately show ?thesis
      using c'(1,3) c(1) True by (auto simp: rfc815ctx_add_Some [OF fr] spec815_add_def fr)
  next
    case False
    show ?thesis
    proof (cases "l < 7")
      case True
      then show ?thesis using assms(1) False
        by (intro exI [of _ "save_hdr ctx p"] exI [of _ hs])
          (auto simp: rfc815ctx_add_Some [OF fr] spec815_add_def fr)
    next
      case l7: False
      define e where "e = (l + 1) div 8 * 8"
      have e: "8 \<le> e" "e \<le> l + 1" "e mod 8 = 0" "e \<le> 65536" using l7 b(2) by (auto simp: e_def)
      have fe: "f \<le> e"
      proof -
        have "f div 8 * 8 = f" using f8 b(3) by auto
        then show ?thesis using b(1) div_le_mono [of f "l + 1" 8] unfolding e_def by (metis le_SucI mult_le_mono1 Suc_eq_plus1)
      qed
      define w :: u16 where "w = of_nat (e - 1)"
      have w: "unat w = e - 1" 
      proof -
        have "e - 1 < 2 ^ LENGTH(16)" using e by simp
        then show ?thesis unfolding w_def by (simp only: unsigned_of_nat take_bit_nat_eq_self of_nat_id)
      qed
      have sv: "inv815 D (save_hdr ctx p) hs" using assms(1) by simp
      have w8: "(unat w + 1) mod 8 = 0" using w e by simp
      obtain c' where c': "rfc815_fill_copy (data p) 14 ?f w (save_hdr ctx p) = Some c'"
        "same_hdr (save_hdr ctx p) c'" "inv815 D c' (fill_holes ?f w hs)"
        using rfc815_fill_copy_ok [OF sv f8, of w "data p" 14] D b w w8 e fe by auto
      have "{unat ?f..unat w} = {f..<e}" using w e(1) b(3) by auto
      then have "hole_bytes (fill_holes ?f w hs) = hole_bytes hs - {f..<e}"
        using fill_holes_ok [OF wf, of ?f w] b(3) w e(1) fe by simp
      moreover have "unat (rfc815_last c') = unat ?m" "hdr_len c' = hdr_len (save_hdr ctx p)"
        "pkt_header c' = pkt_header (save_hdr ctx p)" using c'(2) by (simp_all add: same_hdr_def)
      moreover have "rfc815ctx_add ctx p = Some c'"
        unfolding rfc815ctx_add_Some [OF fr] e_def [symmetric] w_def [symmetric] using c'(1) False l7 by auto
      moreover have "spec815_add (hole_bytes hs, unat ?m) p = (hole_bytes hs - {f..<e}, unat ?m)"
        unfolding spec815_add_def fr e_def using False by auto
      ultimately show ?thesis using c'(3) by auto
    qed
  qed
qed



section \<open>Sequences of packets\<close>

definition rfc815_adds :: "rfc815ctx \<Rightarrow> packet list \<Rightarrow> rfc815ctx option" where
  "rfc815_adds ctx ps = foldl (\<lambda>c p. Option.bind c (\<lambda>c. rfc815ctx_add c p)) (Some ctx) ps"

lemma rfc815_adds_Cons:
  "rfc815ctx_add ctx p = Some c \<Longrightarrow> rfc815_adds ctx (p # ps) = rfc815_adds c ps"
  by (simp add: rfc815_adds_def)

lemma inv815_init: "inv815 D (rfc815ctx_init ctx) [\<lparr>hole_first = 0, hole_last = 65535\<rparr>]"
proof -
  let ?c = "rfc815ctx_init ctx"
  have l: "load_hole (pkt ?c) 0 = \<lparr>rh_first = 0, rh_last = 65535, next_hole = 65535, prev_hole = 65535\<rparr>"
    by (simp add: rfc815ctx_init_def rfc815ctx_init_fast_def Let_def)
  have f: "first_hole ?c = 0" "last_hole ?c = 0" "rfc815_last ?c = 65535"
    by (simp_all add: rfc815ctx_init_def rfc815ctx_init_fast_def Let_def)
  have "hole_store ?c 65536 = \<lparr>prev = 1, next = 1\<rparr>" "hole_store ?c 1 = \<lparr>prev = 65536, next = 65536\<rparr>"
    using l f by (simp_all add: hole_store_def aligned_def)
  then have "holes_in ?c [\<lparr>hole_first = 0, hole_last = 65535\<rparr>]"
    using l by (simp add: holes_in_def dll_def addr_def aligned_def hole_range_def)
  then show ?thesis using f by (auto simp: inv815_def)
qed

text \<open>The header that the context keeps, after the packets \<open>ps\<close>.\<close>

definition keeps_hdr :: "rfc815ctx \<Rightarrow> packet list \<Rightarrow> bool" where
  "keeps_hdr ctx ps \<longleftrightarrow>
     (case filter has_hdr ps of
        [] \<Rightarrow> hdr_len ctx = 0
      | q # _ \<Rightarrow> hdr_len ctx = 14 + unat (ip_hdr_len (data q) 14) \<and> (\<forall>a < hdr_len ctx. pkt_header ctx a = data q a))"

lemma keeps_hdr_snoc:
  assumes "keeps_hdr ctx ps" "hdr_len c = hdr_len (save_hdr ctx p)" "pkt_header c = pkt_header (save_hdr ctx p)"
  shows "keeps_hdr c (ps @ [p])"
  using assms by (cases "filter has_hdr ps") (auto simp: keeps_hdr_def save_hdr_def Let_def)

lemma rfc815_adds_ok:
  assumes "\<forall>p\<in>set ps. \<forall>i\<in>covered {p}. frag_byte p i \<in> D i"
  shows "\<exists>ctx hs. rfc815_adds (rfc815ctx_init c0) ps = Some ctx \<and> inv815 D ctx hs \<and> keeps_hdr ctx ps \<and>
    (hole_bytes hs, unat (rfc815_last ctx)) = foldl spec815_add spec_init ps"
  using assms
proof (induction ps rule: rev_induct)
  case Nil
  have "hdr_len (rfc815ctx_init c0) = 0" "rfc815_last (rfc815ctx_init c0) = 65535"
    by (simp_all add: rfc815ctx_init_def rfc815ctx_init_fast_def Let_def)
  then show ?case using inv815_init [of D c0]
    by (intro exI [of _ "rfc815ctx_init c0"] exI [of _ "[\<lparr>hole_first = 0, hole_last = 65535\<rparr>]"])
      (simp add: rfc815_adds_def keeps_hdr_def spec_init_def)
next
  case (snoc p ps)
  then obtain ctx hs where c: "rfc815_adds (rfc815ctx_init c0) ps = Some ctx" "inv815 D ctx hs" "keeps_hdr ctx ps"
    "(hole_bytes hs, unat (rfc815_last ctx)) = foldl spec815_add spec_init ps" by auto
  from rfc815ctx_add_ok [OF c(2), of p] snoc.prems obtain c' hs' where
    c': "rfc815ctx_add ctx p = Some c'" "inv815 D c' hs'" "hdr_len c' = hdr_len (save_hdr ctx p)"
    "pkt_header c' = pkt_header (save_hdr ctx p)"
    "(hole_bytes hs', unat (rfc815_last c')) = spec815_add (hole_bytes hs, unat (rfc815_last ctx)) p" by auto
  have "rfc815_adds (rfc815ctx_init c0) (ps @ [p]) = Some c'"
    using c(1) c'(1) by (simp add: rfc815_adds_def)
  then show ?case using c'(2,5) c(4) keeps_hdr_snoc [OF c(3) c'(3,4)] by auto
qed

lemma rfc815ctx_complete_inv:
  assumes "inv815 D ctx hs"
  shows "rfc815ctx_complete ctx = Some (hole_bytes hs = {})"
proof -
  have h: "holes_in ctx hs" "holes_wf 0 hs" using assms by (auto simp: inv815_def)
  have "hole_first g \<noteq> 65535" if "g \<in> set hs" for g
    using h(1) that by (auto simp: holes_in_def aligned_def)
  then have "nidx hs = 65535 \<longleftrightarrow> hs = []" "pidx hs = 65535 \<longleftrightarrow> hs = []"
    by (auto simp: nidx_def pidx_def split: list.splits)
  then show ?thesis using holes_in_ends [OF h(1)] holes_wf_empty [OF h(2)] by (simp add: rfc815ctx_complete_def)
qed

text \<open>The rounding only keeps bytes missing; it never matters when the lengths are multiples of 8.\<close>

lemma spec815_superset:
  "\<exists>M N m. foldl spec_add spec_init ps = (M, m) \<and> foldl spec815_add spec_init ps = (N, m) \<and> M \<subseteq> N \<and> N \<subseteq> {0..m}"
proof (induction ps rule: rev_induct)
  case (snoc p ps)
  then obtain M N m where ih: "foldl spec_add spec_init ps = (M, m)" "foldl spec815_add spec_init ps = (N, m)"
    "M \<subseteq> N" "N \<subseteq> {0..m}" by auto
  show ?case
  proof (cases "frag_range p")
    case None
    then have "spec_add (M, m) p = (M, m)" "spec815_add (N, m) p = (N, m)" by (simp_all add: spec_add_def spec815_add_def)
    then show ?thesis using ih by simp
  next
    case (Some r)
    obtain f l mf where fr: "frag_range p = Some (f, l, mf)" using Some by (cases r) auto
    have "(l + 1) div 8 * 8 \<le> l + 1" by simp
    then have sub: "{f..<(l + 1) div 8 * 8} \<subseteq> {f..l}" by auto
    show ?thesis
    proof (cases "\<not> mf \<and> l < m")
      case True
      then have "spec_add (M, m) p = (M \<inter> {0..l} - {f..l}, l)" "spec815_add (N, m) p = (N \<inter> {0..l} - {f..l}, l)"
        using fr by (auto simp: spec_add_def spec815_add_def)
      then show ?thesis using ih by auto
    next
      case False
      then have "spec_add (M, m) p = (M \<inter> {0..m} - {f..l}, m)" using fr by (auto simp: spec_add_def)
      moreover have "spec815_add (N, m) p = (N - {f..<(l + 1) div 8 * 8}, m)"
        using fr False by (auto simp: spec815_add_def)
      moreover have "M \<inter> {0..m} - {f..l} \<subseteq> N - {f..<(l + 1) div 8 * 8}" using sub ih(3) by blast
      ultimately show ?thesis using ih by auto
    qed
  qed
qed (simp add: spec_init_def)

definition tail_done :: "reass_state \<Rightarrow> bool" where
  "tail_done st \<longleftrightarrow> fst st \<inter> {(snd st + 1) div 8 * 8..snd st} = {}"

lemma spec815_eq:
  assumes "\<forall>p\<in>set ps. \<forall>f l. frag_range p = Some (f, l, True) \<longrightarrow> (l + 1) mod 8 = 0"
  shows "foldl spec815_add spec_init ps = foldl spec_add spec_init ps \<and> tail_done (foldl spec_add spec_init ps)"
  using assms
proof (induction ps rule: rev_induct)
  case Nil
  then show ?case by (simp add: spec_init_def tail_done_def)
next
  case (snoc p ps)
  let ?s = "foldl spec_add spec_init ps"
  obtain M m where s: "?s = (M, m)" by (cases ?s)
  have ih: "foldl spec815_add spec_init ps = (M, m)" "M \<inter> {(m + 1) div 8 * 8..m} = {}"
    using snoc s by (auto simp: tail_done_def)
  have sub: "M \<subseteq> {0..m}" using spec815_superset [of ps] ih(1) s by auto
  show ?case
  proof (cases "frag_range p")
    case None
    then have "spec_add (M, m) p = (M, m)" "spec815_add (M, m) p = (M, m)" by (simp_all add: spec_add_def spec815_add_def)
    then show ?thesis using ih s by (simp add: tail_done_def)
  next
    case (Some r)
    obtain f l mf where fr: "frag_range p = Some (f, l, mf)" using Some by (cases r) auto
    note b = frag_range_bounds [OF fr]
    have f8: "f mod 8 = 0" using b(3) ip_frag_off_mod8 by simp
    show ?thesis
    proof (cases "\<not> mf \<and> l < m")
      case True
      have "f \<le> (l + 1) div 8 * 8"
        using b(1) f8 div_le_mono [of f "l + 1" 8] by (auto simp: mod_eq_0_iff_dvd elim!: dvdE)
      then have "{(l + 1) div 8 * 8..l} \<subseteq> {f..l}" by auto
      moreover have "spec_add (M, m) p = (M \<inter> {0..l} - {f..l}, l)" "spec815_add (M, m) p = (M \<inter> {0..l} - {f..l}, l)"
        using True fr by (auto simp: spec_add_def spec815_add_def)
      ultimately show ?thesis using ih s by (auto simp: tail_done_def)
    next
      case False
      have "M - {f..<(l + 1) div 8 * 8} = M \<inter> {0..m} - {f..l}"
      proof (cases mf)
        case True
        then have "(l + 1) mod 8 = 0" using snoc.prems fr by auto
        then have "(l + 1) div 8 * 8 = l + 1" by auto
        then show ?thesis using sub by auto
      next
        case nmf: False
        then have "(m + 1) div 8 * 8 \<le> (l + 1) div 8 * 8" using False by (simp add: div_le_mono)
        moreover have "(l + 1) div 8 * 8 \<le> l + 1" by simp
        ultimately show ?thesis using sub ih(2) by fastforce
      qed
      moreover have "spec_add (M, m) p = (M \<inter> {0..m} - {f..l}, m)" using False fr by (auto simp: spec_add_def)
      moreover have "spec815_add (M, m) p = (M - {f..<(l + 1) div 8 * 8}, m)"
        using False fr by (auto simp: spec815_add_def)
      ultimately show ?thesis using ih s by (auto simp: tail_done_def)
    qed
  qed
qed

section \<open>Building the datagram\<close>

definition carried :: "packet set \<Rightarrow> nat \<Rightarrow> u8 set" where
  "carried P i = {frag_byte p i | p. p \<in> P \<and> i \<in> covered {p}}"

lemma rfc815_adds_carried:
  obtains ctx hs where "rfc815_adds (rfc815ctx_init c0) ps = Some ctx" "inv815 (carried (set ps)) ctx hs"
    "keeps_hdr ctx ps" "(hole_bytes hs, unat (rfc815_last ctx)) = foldl spec815_add spec_init ps"
proof -
  have "\<forall>p\<in>set ps. \<forall>i\<in>covered {p}. frag_byte p i \<in> carried (set ps) i" by (auto simp: carried_def)
  from rfc815_adds_ok [OF this, of c0] show ?thesis using that by blast
qed

lemma rfc815_missing:
  assumes "(hole_bytes hs, unat m) = foldl spec815_add spec_init ps"
  shows "unat m = Min (limits (set ps))" "{0..unat m} - covered (set ps) \<subseteq> hole_bytes hs"
  using spec815_superset [of ps] assms [symmetric] by (auto simp: spec_adds)

lemma has_hdr_frag_range: "frag_range p = Some r \<Longrightarrow> has_hdr p"
  by (auto simp: frag_range_def has_hdr_def Let_def word_le_nat_alt unsigned_ucast_eq take_bit_nat_eq_self split: if_splits)

lemma keeps_hdr_Cons:
  assumes "keeps_hdr ctx ps" "0 \<in> covered (set ps)"
  obtains q where "q \<in> set ps" "has_hdr q" "filter has_hdr ps = q # tl (filter has_hdr ps)"
    "hdr_len ctx = 14 + unat (ip_hdr_len (data q) 14)" "\<And>a. a < hdr_len ctx \<Longrightarrow> pkt_header ctx a = data q a"
proof (cases "filter has_hdr ps")
  case Nil
  then have "covered (set ps) = {}" using has_hdr_frag_range by (fastforce simp: covered_def filter_empty_conv)
  then show ?thesis using assms(2) by simp
next
  case (Cons q qs)
  have "q \<in> set (filter has_hdr ps)" unfolding Cons by simp
  then have "q \<in> set ps" "has_hdr q" by simp_all
  then show ?thesis using Cons assms(1) by (intro that [of q]) (auto simp: keeps_hdr_def)
qed

lemma rfc815ctx_reassemble_ok:
  assumes inv: "inv815 (carried P) ctx []" and ihl: "20 \<le> unat (ip_hdr_len (data q) 14)"
    and hdr: "hdr_len ctx = 14 + unat (ip_hdr_len (data q) 14)" "\<And>a. a < hdr_len ctx \<Longrightarrow> pkt_header ctx a = data q a"
    and al: "total_alloc loc"
  shows "if rfc815_last ctx = 65535 then rfc815ctx_reassemble loc s ctx = Inl OutOfBounds
    else \<exists>pkt s'. rfc815ctx_reassemble loc s ctx = Inr (Some pkt, s') \<and>
      datagram_from (data q) P (rfc815_last ctx) pkt \<and> direction pkt = rfc815_direction ctx"
proof -
  let ?ihl = "ip_hdr_len (data q) 14" and ?mrl = "rfc815_last ctx"
  let ?h = "14 + unat ?ihl"
  let ?n = "?h + unat ?mrl + 1"
  have h128: "?h \<le> 128" using ip_hdr_len_le [of "data q" 14] by simp
  obtain b s' where al: "allocif_alloc loc s (packet_size ?n) = (Some b, s')" using total_allocE [OF al] by blast
  define d where "d = (\<lambda>a. if a < ?h then pkt_header ctx a else data b a)"
  have c1: "memcpy_obj (data b) ?n 0 (pkt_header ctx) 128 0 ?h = Inr d"
    using h128 by (auto simp: memcpy_obj_def d_def fun_eq_iff)
  have dq: "d a = data q a" if "a < ?h" for a using that hdr by (simp add: d_def)
  obtain e where
    e: "set_frag_hdr d 14 0 0 (ucast ?ihl + ?mrl + 1) (ucast ?ihl) = Some e" "ip_hdr_len e 14 = ?ihl" and
    dg: "\<And>g P pkt. (\<And>a. a < ?h \<Longrightarrow> g a = e a) \<Longrightarrow> sz pkt = ?n \<Longrightarrow> data pkt = g \<Longrightarrow>
       (\<And>i. i \<le> unat ?mrl \<Longrightarrow> \<exists>p\<in>P. i \<in> covered {p} \<and> g (?h + i) = frag_byte p i) \<Longrightarrow>
       datagram_from (data q) P ?mrl pkt"
    by (rule frag_hdr_datagram [OF ihl, where d = d and mrl = ?mrl]) (erule dq, rule that, assumption, assumption, blast)
  define g where "g = (\<lambda>a. if ?h \<le> a \<and> a < ?h + unat ?mrl + 1 then pkt ctx (a - ?h) else e a)"
  let ?pkt = "b\<lparr>sz := ?n, direction := rfc815_direction ctx, data := g\<rparr>"
  have uc: "of_nat (unat ?ihl) = (ucast ?ihl :: u16)" by simp
  have "memcpy_obj e ?n ?h (pkt ctx) rfc815_pkt_size 0 (unat ?mrl + 1) = (if ?mrl = 65535 then Inl OutOfBounds else Inr g)"
    using unat_u16_less [of ?mrl] by (auto simp: memcpy_obj_def g_def rfc815_pkt_size_def word_unat_eq_iff)
  then have "rfc815ctx_reassemble loc s ctx = (if ?mrl = 65535 then Inl OutOfBounds else Inr (Some ?pkt, s'))"
    using al c1 e
    by (simp add: rfc815ctx_reassemble_def hdr(1) ether_payload_def packet_calc_data_def uc Let_def cong: if_cong)
  moreover have "pkt ctx i \<in> carried P i" if "i \<le> unat ?mrl" for i
    using inv that by (simp add: inv815_def)
  then have "\<exists>p\<in>P. i \<in> covered {p} \<and> g (?h + i) = frag_byte p i" if "i \<le> unat ?mrl" for i
    using that by (fastforce simp: carried_def g_def)
  then have "datagram_from (data q) P ?mrl ?pkt"
    by (intro dg [where g = g]) (auto simp: g_def)
  ultimately show ?thesis by auto
qed



section \<open>Properties\<close>

text \<open>
  C3: After any sequence of packets no call aborted, the descriptors in the buffer form a doubly
  linked list of disjoint ascending holes, the end is the most restricting one, and every byte
  up to it that no valid fragment covered lies in a hole.  So the context is complete only when
  every byte arrived; and when each fragment but a final one has a length that is a multiple of
  8, as the protocol demands, it is complete exactly when the hole lists of
  \<^verbatim>\<open>reassctx\<close>, which pay for every hole with an allocation, are.
\<close>

theorem rfc815_agrees_with_reassctx:
  fixes ps :: "packet list"
  defines "mrl \<equiv> Min (limits (set ps))"
  shows "\<exists>ctx hs. rfc815_adds (rfc815ctx_init c0) ps = Some ctx \<and> holes_in ctx hs \<and> holes_wf 0 hs \<and>
    unat (rfc815_last ctx) = mrl \<and> {0..mrl} - covered (set ps) \<subseteq> hole_bytes hs \<and>
    (rfc815ctx_complete ctx = Some True \<longrightarrow> {0..mrl} \<subseteq> covered (set ps)) \<and>
    ((\<forall>p\<in>set ps. \<forall>f l. frag_range p = Some (f, l, True) \<longrightarrow> (l + 1) mod 8 = 0) \<longrightarrow>
      hole_bytes hs = hole_bytes (hole_list (foldl reassctx_add reassctx_init ps)) \<and>
      rfc815ctx_complete ctx = Some (reassctx_complete (foldl reassctx_add reassctx_init ps)))"
proof -
  obtain ctx hs where c: "rfc815_adds (rfc815ctx_init c0) ps = Some ctx" "inv815 (carried (set ps)) ctx hs"
    "(hole_bytes hs, unat (rfc815_last ctx)) = foldl spec815_add spec_init ps"
    by (rule rfc815_adds_carried)
  note m = rfc815_missing [OF c(3)] and cpl = rfc815ctx_complete_inv [OF c(2)]
  have "hole_bytes hs = hole_bytes (hole_list (foldl reassctx_add reassctx_init ps)) \<and>
      rfc815ctx_complete ctx = Some (reassctx_complete (foldl reassctx_add reassctx_init ps))"
    if "\<forall>p\<in>set ps. \<forall>f l. frag_range p = Some (f, l, True) \<longrightarrow> (l + 1) mod 8 = 0"
  proof -
    have "foldl spec815_add spec_init ps = reass_abs (foldl reassctx_add reassctx_init ps)"
      using spec815_eq [OF that] by (simp add: rc.abs_adds spec_adds)
    then show ?thesis
      using c(3) cpl rc.complete_iff [OF rc.inv_adds [OF rc.inv_init], of ps] by (simp add: reass_abs_def)
  qed
  then show ?thesis using c m cpl by (intro exI [of _ ctx] exI [of _ hs]) (auto simp: inv815_def mrl_def)
qed

text \<open>A context before it is initialised.\<close>

definition stale_ctx :: rfc815ctx where
  "stale_ctx = \<lparr>first_hole = 3, last_hole = 5, rfc815_last = 9, hdr_len = 20,
     rfc815_direction = PACKET_DIRECTION_UPLINK, pkt_header = \<lambda>_. 1, pkt = \<lambda>_. 2\<rparr>"

theorem rfc815_agrees_with_reassctx_witness:
  "\<exists>ctx. rfc815_adds (rfc815ctx_init stale_ctx) [sample_fragment 1 False 4 9, sample_fragment 0 True 8 5] = Some ctx \<and>
    rfc815ctx_complete ctx =
      Some (reassctx_complete (foldl reassctx_add reassctx_init [sample_fragment 1 False 4 9, sample_fragment 0 True 8 5]))"
proof -
  let ?p = "sample_fragment 1 False 4 9" and ?q = "sample_fragment 0 True 8 5"
  have "frag_range ?p = Some (8, 11, False)" "frag_range ?q = Some (0, 7, True)"
    by (simp_all add: frag_range_sample)
  then have "\<forall>p\<in>set [?p, ?q]. \<forall>f l. frag_range p = Some (f, l, True) \<longrightarrow> (l + 1) mod 8 = 0" by simp
  then show ?thesis using rfc815_agrees_with_reassctx [of stale_ctx "[?p, ?q]"] by blast
qed

lemma rfc815_reassembles:
  assumes "rfc815_adds (rfc815ctx_init c0) ps = Some ctx" "rfc815ctx_complete ctx = Some True"
    and "20 \<le> unat (ip_hdr_len (data (hd (filter has_hdr ps))) 14)" "total_alloc loc"
  shows "if rfc815_last ctx = 65535 then rfc815ctx_reassemble loc s ctx = Inl OutOfBounds
    else \<exists>pkt s'. rfc815ctx_reassemble loc s ctx = Inr (Some pkt, s') \<and>
      datagram_from (data (hd (filter has_hdr ps))) (set ps) (rfc815_last ctx) pkt"
proof -
  obtain hs where c: "inv815 (carried (set ps)) ctx hs" "keeps_hdr ctx ps"
    "(hole_bytes hs, unat (rfc815_last ctx)) = foldl spec815_add spec_init ps"
    using assms(1) by (auto intro: rfc815_adds_carried [of c0 ps])
  have e: "hole_bytes hs = {}" using rfc815ctx_complete_inv [OF c(1)] assms(2) by simp
  then have hs: "hs = []" using holes_wf_empty c(1) by (auto simp: inv815_def)
  have "0 \<in> covered (set ps)" using rfc815_missing(2) [OF c(3)] e by auto
  then obtain q where q: "filter has_hdr ps = q # tl (filter has_hdr ps)"
    "hdr_len ctx = 14 + unat (ip_hdr_len (data q) 14)" "\<And>a. a < hdr_len ctx \<Longrightarrow> pkt_header ctx a = data q a"
    using keeps_hdr_Cons [OF c(2)] by metis
  have "hd (filter has_hdr ps) = q" by (subst q(1)) simp
  then show ?thesis
    using rfc815ctx_reassemble_ok [OF c(1) [unfolded hs] _ q(2,3) assms(4), of s] assms(3) by auto
qed

text \<open>
  C13: A complete context whose stored header has at least 20 bytes, as each valid header has, is
  turned into the datagram if its last byte is before 65535 and memory is available: the copies of the
  header and of the buffer stay in their blocks, the header is the one of the first packet that passed
  the length checks, with the fragment fields reset and a valid checksum, and each payload byte is the
  byte of a fragment that covers its position: no descriptor is left in the payload.  If the last byte is
  65535 the copy of the payload reads behind the array, which has 65535 bytes.
\<close>

theorem rfc815ctx_reassemble_correct:
  assumes "rfc815_adds (rfc815ctx_init c0) ps = Some ctx" "rfc815ctx_complete ctx = Some True"
    and "20 \<le> unat (ip_hdr_len (data (hd (filter has_hdr ps))) 14)" "total_alloc loc"
  shows "if rfc815_last ctx = 65535 then rfc815ctx_reassemble loc s ctx = Inl OutOfBounds
    else \<exists>pkt s'. rfc815ctx_reassemble loc s ctx = Inr (Some pkt, s') \<and>
      datagram_from (data (hd (filter has_hdr ps))) (set ps) (rfc815_last ctx) pkt"
  using rfc815_reassembles [OF assms] .

theorem rfc815ctx_reassemble_correct_witness:
  "\<exists>ctx pkt s'. rfc815_adds (rfc815ctx_init stale_ctx) [sample_fragment 1 False 4 9, sample_fragment 0 True 8 5] = Some ctx \<and>
    rfc815ctx_reassemble zero_alloc 0 ctx = Inr (Some pkt, s') \<and>
    datagram_from (data (sample_fragment 1 False 4 9)) {sample_fragment 1 False 4 9, sample_fragment 0 True 8 5}
      (rfc815_last ctx) pkt"
proof -
  let ?p = "sample_fragment 1 False 4 9" and ?q = "sample_fragment 0 True 8 5"
  have fr: "frag_range ?p = Some (8, 11, False)" "frag_range ?q = Some (0, 7, True)"
    by (simp_all add: frag_range_sample)
  have "limits {?p, ?q} = {65535, 11}" "{0..11} \<subseteq> covered {?p, ?q}"
    using fr by (auto simp: limits_def covered_def)
  then have sp: "foldl spec_add spec_init [?p, ?q] = ({}, 11)" using spec_adds [of "[?p, ?q]"] by auto
  have "foldl spec815_add spec_init [?p, ?q] = ({}, 11)" using spec815_eq [of "[?p, ?q]"] sp fr by simp
  moreover obtain ctx hs where c: "rfc815_adds (rfc815ctx_init stale_ctx) [?p, ?q] = Some ctx"
    "inv815 (carried (set [?p, ?q])) ctx hs"
    "(hole_bytes hs, unat (rfc815_last ctx)) = foldl spec815_add spec_init [?p, ?q]"
    by (rule rfc815_adds_carried)
  ultimately have "rfc815ctx_complete ctx = Some True" and last: "rfc815_last ctx \<noteq> 65535"
    using rfc815ctx_complete_inv [OF c(2)] by auto
  moreover have "hd (filter has_hdr [?p, ?q]) = ?p" using has_hdr_frag_range [OF fr(1)] by simp
  ultimately show ?thesis
    using rfc815ctx_reassemble_correct [OF c(1), of zero_alloc 0] c(1) last total_zero_alloc
      sample_fragment_fields(1) [of 4 1 False 9] by simp
qed

text \<open>
  C30: The array has no room for the last byte of the longest datagram: a single packet whose range
  ends at byte 65535, which passes every check, makes a fresh context write its last byte right
  behind the array.
\<close>

theorem rfc815ctx_add_overruns:
  assumes "frag_range p = Some (f, 65535, mf)"
  shows "\<exists>ctx. rfc815ctx_add (rfc815ctx_init c0) p = Some ctx \<and> pkt ctx rfc815_pkt_size = frag_byte p rfc815_pkt_size"
proof -
  define D where "D = (\<lambda>i :: nat. if i = 65535 then {frag_byte p i} else UNIV)"
  have "\<forall>q\<in>set [p]. \<forall>i\<in>covered {q}. frag_byte q i \<in> D i" by (simp add: D_def)
  from rfc815_adds_ok [OF this, of c0] obtain ctx hs where c: "rfc815_adds (rfc815ctx_init c0) [p] = Some ctx"
    "inv815 D ctx hs" "(hole_bytes hs, unat (rfc815_last ctx)) = foldl spec815_add spec_init [p]" by blast
  have "f \<le> 65535" using frag_range_bounds [OF assms] by simp
  then have "65535 \<notin> hole_bytes hs" "unat (rfc815_last ctx) = 65535"
    using c(3) assms by (auto simp: spec815_add_def spec_init_def)
  then have "pkt ctx 65535 \<in> D 65535" using c(2) by (simp add: inv815_def)
  then show ?thesis using c(1) by (auto simp: D_def rfc815_pkt_size_def rfc815_adds_def)
qed

theorem rfc815ctx_add_overruns_witness:
  "\<exists>ctx. rfc815ctx_add (rfc815ctx_init stale_ctx)
      \<lparr>direction = PACKET_DIRECTION_UPLINK, sz = 42,
       data = (\<lambda>_. 0)(14 := 0x45, 16 := 0, 17 := 28, 20 := 0x1F, 21 := 0xFF, 41 := 77)\<rparr> = Some ctx \<and>
    pkt ctx rfc815_pkt_size = 77"
proof -
  let ?p = "\<lparr>direction = PACKET_DIRECTION_UPLINK, sz = 42,
       data = (\<lambda>_. 0)(14 := 0x45, 16 := 0, 17 := 28, 20 := 0x1F, 21 := 0xFF, 41 := 77)\<rparr>"
  have f: "ip_hdr_len (data ?p) 14 = 20" "ip_total_len (data ?p) 14 = 28" "ip_frag_off (data ?p) 14 = 65528"
    "ip_more_frags (data ?p) 14 = 0"
    by (simp_all add: ip_hdr_len_def ip_total_len_def ip_frag_off_def ip_more_frags_def hdr_simps mk16_def)
  then have "frag_range ?p = Some (65528, 65535, False)" by (simp add: frag_range_def)
  moreover have "frag_byte ?p 65535 = 77" using f by (simp add: frag_byte_def)
  ultimately show ?thesis using rfc815ctx_add_overruns [of ?p 65528 False stale_ctx] by (simp add: rfc815_pkt_size_def)
qed

end
