(* ===== verification/Combo.thy ===== *)
theory Combo
  imports Rfc815
begin

text \<open>
  The reassembly context of \<^verbatim>\<open>src/ipfrag/combo.c\<close>: it starts with the lists of \<^verbatim>\<open>reassctx\<close> and
  is promoted to the buffer of \<^verbatim>\<open>rfc815ctx\<close> once it holds many packets.  It behaves as one
  reassembler, whenever the promotion happens and whether or not its allocation succeeds, and
  it frees each packet it no longer refers to exactly once.
\<close>

section \<open>Model\<close>

text \<open>
  The union \<^verbatim>\<open>u\<close> holds a pointer to a buffer context or a list context; \<^verbatim>\<open>rfc_active\<close> tells which
  member to read.  A read of the other member, or through a null pointer, has no value.  The
  counter wraps around; the signed overflow needs \<open>2^31\<close> packets in one context.
\<close>

datatype combo_u = Rfc "rfc815ctx option" | Reass reassctx

record comboctx =
  rfc_active :: bool
  packet_count :: cint
  combo_u :: combo_u

definition u_rfc :: "comboctx \<Rightarrow> rfc815ctx option" where
  "u_rfc ctx = (case combo_u ctx of Rfc rfc \<Rightarrow> rfc | Reass _ \<Rightarrow> None)"

definition u_reass :: "comboctx \<Rightarrow> reassctx option" where
  "u_reass ctx = (case combo_u ctx of Rfc _ \<Rightarrow> None | Reass reass \<Rightarrow> Some reass)"

definition comboctx_init :: comboctx where
  "comboctx_init = \<lparr>rfc_active = False, packet_count = 0, combo_u = Reass reassctx_init\<rparr>"

definition comboctx_complete :: "comboctx \<Rightarrow> bool option" where
  "comboctx_complete ctx =
     (if rfc_active ctx then Option.bind (u_rfc ctx) rfc815ctx_complete
      else map_option reassctx_complete (u_reass ctx))"

definition comboctx_free :: "'s allocif \<Rightarrow> 's \<Rightarrow> comboctx \<Rightarrow> (comboctx \<times> 's) option" where
  "comboctx_free loc s ctx =
     (if rfc_active ctx then Some (ctx\<lparr>combo_u := Rfc None\<rparr>, s)
      else do { reass \<leftarrow> u_reass ctx;
                let (reass, s) = reassctx_free loc s reass;
                Some (ctx\<lparr>combo_u := Reass reass\<rparr>, s) })"

text \<open>
  \<open>newctx\<close> is the result of \<^verbatim>\<open>malloc\<close>: a null pointer or a block with arbitrary contents.  The
  result \<open>None\<close> also stands for a call that does not return.
\<close>

definition comboctx_promote ::
  "'s allocif \<Rightarrow> 's \<Rightarrow> rfc815ctx option \<Rightarrow> comboctx \<Rightarrow> (comboctx \<times> 's) option" where
  "comboctx_promote loc s newctx ctx =
     (if rfc_active ctx then Some (ctx, s)
      else case newctx of
             None \<Rightarrow> Some (ctx, s)
           | Some newctx \<Rightarrow>
               do { reass \<leftarrow> u_reass ctx;
                    newctx \<leftarrow> rfc815_adds (rfc815ctx_init newctx) (packet_list reass);
                    let (_, s) = reassctx_free loc s reass;
                    Some (ctx\<lparr>combo_u := Rfc (Some newctx), rfc_active := True\<rparr>, s) })"

definition comboctx_add ::
  "'s allocif \<Rightarrow> 's \<Rightarrow> rfc815ctx option \<Rightarrow> comboctx \<Rightarrow> packet \<Rightarrow> (comboctx \<times> 's) option" where
  "comboctx_add loc s newctx ctx p =
     do { (ctx, s) \<leftarrow> (if \<not> rfc_active ctx \<and> sint (packet_count ctx) > 65535 div 1514
                        then comboctx_promote loc s newctx ctx else Some (ctx, s));
          let ctx = ctx\<lparr>packet_count := packet_count ctx + 1\<rparr>;
          if rfc_active ctx
          then do { rfc \<leftarrow> u_rfc ctx;
                    rfc \<leftarrow> rfc815ctx_add rfc p;
                    Some (ctx\<lparr>combo_u := Rfc (Some rfc)\<rparr>, allocif_free loc s p) }
          else do { reass \<leftarrow> u_reass ctx;
                    Some (ctx\<lparr>combo_u := Reass (reassctx_add reass p)\<rparr>, s) } }"

definition comboctx_reassemble :: "'s allocif \<Rightarrow> 's \<Rightarrow> comboctx \<Rightarrow> (packet option \<times> 's) outcome" where
  "comboctx_reassemble loc s ctx =
     (if rfc_active ctx
      then (case u_rfc ctx of None \<Rightarrow> Inl NullDeref | Some rfc \<Rightarrow> rfc815ctx_reassemble loc s rfc)
      else (case u_reass ctx of None \<Rightarrow> Inl NullDeref | Some reass \<Rightarrow> reassctx_reassemble loc s reass))"

text \<open>A sequence of calls: what to allocate, should the call promote, and the packet.\<close>

fun combo_run :: "'s allocif \<Rightarrow> comboctx \<times> 's \<Rightarrow> (rfc815ctx option \<times> packet) list \<Rightarrow> (comboctx \<times> 's) option" where
  "combo_run loc cs [] = Some cs"
| "combo_run loc cs ((newctx, p) # rs) =
     do { cs \<leftarrow> comboctx_add loc (snd cs) newctx (fst cs) p; combo_run loc cs rs }"

section \<open>The context follows its packets\<close>

text \<open>The context and the allocator after the packets \<open>ps\<close>, from the allocator state \<open>s0\<close>.\<close>

definition combo_holds :: "'s allocif \<Rightarrow> 's \<Rightarrow> packet list \<Rightarrow> comboctx \<times> 's \<Rightarrow> bool" where
  "combo_holds loc s0 ps cs \<longleftrightarrow>
     (if rfc_active (fst cs)
      then (\<exists>c0 rfc. combo_u (fst cs) = Rfc (Some rfc) \<and> rfc815_adds (rfc815ctx_init c0) ps = Some rfc) \<and>
        snd cs = foldl (allocif_free loc) s0 ps
      else combo_u (fst cs) = Reass (foldl reassctx_add reassctx_init ps) \<and> snd cs = s0)"

lemmas combo_defs = combo_holds_def u_rfc_def u_reass_def

lemma free_packets_foldl: "free_packets loc s ps = foldl (allocif_free loc) s ps"
  by (induction ps arbitrary: s) simp_all

lemma rfc815_adds_total: "\<exists>ctx. rfc815_adds (rfc815ctx_init c0) ps = Some ctx"
  using rfc815_adds_carried [of c0 ps] by blast

lemma rfc815_adds_snoc: "rfc815_adds ctx (ps @ [p]) = Option.bind (rfc815_adds ctx ps) (\<lambda>c. rfc815ctx_add c p)"
  by (simp add: rfc815_adds_def)

lemma comboctx_promote_holds:
  assumes "combo_holds loc s0 ps (ctx, s)"
  shows "\<exists>cs. comboctx_promote loc s newctx ctx = Some cs \<and> combo_holds loc s0 ps cs"
proof (cases "rfc_active ctx \<or> newctx = None")
  case False
  then obtain c0 where c0: "newctx = Some c0" "\<not> rfc_active ctx" by auto
  then have r: "u_reass ctx = Some (foldl reassctx_add reassctx_init ps)" "s = s0"
    "packet_list (foldl reassctx_add reassctx_init ps) = ps"
    using assms by (simp_all add: combo_defs packet_list_adds packet_list_add reassctx_init_def)
  obtain rfc where "rfc815_adds (rfc815ctx_init c0) ps = Some rfc" using rfc815_adds_total by blast
  then show ?thesis
    using c0 r by (auto simp: comboctx_promote_def combo_holds_def reassctx_free_def free_packets_foldl)
qed (use assms in \<open>auto simp: comboctx_promote_def\<close>)

lemma comboctx_add_holds:
  assumes "combo_holds loc s0 ps (ctx, s)"
  shows "\<exists>cs. comboctx_add loc s newctx ctx p = Some cs \<and> combo_holds loc s0 (ps @ [p]) cs"
proof -
  obtain c t where c: "combo_holds loc s0 ps (c, t)"
    "(if \<not> rfc_active ctx \<and> sint (packet_count ctx) > 65535 div 1514
      then comboctx_promote loc s newctx ctx else Some (ctx, s)) = Some (c, t)"
    using assms comboctx_promote_holds [OF assms, of newctx] by (metis prod.exhaust)
  show ?thesis
  proof (cases "rfc_active c")
    case True
    then obtain c0 rfc where r: "combo_u c = Rfc (Some rfc)" "rfc815_adds (rfc815ctx_init c0) ps = Some rfc"
      "t = foldl (allocif_free loc) s0 ps"
      using c(1) by (auto simp: combo_holds_def)
    obtain rfc' where r': "rfc815_adds (rfc815ctx_init c0) (ps @ [p]) = Some rfc'" using rfc815_adds_total by blast
    then have "rfc815ctx_add rfc p = Some rfc'" using r(2) by (simp add: rfc815_adds_snoc)
    then have "comboctx_add loc s newctx ctx p =
        Some (c\<lparr>packet_count := packet_count c + 1, combo_u := Rfc (Some rfc')\<rparr>, allocif_free loc t p)"
      using c(2) True r(1) by (simp add: comboctx_add_def u_rfc_def)
    then show ?thesis using r' r(3) True by (auto simp: combo_holds_def)
  qed (use c in \<open>simp add: comboctx_add_def combo_defs\<close>)
qed

lemma combo_run_holds:
  "combo_holds loc s0 ps cs \<Longrightarrow> \<exists>cs'. combo_run loc cs rs = Some cs' \<and> combo_holds loc s0 (ps @ map snd rs) cs'"
proof (induction rs arbitrary: cs ps)
  case (Cons r rs)
  obtain n p c s where e: "r = (n, p)" "cs = (c, s)" by (cases r, cases cs)
  obtain cs' where cs': "comboctx_add loc s n c p = Some cs'" "combo_holds loc s0 (ps @ [p]) cs'"
    using comboctx_add_holds [OF Cons.prems [unfolded e(2)]] by blast
  from Cons.IH [OF cs'(2)] show ?case using cs'(1) by (simp add: e)
qed simp

lemma combo_run_init:
  "\<exists>cs. combo_run loc (comboctx_init, s0) rs = Some cs \<and> combo_holds loc s0 (map snd rs) cs"
  using combo_run_holds [of loc s0 "[]" "(comboctx_init, s0)" rs] by (simp add: combo_holds_def comboctx_init_def)

lemma combo_complete:
  assumes "combo_holds loc s0 ps (ctx, s)"
  obtains b where "comboctx_complete ctx = Some b" "b \<Longrightarrow> {0..Min (limits (set ps))} \<subseteq> covered (set ps)"
    "\<forall>p\<in>set ps. \<forall>f l. frag_range p = Some (f, l, True) \<longrightarrow> (l + 1) mod 8 = 0 \<Longrightarrow>
      b = reassctx_complete (foldl reassctx_add reassctx_init ps)"
proof (cases "rfc_active ctx")
  case True
  then obtain c0 rfc where r: "combo_u ctx = Rfc (Some rfc)" "rfc815_adds (rfc815ctx_init c0) ps = Some rfc"
    using assms by (auto simp: combo_holds_def)
  obtain hs where h: "inv815 (carried (set ps)) rfc hs"
    "(hole_bytes hs, unat (rfc815_last rfc)) = foldl spec815_add spec_init ps"
    using rfc815_adds_carried [of c0 ps] r by auto
  note cpl = rfc815ctx_complete_inv [OF h(1)] and m = rfc815_missing [OF h(2)]
  have "hole_bytes hs = {} \<longleftrightarrow> reassctx_complete (foldl reassctx_add reassctx_init ps)"
    if "\<forall>p\<in>set ps. \<forall>f l. frag_range p = Some (f, l, True) \<longrightarrow> (l + 1) mod 8 = 0"
    using h(2) spec815_eq [OF that] by (simp add: spec_adds rc.complete_adds)
  then show ?thesis
    using True r(1) cpl m by (intro that [of "hole_bytes hs = {}"]) (auto simp: comboctx_complete_def u_rfc_def)
next
  case False
  then show ?thesis
    using assms rc.complete_adds [of ps]
    by (intro that [of "reassctx_complete (foldl reassctx_add reassctx_init ps)"])
      (auto simp: comboctx_complete_def combo_defs)
qed

section \<open>Properties\<close>

text \<open>
  C9: A run of the combined context on any packets returns, whatever \<^verbatim>\<open>malloc\<close> gives.  A context
  that is not promoted holds the packets and freed none; a promoted one freed each packet
  exactly once, in order.  It is complete only when every byte arrived, and on fragments whose
  lengths are multiples of 8, final ones aside, exactly when \<^verbatim>\<open>reassctx\<close> would be.
\<close>

theorem comboctx_refines:
  fixes rs :: "(rfc815ctx option \<times> packet) list"
  defines "ps \<equiv> map snd rs"
  shows "\<exists>ctx s b. combo_run loc (comboctx_init, s0) rs = Some (ctx, s) \<and> comboctx_complete ctx = Some b \<and>
    s = (if rfc_active ctx then foldl (allocif_free loc) s0 ps else s0) \<and>
    (b \<longrightarrow> {0..Min (limits (set ps))} \<subseteq> covered (set ps)) \<and>
    ((\<forall>p\<in>set ps. \<forall>f l. frag_range p = Some (f, l, True) \<longrightarrow> (l + 1) mod 8 = 0) \<longrightarrow>
      b = reassctx_complete (foldl reassctx_add reassctx_init ps))"
proof -
  obtain ctx s where c: "combo_run loc (comboctx_init, s0) rs = Some (ctx, s)" "combo_holds loc s0 ps (ctx, s)"
    using combo_run_init [of loc s0 rs] by (auto simp: ps_def)
  have "s = (if rfc_active ctx then foldl (allocif_free loc) s0 ps else s0)" using c(2) by (auto simp: combo_holds_def)
  moreover obtain b where "comboctx_complete ctx = Some b" "b \<longrightarrow> {0..Min (limits (set ps))} \<subseteq> covered (set ps)"
    "(\<forall>p\<in>set ps. \<forall>f l. frag_range p = Some (f, l, True) \<longrightarrow> (l + 1) mod 8 = 0) \<longrightarrow>
      b = reassctx_complete (foldl reassctx_add reassctx_init ps)"
    using combo_complete [OF c(2)] by metis
  ultimately show ?thesis using c(1) by blast
qed

theorem comboctx_refines_witness:
  "\<exists>ctx s. combo_run zero_alloc (comboctx_init, 2) [(None, sample_fragment 1 False 4 9), (None, sample_fragment 0 True 8 5)]
      = Some (ctx, s) \<and>
    comboctx_complete ctx =
      Some (reassctx_complete (foldl reassctx_add reassctx_init [sample_fragment 1 False 4 9, sample_fragment 0 True 8 5]))"
proof -
  let ?p = "sample_fragment 1 False 4 9" and ?q = "sample_fragment 0 True 8 5"
  have "\<forall>p\<in>set [?p, ?q]. \<forall>f l. frag_range p = Some (f, l, True) \<longrightarrow> (l + 1) mod 8 = 0"
    by (simp add: frag_range_sample)
  then show ?thesis using comboctx_refines [of zero_alloc 2 "[(None, ?p), (None, ?q)]"] by auto
qed

text \<open>
  C14: A combined context that is complete gives the datagram in either state, if memory is available,
  the first header has at least 20 bytes and each packet is copyable, that is, it passed the checks and
  starts no later than right behind the last byte of the datagram: the header is the one of the first packet and each payload byte
  comes from a fragment that covers its position.  A promoted context whose last byte is 65535 is the
  exception: its copy of the payload reads behind the array.
\<close>

theorem comboctx_reassemble_correct:
  assumes run: "combo_run loc (comboctx_init, s0) ((n, p0) # rs) = Some (ctx, s)" and "comboctx_complete ctx = Some True"
    and ps: "ps = p0 # map snd rs" "m = Min (limits (set ps))"
    and cp: "\<forall>p\<in>set ps. copyable (of_nat m) p" "20 \<le> unat (ip_hdr_len (data p0) 14)" "total_alloc loc"
  shows "if rfc_active ctx \<and> m = 65535 then comboctx_reassemble loc s ctx = Inl OutOfBounds
    else \<exists>pkt s'. comboctx_reassemble loc s ctx = Inr (Some pkt, s') \<and> datagram_from (data p0) (set ps) (of_nat m) pkt"
proof -
  have h: "combo_holds loc s0 ps (ctx, s)" using combo_run_init [of loc s0 "(n, p0) # rs"] run ps by auto
  show ?thesis
  proof (cases "rfc_active ctx")
    case True
    then obtain c0 rfc where r: "combo_u ctx = Rfc (Some rfc)" "rfc815_adds (rfc815ctx_init c0) ps = Some rfc"
      using h by (auto simp: combo_holds_def)
    have "has_hdr p0" using cp(1) ps has_hdr_frag_range by (auto simp: copyable_def)
    then have q: "hd (filter has_hdr ps) = p0" using ps by simp
    obtain hs where "(hole_bytes hs, unat (rfc815_last rfc)) = foldl spec815_add spec_init ps"
      using rfc815_adds_carried [of c0 ps] r by auto
    from rfc815_missing(1) [OF this] ps(2) have "m = unat (rfc815_last rfc)" by simp
    then have "rfc815_last rfc = of_nat m" "m = 65535 \<longleftrightarrow> rfc815_last rfc = 65535" by (simp_all add: word_unat_eq_iff)
    moreover have "rfc815ctx_complete rfc = Some True"
      using assms(2) True r by (simp add: comboctx_complete_def u_rfc_def)
    ultimately show ?thesis
      using rfc815_reassembles [OF r(2), of loc s] cp(2,3) q True r(1)
      by (auto simp: comboctx_reassemble_def u_rfc_def split: if_splits)
  next
    case False
    then have r: "combo_u ctx = Reass (foldl reassctx_add reassctx_init ps)" using h by (simp add: combo_holds_def)
    have "m = unat (most_restricting_last (foldl reassctx_add reassctx_init ps))"
      using mrl_adds [of ps] ps(2) by simp
    then have m: "of_nat m = most_restricting_last (foldl reassctx_add reassctx_init ps)" by simp
    have "reassctx_complete (foldl reassctx_add reassctx_init ps)"
      using assms(2) False r by (simp add: comboctx_complete_def u_reass_def)
    then show ?thesis
      using reassctx_reassembles [of p0 "map snd rs" loc s] cp False r m ps(1)
      by (auto simp: comboctx_reassemble_def u_reass_def datagram_of_def)
  qed
qed

text \<open>
  A failing \<^verbatim>\<open>malloc\<close> keeps the context as it is, so it is promoted by the first call that
  succeeds after the 44th packet.
\<close>

lemma combo_run_append:
  "combo_run loc cs (rs @ rs') = Option.bind (combo_run loc cs rs) (\<lambda>cs. combo_run loc cs rs')"
  by (induction rs arbitrary: cs) (auto split: bind_splits)

lemma combo_run_unpromoted:
  assumes "\<not> rfc_active ctx" "combo_u ctx = Reass r"
  shows "\<exists>ctx' r'. combo_run loc (ctx, s) (replicate k (None, p)) = Some (ctx', s) \<and> \<not> rfc_active ctx' \<and>
    combo_u ctx' = Reass r' \<and> packet_count ctx' = packet_count ctx + of_nat k"
  using assms
proof (induction k arbitrary: ctx r)
  case (Suc k)
  let ?c = "ctx\<lparr>packet_count := packet_count ctx + 1, combo_u := Reass (reassctx_add r p)\<rparr>"
  have "comboctx_add loc s None ctx p = Some (?c, s)"
    using Suc.prems by (simp add: comboctx_add_def comboctx_promote_def u_reass_def)
  then show ?case using Suc.IH [of ?c "reassctx_add r p"] Suc.prems by (simp add: algebra_simps)
qed simp

lemma comboctx_add_promotes:
  assumes "\<not> rfc_active ctx" "combo_u ctx = Reass r" "sint (packet_count ctx) > 43"
    and "comboctx_add loc s (Some c0) ctx p = Some (ctx', s')"
  shows "rfc_active ctx'"
  using assms by (auto simp: comboctx_add_def comboctx_promote_def u_reass_def split: bind_splits if_splits prod.splits)

lemma combo_run_promotes:
  assumes "combo_run loc (comboctx_init, s0) (replicate 44 (None, p) @ [(Some c0, q)]) = Some (ctx, s)"
  shows "rfc_active ctx"
proof -
  obtain c r where c: "combo_run loc (comboctx_init, s0) (replicate 44 (None, p)) = Some (c, s0)"
    "\<not> rfc_active c" "combo_u c = Reass r" "packet_count c = 44"
    using combo_run_unpromoted [of comboctx_init reassctx_init loc s0 44 p] by (auto simp: comboctx_init_def)
  then have "comboctx_add loc s0 (Some c0) c q = Some (ctx, s)"
    using assms unfolding combo_run_append by (simp split: bind_splits)
  from comboctx_add_promotes [OF c(2,3) _ this] c(4) show ?thesis by simp
qed

lemma combo_run_sample:
  assumes "map snd rs = replicate (Suc k) (sample_fragment 1 False 4 9) @ [sample_fragment 0 True 8 5]"
  obtains ctx s where "combo_run zero_alloc (comboctx_init, 2) rs = Some (ctx, s)" "comboctx_complete ctx = Some True"
    "Min (limits (set (map snd rs))) = 11" "\<forall>p\<in>set (map snd rs). copyable 11 p"
    "20 \<le> unat (ip_hdr_len (data (sample_fragment 1 False 4 9)) 14)"
proof -
  let ?p = "sample_fragment 1 False 4 9" and ?q = "sample_fragment 0 True 8 5"
  have fr: "frag_range ?p = Some (8, 11, False)" "frag_range ?q = Some (0, 7, True)"
    by (simp_all add: frag_range_sample)
  have st: "set (map snd rs) = {?p, ?q}" unfolding assms by (auto simp del: replicate.simps)
  have l: "limits {?p, ?q} = {65535, 11}" "{0..11} \<subseteq> covered {?p, ?q}"
    using fr by (auto simp: limits_def covered_def)
  obtain ctx s where c: "combo_run zero_alloc (comboctx_init, 2) rs = Some (ctx, s)"
    "combo_holds zero_alloc 2 (map snd rs) (ctx, s)"
    using combo_run_init [of zero_alloc 2 rs] by auto
  have "\<forall>p\<in>set (map snd rs). \<forall>f l. frag_range p = Some (f, l, True) \<longrightarrow> (l + 1) mod 8 = 0"
    unfolding st using fr by simp
  moreover have "reassctx_complete (foldl reassctx_add reassctx_init (map snd rs))"
    unfolding rc.complete_adds st using l by simp
  ultimately have "comboctx_complete ctx = Some True" using combo_complete [OF c(2)] by metis
  moreover have "\<forall>p\<in>set (map snd rs). copyable 11 p" unfolding st using fr by (auto simp: copyable_def)
  ultimately show ?thesis
    using that c(1) l(1) sample_fragment_fields(1) [of 4 1 False 9] unfolding st by simp
qed

text \<open>A run that is not promoted, and one that is.\<close>

theorem comboctx_reassemble_correct_witness:
  "(\<exists>ctx s pkt s'. combo_run zero_alloc (comboctx_init, 2)
      [(None, sample_fragment 1 False 4 9), (None, sample_fragment 0 True 8 5)] = Some (ctx, s) \<and> \<not> rfc_active ctx \<and>
    comboctx_reassemble zero_alloc s ctx = Inr (Some pkt, s') \<and>
    datagram_from (data (sample_fragment 1 False 4 9)) {sample_fragment 1 False 4 9, sample_fragment 0 True 8 5} 11 pkt) \<and>
   (\<exists>ctx s pkt s'. combo_run zero_alloc (comboctx_init, 2)
      (replicate 44 (None, sample_fragment 1 False 4 9) @ [(Some stale_ctx, sample_fragment 0 True 8 5)]) = Some (ctx, s) \<and>
    rfc_active ctx \<and> comboctx_reassemble zero_alloc s ctx = Inr (Some pkt, s') \<and>
    datagram_from (data (sample_fragment 1 False 4 9)) {sample_fragment 1 False 4 9, sample_fragment 0 True 8 5} 11 pkt)"
proof
  let ?p = "sample_fragment 1 False 4 9" and ?q = "sample_fragment 0 True 8 5"
  let ?rs = "[(None, ?p), (None, ?q)] :: (rfc815ctx option \<times> packet) list"
  obtain ctx s where c: "combo_run zero_alloc (comboctx_init, 2) ?rs = Some (ctx, s)" "comboctx_complete ctx = Some True"
    "Min (limits (set (map snd ?rs))) = 11" "\<forall>p\<in>set (map snd ?rs). copyable 11 p" "20 \<le> unat (ip_hdr_len (data ?p) 14)"
    by (rule combo_run_sample [of ?rs 0]) simp_all
  have "\<not> rfc_active ctx" using c(1) by (auto simp: comboctx_init_def comboctx_add_def u_reass_def)
  then show "\<exists>ctx s pkt s'. combo_run zero_alloc (comboctx_init, 2) ?rs = Some (ctx, s) \<and> \<not> rfc_active ctx \<and>
    comboctx_reassemble zero_alloc s ctx = Inr (Some pkt, s') \<and> datagram_from (data ?p) {?p, ?q} 11 pkt"
    using comboctx_reassemble_correct [OF c(1,2), of "[?p, ?q]" 11] c total_zero_alloc by auto
next
  let ?p = "sample_fragment 1 False 4 9" and ?q = "sample_fragment 0 True 8 5"
  let ?rs = "replicate 43 (None, ?p) @ [(Some stale_ctx, ?q)] :: (rfc815ctx option \<times> packet) list"
  have rs: "replicate 44 (None, ?p) @ [(Some stale_ctx, ?q)] = (None, ?p) # ?rs"
    by (simp add: numeral_eq_Suc)
  have m: "map snd ((None, ?p) # ?rs) = replicate (Suc 43) ?p @ [?q]" unfolding replicate_Suc by simp
  obtain ctx s where c: "combo_run zero_alloc (comboctx_init, 2) ((None, ?p) # ?rs) = Some (ctx, s)"
    "comboctx_complete ctx = Some True" "Min (limits (set (map snd ((None, ?p) # ?rs)))) = 11"
    "\<forall>p\<in>set (map snd ((None, ?p) # ?rs)). copyable 11 p" "20 \<le> unat (ip_hdr_len (data ?p) 14)"
    by (rule combo_run_sample [OF m])
  have "rfc_active ctx" by (rule combo_run_promotes [OF c(1) [folded rs]])
  moreover have "set (map snd ((None, ?p) # ?rs)) = {?p, ?q}" by auto
  ultimately show "\<exists>ctx s pkt s'. combo_run zero_alloc (comboctx_init, 2)
      (replicate 44 (None, ?p) @ [(Some stale_ctx, ?q)]) = Some (ctx, s) \<and>
    rfc_active ctx \<and> comboctx_reassemble zero_alloc s ctx = Inr (Some pkt, s') \<and> datagram_from (data ?p) {?p, ?q} 11 pkt"
    unfolding rs using comboctx_reassemble_correct [OF c(1,2) _ c(3) [symmetric]] c(1,4,5) total_zero_alloc by auto
qed

end
