(* ===== verification/Queue.thy ===== *)
theory Queue
  imports Packet
begin

text \<open>
  The bounded queue between threads of \<^verbatim>\<open>src/queue\<close>: a ring buffer under a mutex with two
  condition variables.  Each function is modelled by what it does from the moment it owns the
  mutex until it gives it up, by returning or by waiting; a step relation interleaves the
  calls of any number of threads, with spurious wake-ups and timeouts.  The queue delivers every
  item exactly once and in order, and no wake-up is lost.
\<close>

section \<open>Model\<close>

text \<open>
  Items are pointers, the null pointer is \<open>0\<close>.  Indices stay below \<^verbatim>\<open>bufsiz\<close>, so the
  additions on \<^verbatim>\<open>size_t\<close> never wrap around.
\<close>

record queue =
  q_buf :: "ptr list"
  bufsiz :: nat
  start :: nat
  q_end :: nat

text \<open>
  \<open>block\<close> is what \<^verbatim>\<open>malloc\<close> returned.  It is not checked: with a null pointer the queue has no
  slots whatever its size says.  The flags tell whether the mutex and the two condition
  variables could be initialised; \<open>None\<close> is \<^verbatim>\<open>-ENOMEM\<close>.
\<close>

definition queue_init :: "nat \<Rightarrow> ptr list option \<Rightarrow> bool \<Rightarrow> bool \<Rightarrow> bool \<Rightarrow> queue option" where
  "queue_init n block mtx_ok full_ok empty_ok =
     (let buf = (case block of None \<Rightarrow> [] | Some b \<Rightarrow> b);
          q = \<lparr>q_buf = buf, bufsiz = 0, start = 0, q_end = 0\<rparr>
      in if \<not> mtx_ok then None
         else if \<not> full_ok then None
         else if \<not> empty_ok then None
         else Some (q\<lparr>bufsiz := n\<rparr>))"

definition queue_is_empty :: "queue \<Rightarrow> bool" where
  "queue_is_empty q \<longleftrightarrow> start q = q_end q"

definition queue_is_full :: "queue \<Rightarrow> bool" where
  "queue_is_full q \<longleftrightarrow>
     (let end_plus_1 = q_end q + 1;
          end_plus_1 = (if end_plus_1 \<ge> bufsiz q then 0 else end_plus_1)
      in start q = end_plus_1)"

text \<open>The statements that store one item and that take one item out.\<close>

definition queue_put :: "queue \<Rightarrow> ptr \<Rightarrow> queue" where
  "queue_put q item =
     (let q = q\<lparr>q_buf := (q_buf q)[q_end q := item], q_end := q_end q + 1\<rparr>
      in if q_end q \<ge> bufsiz q then q\<lparr>q_end := 0\<rparr> else q)"

definition queue_take :: "queue \<Rightarrow> ptr \<times> queue" where
  "queue_take q =
     (let item = q_buf q ! start q;
          q = q\<lparr>q_buf := (q_buf q)[start q := 0], start := start q + 1\<rparr>
      in (item, if start q \<ge> bufsiz q then q\<lparr>start := 0\<rparr> else q))"

datatype cond = Full | Empty

datatype task = EnqOne ptr | DeqOne | EnqMany "ptr list" | DeqMany nat | TimedDeqMany nat

text \<open>
  A section under the mutex ends by waiting for a condition, with the work that is left, or by
  returning the items that it took out.
\<close>

datatype section_end = Wait cond task | Return "ptr list"

text \<open>The queue afterwards, the conditions that were broadcast, and how the section ended.\<close>

type_synonym section_result = "queue \<times> cond set \<times> section_end"

definition queue_enq_one :: "queue \<Rightarrow> ptr \<Rightarrow> section_result" where
  "queue_enq_one q item =
     (if queue_is_full q then (q, {}, Wait Full (EnqOne item))
      else let was_empty = queue_is_empty q
           in (queue_put q item, if was_empty then {Empty} else {}, Return []))"

definition queue_deq_one :: "queue \<Rightarrow> section_result" where
  "queue_deq_one q =
     (if queue_is_empty q then (q, {}, Wait Empty DeqOne)
      else let was_full = queue_is_full q;
               (item, q) = queue_take q
           in (q, if was_full then {Full} else {}, Return [item]))"

text \<open>The list holds the items from index \<^verbatim>\<open>i\<close> on.\<close>

fun queue_enq_many :: "queue \<Rightarrow> ptr list \<Rightarrow> section_result" where
  "queue_enq_many q [] = (q, {}, Return [])"
| "queue_enq_many q (x # xs) =
     (if queue_is_full q then (q, {}, Wait Full (EnqMany (x # xs)))
      else let was_empty = queue_is_empty q;
               (q, sig, r) = queue_enq_many (queue_put q x) xs
           in (q, (if was_empty then {Empty} else {}) \<union> sig, r))"

text \<open>The loop that takes out at most \<open>n\<close> items.\<close>

fun deq_loop :: "queue \<Rightarrow> nat \<Rightarrow> ptr list \<times> queue" where
  "deq_loop q 0 = ([], q)"
| "deq_loop q (Suc n) =
     (if queue_is_empty q then ([], q)
      else let (x, q) = queue_take q;
               (xs, q) = deq_loop q n
           in (x # xs, q))"

definition queue_deq_many :: "queue \<Rightarrow> nat \<Rightarrow> section_result" where
  "queue_deq_many q n =
     (if queue_is_empty q then (q, {}, Wait Empty (DeqMany n))
      else let was_full = queue_is_full q;
               (xs, q) = deq_loop q n
           in (q, if was_full then {Full} else {}, Return xs))"

definition queue_timeddeq_many :: "queue \<Rightarrow> nat \<Rightarrow> section_result" where
  "queue_timeddeq_many q n =
     (if queue_is_empty q then (q, {}, Wait Empty (TimedDeqMany n))
      else let was_full = queue_is_full q;
               (xs, q) = deq_loop q n
           in (q, if was_full then {Full} else {}, Return xs))"

fun queue_run :: "task \<Rightarrow> queue \<Rightarrow> section_result" where
  "queue_run (EnqOne x) q = queue_enq_one q x"
| "queue_run DeqOne q = queue_deq_one q"
| "queue_run (EnqMany xs) q = queue_enq_many q xs"
| "queue_run (DeqMany n) q = queue_deq_many q n"
| "queue_run (TimedDeqMany n) q = queue_timeddeq_many q n"

text \<open>
  A cache in front of a queue, for one producer.  Flushing is one call of \<^verbatim>\<open>queue_enq_many\<close>: the
  functions give the calls to make on the queue, in order, and the cache afterwards.
\<close>

record queue_cache =
  c_buf :: "ptr list"
  capacity :: nat
  c_size :: nat

definition queue_cache_init :: "nat \<Rightarrow> ptr list option \<Rightarrow> queue_cache option" where
  "queue_cache_init n block = map_option (\<lambda>b. \<lparr>c_buf = b, capacity = n, c_size = 0\<rparr>) block"

definition queue_cache_flush :: "queue_cache \<Rightarrow> task \<times> queue_cache" where
  "queue_cache_flush cache =
     (EnqMany (take (c_size cache) (c_buf cache)),
      cache\<lparr>c_buf := replicate (c_size cache) 0 @ drop (c_size cache) (c_buf cache), c_size := 0\<rparr>)"

definition queue_cache_enq_one :: "queue_cache \<Rightarrow> ptr \<Rightarrow> (task list \<times> queue_cache) outcome" where
  "queue_cache_enq_one cache item =
     (let (ks, cache) = (if c_size cache \<ge> capacity cache
                         then (let (k, cache) = queue_cache_flush cache in ([k], cache)) else ([], cache))
      in if c_size cache < length (c_buf cache)
         then Inr (ks, cache\<lparr>c_buf := (c_buf cache)[c_size cache := item], c_size := c_size cache + 1\<rparr>)
         else Inl OutOfBounds)"

fun cache_run :: "queue_cache \<Rightarrow> ptr list \<Rightarrow> (task list \<times> queue_cache) outcome" where
  "cache_run cache [] = Inr ([], cache)"
| "cache_run cache (x # xs) =
     and_then (queue_cache_enq_one cache x) (\<lambda>(ks, cache).
     and_then (cache_run cache xs) (\<lambda>(ks', cache). Inr (ks @ ks', cache)))"

section \<open>Threads\<close>

text \<open>
  Each thread is in at most one call; a blocked thread waits for a condition.  \<open>put_log\<close> and
  \<open>got_log\<close> record the items stored and delivered so far.
\<close>

record system =
  que :: queue
  calls :: "nat \<rightharpoonup> task"
  blocked :: "nat \<rightharpoonup> cond"
  put_log :: "ptr list"
  got_log :: "ptr list"

fun puts_of :: "task \<Rightarrow> section_end \<Rightarrow> ptr list" where
  "puts_of (EnqOne x) (Return _) = [x]"
| "puts_of (EnqMany xs) (Return _) = xs"
| "puts_of (EnqMany xs) (Wait _ (EnqMany ys)) = take (length xs - length ys) xs"
| "puts_of _ _ = []"

fun gets_of :: "section_end \<Rightarrow> ptr list" where
  "gets_of (Return xs) = xs"
| "gets_of _ = []"

definition after_section :: "system \<Rightarrow> nat \<Rightarrow> task \<Rightarrow> section_result \<Rightarrow> system" where
  "after_section s t k res =
     (case res of (q, sig, r) \<Rightarrow>
        \<lparr>que = q,
         calls = (calls s)(t := (case r of Wait _ k' \<Rightarrow> Some k' | Return _ \<Rightarrow> None)),
         blocked = (\<lambda>u. if u = t then (case r of Wait c _ \<Rightarrow> Some c | Return _ \<Rightarrow> None)
                        else if blocked s u \<in> Some ` sig then None else blocked s u),
         put_log = put_log s @ puts_of k r,
         got_log = got_log s @ gets_of r\<rparr>)"

inductive qstep :: "system \<Rightarrow> system \<Rightarrow> bool" where
  call: "calls s t = None \<Longrightarrow> qstep s (s\<lparr>calls := (calls s)(t \<mapsto> k)\<rparr>)"
| run: "calls s t = Some k \<Longrightarrow> blocked s t = None \<Longrightarrow> qstep s (after_section s t k (queue_run k (que s)))"
| spurious: "blocked s t = Some c \<Longrightarrow> qstep s (s\<lparr>blocked := (blocked s)(t := None)\<rparr>)"
| timeout: "calls s t = Some (TimedDeqMany n) \<Longrightarrow> blocked s t = Some Empty \<Longrightarrow>
    qstep s (s\<lparr>calls := (calls s)(t := None), blocked := (blocked s)(t := None)\<rparr>)"

definition system_init :: "queue \<Rightarrow> system" where
  "system_init q = \<lparr>que = q, calls = Map.empty, blocked = Map.empty, put_log = [], got_log = []\<rparr>"

section \<open>The ring buffer as a list\<close>

definition queue_items :: "queue \<Rightarrow> ptr list" where
  "queue_items q =
     (if start q \<le> q_end q then take (q_end q - start q) (drop (start q) (q_buf q))
      else drop (start q) (q_buf q) @ take (q_end q) (q_buf q))"

definition queue_ok :: "queue \<Rightarrow> bool" where
  "queue_ok q \<longleftrightarrow> length (q_buf q) = bufsiz q \<and>
     (start q < bufsiz q \<and> q_end q < bufsiz q \<or> start q = 0 \<and> q_end q = 0)"

lemma queue_items_empty: "queue_ok q \<Longrightarrow> queue_is_empty q \<longleftrightarrow> queue_items q = []"
  by (auto simp: queue_ok_def queue_is_empty_def queue_items_def)

lemma queue_items_full: "queue_ok q \<Longrightarrow> queue_is_full q \<longleftrightarrow> length (queue_items q) + 1 \<ge> bufsiz q"
  by (auto simp: queue_ok_def queue_is_full_def queue_items_def Let_def)

lemma queue_items_bound: "queue_ok q \<Longrightarrow> length (queue_items q) \<le> bufsiz q - 1"
  by (auto simp: queue_ok_def queue_items_def)

lemma queue_put_ok:
  assumes "queue_ok q" "\<not> queue_is_full q"
  shows "queue_ok (queue_put q x)" "queue_items (queue_put q x) = queue_items q @ [x]"
    "bufsiz (queue_put q x) = bufsiz q"
proof -
  have b: "start q < bufsiz q" "q_end q < bufsiz q" "length (q_buf q) = bufsiz q"
    "bufsiz q \<le> q_end q + 1 \<Longrightarrow> 0 < start q" "q_end q + 1 < bufsiz q \<Longrightarrow> start q \<noteq> q_end q + 1"
    using assms by (auto simp: queue_ok_def queue_is_full_def Let_def split: if_splits)
  show "queue_ok (queue_put q x)" "bufsiz (queue_put q x) = bufsiz q"
    using b by (auto simp: queue_ok_def queue_put_def Let_def)
  show "queue_items (queue_put q x) = queue_items q @ [x]"
  proof (cases "start q \<le> q_end q")
    case True
    have "take (Suc (q_end q) - start q) (drop (start q) ((q_buf q)[q_end q := x])) =
      take (q_end q - start q) (drop (start q) (q_buf q)) @ [x]"
      using True b by (simp add: Suc_diff_le take_Suc_conv_app_nth drop_update_swap)
    then show ?thesis using True b by (auto simp: queue_items_def queue_put_def Let_def)
  next
    case False
    then show ?thesis
      using b by (auto simp: queue_items_def queue_put_def Let_def take_Suc_conv_app_nth)
  qed
qed

lemma queue_take_ok:
  assumes "queue_ok q" "\<not> queue_is_empty q" "queue_take q = (x, q')"
  shows "queue_ok q'" "queue_items q = x # queue_items q'" "bufsiz q' = bufsiz q"
proof -
  have b: "start q < bufsiz q" "q_end q < bufsiz q" "length (q_buf q) = bufsiz q" "start q \<noteq> q_end q"
    using assms by (auto simp: queue_ok_def queue_is_empty_def)
  show "queue_ok q'" "bufsiz q' = bufsiz q"
    using b assms(3) by (auto simp: queue_ok_def queue_take_def Let_def)
  have d: "drop (start q) (q_buf q) = q_buf q ! start q # drop (Suc (start q)) (q_buf q)"
    using b by (simp add: Cons_nth_drop_Suc)
  show "queue_items q = x # queue_items q'"
  proof (cases "start q < q_end q")
    case True
    then have "take (q_end q - start q) (drop (start q) (q_buf q)) =
      q_buf q ! start q # take (q_end q - Suc (start q)) (drop (Suc (start q)) (q_buf q))"
      unfolding d by (simp add: take_Cons')
    then show ?thesis using True b assms(3) by (auto simp: queue_items_def queue_take_def Let_def)
  next
    case False
    then show ?thesis
      using b d assms(3) by (auto simp: queue_items_def queue_take_def Let_def split: if_splits)
  qed
qed

section \<open>Sections under the mutex\<close>

lemma queue_enq_many_ok:
  assumes "queue_ok q" "queue_enq_many q xs = (q', sig, r)"
  shows "queue_ok q' \<and> bufsiz q' = bufsiz q \<and> queue_items q' = queue_items q @ puts_of (EnqMany xs) r \<and>
    gets_of r = [] \<and> (queue_is_full q \<longrightarrow> q' = q) \<and> (queue_is_empty q \<longrightarrow> Empty \<in> sig \<or> q' = q) \<and>
    (\<forall>c k. r = Wait c k \<longrightarrow> c = Full \<and> queue_is_full q' \<and> (\<exists>zs. k = EnqMany zs \<and> length zs \<le> length xs))"
  using assms
proof (induction q xs arbitrary: q' sig r rule: queue_enq_many.induct)
  case (2 q x xs)
  show ?case
  proof (cases "queue_is_full q")
    case False
    obtain sig2 where e: "queue_enq_many (queue_put q x) xs = (q', sig2, r)"
      "sig = (if queue_is_empty q then {Empty} else {}) \<union> sig2"
      using 2(3) False by (auto simp: Let_def split: prod.splits)
    note ih = 2(1) [OF False refl queue_put_ok(1) [OF 2(2) False] e(1)]
    have "puts_of (EnqMany (x # xs)) r = x # puts_of (EnqMany xs) r"
      using ih by (cases r) (auto simp: Suc_diff_le)
    then show ?thesis using ih queue_put_ok [OF 2(2) False] e(2) False by fastforce
  qed (use 2(2,3) in auto)
qed auto

lemma deq_loop_ok:
  assumes "queue_ok q" "deq_loop q n = (xs, q')"
  shows "queue_ok q' \<and> bufsiz q' = bufsiz q \<and> queue_items q = xs @ queue_items q'"
  using assms
proof (induction q n arbitrary: xs q' rule: deq_loop.induct)
  case (2 q n)
  show ?case
  proof (cases "queue_is_empty q")
    case False
    obtain x q1 where t: "queue_take q = (x, q1)" by fastforce
    obtain ys where e: "deq_loop q1 n = (ys, q')" "xs = x # ys"
      using 2(3) False t by (auto simp: Let_def split: prod.splits)
    note tk = queue_take_ok [OF 2(2) False t]
    from 2(1) [OF False t [symmetric] refl tk(1) e(1)] show ?thesis using tk e(2) by simp
  qed (use 2(2,3) in auto)
qed simp

lemma deq_section_ok:
  assumes "queue_ok q" "r = (if queue_is_empty q then (q, {}, Wait Empty k)
      else let was_full = queue_is_full q; (xs, q) = deq_loop q n in (q, if was_full then {Full} else {}, Return xs))"
  obtains q' sig e where "r = (q', sig, e)" "queue_ok q'" "bufsiz q' = bufsiz q" "queue_items q = gets_of e @ queue_items q'"
    "queue_is_full q \<Longrightarrow> Full \<in> sig \<or> q' = q" "queue_is_empty q \<Longrightarrow> q' = q" "\<And>c k'. e = Wait c k' \<Longrightarrow> c = Empty \<and> queue_is_empty q'"
proof (cases "queue_is_empty q")
  case False
  obtain xs q' where "deq_loop q n = (xs, q')" by fastforce
  then show ?thesis using deq_loop_ok [OF assms(1), of n xs q'] False assms(2)
    by (intro that [of q' "if queue_is_full q then {Full} else {}" "Return xs"]) auto
qed (use assms in \<open>intro that [of q "{}" "Wait Empty k"]; simp\<close>)

lemma queue_deq_one_loop: "queue_ok q \<Longrightarrow> queue_deq_one q =
  (if queue_is_empty q then (q, {}, Wait Empty DeqOne)
   else let was_full = queue_is_full q; (xs, q) = deq_loop q 1 in (q, if was_full then {Full} else {}, Return xs))"
  by (auto simp: queue_deq_one_def Let_def split: prod.splits)

text \<open>What a section does: it keeps the order of the items, and it broadcasts whenever a waiting thread could go on.\<close>

definition section_ok :: "task \<Rightarrow> queue \<Rightarrow> section_result \<Rightarrow> bool" where
  "section_ok k q res \<longleftrightarrow>
     (case res of (q', sig, r) \<Rightarrow>
        queue_ok q' \<and> bufsiz q' = bufsiz q \<and> queue_items q @ puts_of k r = gets_of r @ queue_items q' \<and>
        (queue_is_full q \<longrightarrow> Full \<in> sig \<or> queue_is_full q') \<and> (queue_is_empty q \<longrightarrow> Empty \<in> sig \<or> queue_is_empty q') \<and>
        (case r of Wait Full _ \<Rightarrow> queue_is_full q' | Wait Empty _ \<Rightarrow> queue_is_empty q' | Return _ \<Rightarrow> True))"

lemma section_ok_deq:
  assumes "queue_ok q" "queue_run k q = (if queue_is_empty q then (q, {}, Wait Empty k)
      else let was_full = queue_is_full q; (xs, q) = deq_loop q n in (q, if was_full then {Full} else {}, Return xs))"
    and "\<And>e. puts_of k e = []"
  shows "section_ok k q (queue_run k q)"
proof -
  obtain q' sig e where r: "queue_run k q = (q', sig, e)" "queue_ok q'" "bufsiz q' = bufsiz q"
    "queue_items q = gets_of e @ queue_items q'" "queue_is_full q \<Longrightarrow> Full \<in> sig \<or> q' = q"
    "queue_is_empty q \<Longrightarrow> q' = q" "\<And>c k'. e = Wait c k' \<Longrightarrow> c = Empty \<and> queue_is_empty q'"
    by (rule deq_section_ok [OF assms(1,2)]) blast
  then show ?thesis using assms(3) by (cases e) (auto simp: section_ok_def)
qed

lemma queue_run_ok:
  assumes "queue_ok q"
  shows "section_ok k q (queue_run k q)"
proof (cases k)
  case (EnqOne x)
  then show ?thesis
    using assms queue_put_ok [OF assms] by (auto simp: section_ok_def queue_enq_one_def Let_def)
next
  case (EnqMany xs)
  obtain q' sig r where e: "queue_enq_many q xs = (q', sig, r)" by (metis prod_cases3)
  then show ?thesis
    using queue_enq_many_ok [OF assms e] EnqMany by (cases r) (auto simp: section_ok_def)
next
  case DeqOne
  show ?thesis unfolding DeqOne
    by (rule section_ok_deq [OF assms, where n = 1])
      (simp_all only: queue_run.simps queue_deq_one_loop [OF assms] puts_of.simps)
next
  case (DeqMany n)
  show ?thesis unfolding DeqMany
    by (rule section_ok_deq [OF assms, where n = n]) (simp_all only: queue_run.simps queue_deq_many_def puts_of.simps)
next
  case (TimedDeqMany n)
  show ?thesis unfolding TimedDeqMany
    by (rule section_ok_deq [OF assms, where n = n]) (simp_all only: queue_run.simps queue_timeddeq_many_def puts_of.simps)
qed

section \<open>Invariant of the threads\<close>

text \<open>The log is the delivered items and then the queued ones; who waits has a reason to.\<close>

definition system_ok :: "nat \<Rightarrow> system \<Rightarrow> bool" where
  "system_ok n s \<longleftrightarrow>
     queue_ok (que s) \<and> bufsiz (que s) = n \<and> put_log s = got_log s @ queue_items (que s) \<and>
     (\<forall>t. blocked s t = Some Full \<longrightarrow> queue_is_full (que s)) \<and>
     (\<forall>t. blocked s t = Some Empty \<longrightarrow> queue_is_empty (que s)) \<and>
     (\<forall>t. blocked s t \<noteq> None \<longrightarrow> calls s t \<noteq> None)"

lemma system_ok_run:
  assumes "system_ok n s"
  shows "system_ok n (after_section s t k (queue_run k (que s)))"
proof -
  obtain q' sig r where r: "queue_run k (que s) = (q', sig, r)" by (metis prod_cases3)
  have so: "section_ok k (que s) (q', sig, r)"
    using queue_run_ok [of "que s" k] assms r by (simp add: system_ok_def)
  have "put_log s @ puts_of k r = (got_log s @ gets_of r) @ queue_items q'"
    using so assms by (simp add: section_ok_def system_ok_def)
  moreover have "queue_is_full q'" if "blocked s u = Some Full" "blocked s u \<notin> Some ` sig" for u
    using so assms that by (auto simp: section_ok_def system_ok_def)
  moreover have "queue_is_empty q'" if "blocked s u = Some Empty" "blocked s u \<notin> Some ` sig" for u
    using so assms that by (auto simp: section_ok_def system_ok_def)
  ultimately show ?thesis
    using so assms unfolding r
    by (auto simp: section_ok_def system_ok_def after_section_def split: section_end.splits cond.splits)
qed

lemma system_ok_step: "qstep s s' \<Longrightarrow> system_ok n s \<Longrightarrow> system_ok n s'"
proof (induction rule: qstep.induct)
  case (run s t k)
  then show ?case by (intro system_ok_run)
qed (auto simp: system_ok_def)

lemma system_ok_reachable:
  assumes "queue_init n (Some b) True True True = Some q" "length b = n" "qstep\<^sup>*\<^sup>* (system_init q) s"
  shows "system_ok n s"
  using assms(3)
proof (induction rule: rtranclp_induct)
  case base
  then show ?case
    using assms(1,2) by (auto simp: system_ok_def system_init_def queue_init_def queue_ok_def queue_items_def)
qed (rule system_ok_step)

definition cache_ok :: "queue_cache \<Rightarrow> bool" where
  "cache_ok cache \<longleftrightarrow> length (c_buf cache) = capacity cache \<and> c_size cache \<le> capacity cache \<and> 0 < capacity cache"

lemma queue_cache_enq_one_ok:
  assumes "cache_ok cache"
  obtains ks cache' where "queue_cache_enq_one cache x = Inr (map EnqMany ks, cache')" "cache_ok cache'"
    "capacity cache' = capacity cache" "\<forall>k\<in>set ks. length k = capacity cache"
    "concat ks @ take (c_size cache') (c_buf cache') = take (c_size cache) (c_buf cache) @ [x]"
proof (cases "c_size cache \<ge> capacity cache")
  case True
  show ?thesis
    using assms True
    by (intro that [of "[c_buf cache]" "cache\<lparr>c_buf := x # replicate (capacity cache - 1) 0, c_size := 1\<rparr>"])
      (auto simp: cache_ok_def queue_cache_enq_one_def queue_cache_flush_def list_update_def gr0_conv_Suc split: nat.split)
next
  case False
  show ?thesis
    using assms False
    by (intro that [of "[]" "cache\<lparr>c_buf := (c_buf cache)[c_size cache := x], c_size := c_size cache + 1\<rparr>"])
      (auto simp: cache_ok_def queue_cache_enq_one_def take_Suc_conv_app_nth)
qed

lemma cache_run_ok:
  assumes "cache_ok cache"
  shows "\<exists>ks cache'. cache_run cache xs = Inr (map EnqMany ks, cache') \<and>
    concat ks @ take (c_size cache') (c_buf cache') = take (c_size cache) (c_buf cache) @ xs \<and>
    (\<forall>k\<in>set ks. length k = capacity cache)"
  using assms
proof (induction xs arbitrary: cache)
  case (Cons x xs)
  obtain ks c where k: "queue_cache_enq_one cache x = Inr (map EnqMany ks, c)" "cache_ok c"
    "capacity c = capacity cache" "\<forall>k\<in>set ks. length k = capacity cache"
    "concat ks @ take (c_size c) (c_buf c) = take (c_size cache) (c_buf cache) @ [x]"
    by (rule queue_cache_enq_one_ok [OF Cons.prems]) blast
  from Cons.IH [OF k(2)] obtain ks' c' where "cache_run c xs = Inr (map EnqMany ks', c')"
    "concat ks' @ take (c_size c') (c_buf c') = take (c_size c) (c_buf c) @ xs"
    "\<forall>k\<in>set ks'. length k = capacity c" by blast
  then have "cache_run cache (x # xs) = Inr (map EnqMany (ks @ ks'), c')" using k(1) by simp
  moreover have "concat (ks @ ks') @ take (c_size c') (c_buf c') = take (c_size cache) (c_buf cache) @ x # xs"
    using \<open>concat ks' @ _ = _\<close> k(5) by simp
  ultimately show ?case using k(3,4) \<open>\<forall>k\<in>set ks'. _\<close> by (intro exI [of _ "ks @ ks'"] exI [of _ c']) auto
qed simp

section \<open>Properties\<close>

text \<open>
  C5: However the calls of the threads interleave, the items delivered so far followed by the items
  in the queue are the items stored, each once and in order, and at most one less than the size
  of the buffer are queued.
\<close>

theorem queue_fifo:
  assumes "queue_init n (Some b) True True True = Some q" "length b = n" "qstep\<^sup>*\<^sup>* (system_init q) s"
  shows "put_log s = got_log s @ queue_items (que s) \<and> length (queue_items (que s)) \<le> n - 1"
  using system_ok_reachable [OF assms] queue_items_bound [of "que s"] by (auto simp: system_ok_def)

definition two_slots :: queue where
  "two_slots = \<lparr>q_buf = [0, 0], bufsiz = 2, start = 0, q_end = 0\<rparr>"

text \<open>Thread 1 stores 7, thread 2 then wants to store two more and has to wait.\<close>

definition sample_system :: system where
  "sample_system =
     \<lparr>que = queue_put two_slots 7, calls = [2 \<mapsto> EnqMany [8, 9]], blocked = [2 \<mapsto> Full], put_log = [7], got_log = []\<rparr>"

lemma sample_system_reachable:
  "queue_init 2 (Some [0, 0]) True True True = Some two_slots" "qstep\<^sup>*\<^sup>* (system_init two_slots) sample_system"
proof -
  show "queue_init 2 (Some [0, 0]) True True True = Some two_slots" by (simp add: queue_init_def two_slots_def)
  note defs = system_init_def two_slots_def after_section_def queue_enq_one_def queue_is_full_def queue_is_empty_def queue_put_def
  define s1 where "s1 = (system_init two_slots)\<lparr>calls := [1 \<mapsto> EnqOne 7]\<rparr>"
  define s2 where "s2 = after_section s1 1 (EnqOne 7) (queue_run (EnqOne 7) (que s1))"
  define s3 where "s3 = s2\<lparr>calls := (calls s2)(2 \<mapsto> EnqMany [8, 9])\<rparr>"
  define s4 where "s4 = after_section s3 2 (EnqMany [8, 9]) (queue_run (EnqMany [8, 9]) (que s3))"
  have r1: "qstep\<^sup>*\<^sup>* (system_init two_slots) s1"
    using qstep.call [of "system_init two_slots" 1 "EnqOne 7"] by (auto simp: system_init_def s1_def)
  have c2: "qstep s1 s2" unfolding s2_def by (rule qstep.run) (simp_all add: s1_def system_init_def)
  have c3: "qstep s2 s3" unfolding s3_def by (rule qstep.call) (simp add: s2_def s1_def defs)
  have c4: "qstep s3 s4" unfolding s4_def by (rule qstep.run) (simp_all add: s3_def s2_def s1_def defs)
  have "s4 = sample_system"
    by (auto simp: sample_system_def s4_def s3_def s2_def s1_def defs fun_eq_iff)
  with rtranclp.rtrancl_into_rtrancl [OF rtranclp.rtrancl_into_rtrancl [OF rtranclp.rtrancl_into_rtrancl [OF r1 c2] c3] c4]
  show "qstep\<^sup>*\<^sup>* (system_init two_slots) sample_system" by simp
qed

theorem queue_fifo_witness:
  "put_log sample_system = got_log sample_system @ queue_items (que sample_system) \<and> length (queue_items (que sample_system)) \<le> 1"
  using queue_fifo [OF sample_system_reachable(1) _ sample_system_reachable(2)] by simp

text \<open>
  C6: No wake-up is lost: a thread waits for space only while the queue is full and for an item only
  while it is empty.  So in a queue of at least two slots producers and consumers never wait at
  the same time, and a call for a single item that meets a waiting thread of the other kind returns
  and wakes all of them.
\<close>

theorem queue_no_lost_wakeup:
  assumes "queue_init n (Some b) True True True = Some q" "length b = n" "qstep\<^sup>*\<^sup>* (system_init q) s"
  shows "(blocked s t = Some Full \<longrightarrow> queue_is_full (que s)) \<and> (blocked s t = Some Empty \<longrightarrow> queue_is_empty (que s)) \<and>
    (2 \<le> n \<longrightarrow> blocked s t = Some Full \<longrightarrow> blocked s u \<noteq> Some Empty) \<and>
    (2 \<le> n \<longrightarrow> blocked s t = Some Full \<longrightarrow>
      (\<exists>x q'. queue_run DeqOne (que s) = (q', {Full}, Return [x]) \<and> \<not> queue_is_full q')) \<and>
    (2 \<le> n \<longrightarrow> blocked s t = Some Empty \<longrightarrow>
      (\<exists>q'. queue_run (EnqOne x) (que s) = (q', {Empty}, Return []) \<and> \<not> queue_is_empty q'))"
proof -
  note ok = system_ok_reachable [OF assms]
  have q: "queue_ok (que s)" "bufsiz (que s) = n" using ok by (auto simp: system_ok_def)
  have w: "blocked s t = Some Full \<Longrightarrow> queue_is_full (que s)" "blocked s t = Some Empty \<Longrightarrow> queue_is_empty (que s)" for t
    using ok by (auto simp: system_ok_def)
  have fe: "\<not> queue_is_empty (que s)" if "2 \<le> n" "queue_is_full (que s)"
    using that queue_items_full [OF q(1)] queue_items_empty [OF q(1)] q(2) by auto
  have "\<exists>x q'. queue_run DeqOne (que s) = (q', {Full}, Return [x]) \<and> \<not> queue_is_full q'"
    if "2 \<le> n" "queue_is_full (que s)"
  proof -
    obtain x q' where t: "queue_take (que s) = (x, q')" by fastforce
    note tk = queue_take_ok [OF q(1) fe [OF that] t]
    have "\<not> queue_is_full q'"
      using queue_items_full [OF tk(1)] tk(2,3) queue_items_bound [OF q(1)] q(2) that(1) by auto
    then show ?thesis using t fe [OF that] that by (simp add: queue_deq_one_def)
  qed
  moreover have "\<exists>q'. queue_run (EnqOne x) (que s) = (q', {Empty}, Return []) \<and> \<not> queue_is_empty q'"
    if "2 \<le> n" "queue_is_empty (que s)"
  proof -
    have nf: "\<not> queue_is_full (que s)" using fe that by blast
    note pk = queue_put_ok [OF q(1) nf, of x]
    show ?thesis using nf that pk queue_items_empty [OF pk(1)] by (simp add: queue_enq_one_def)
  qed
  ultimately show ?thesis using w fe by blast
qed

theorem queue_no_lost_wakeup_witness:
  "queue_is_full (que sample_system) \<and>
   (\<exists>x q'. queue_run DeqOne (que sample_system) = (q', {Full}, Return [x]) \<and> \<not> queue_is_full q')"
proof -
  have "blocked sample_system 2 = Some Full" by (simp add: sample_system_def)
  then show ?thesis
    using queue_no_lost_wakeup [OF sample_system_reachable(1) _ sample_system_reachable(2), of 2 2] by simp
qed

text \<open>
  C34: A cache of positive capacity never writes outside its buffer, and the items it hands to the
  queue, followed by the items it still holds, are the items it was given, in order.  A cache of
  capacity 0 writes outside at once.
\<close>

theorem queue_cache_order:
  assumes "queue_cache_init n (Some b) = Some cache" "length b = n"
  shows "if n = 0 then xs = [] \<or> cache_run cache xs = Inl OutOfBounds
    else \<exists>ks cache'. cache_run cache xs = Inr (map EnqMany ks, cache') \<and>
      concat ks @ take (c_size cache') (c_buf cache') = xs \<and> (\<forall>k\<in>set ks. length k = n)"
proof (cases "n = 0")
  case True
  then show ?thesis
    using assms by (cases xs) (auto simp: queue_cache_init_def queue_cache_enq_one_def queue_cache_flush_def)
next
  case False
  then show ?thesis
    using cache_run_ok [of cache xs] assms by (simp add: queue_cache_init_def cache_ok_def) auto
qed

theorem queue_cache_order_witness:
  "\<exists>ks cache'. cache_run \<lparr>c_buf = [0, 0], capacity = 2, c_size = 0\<rparr> [5, 6, 7] = Inr (map EnqMany ks, cache') \<and>
     concat ks @ take (c_size cache') (c_buf cache') = [5, 6, 7] \<and> (\<forall>k\<in>set ks. length k = 2)"
  using queue_cache_order [of 2 "[0, 0]" "\<lparr>c_buf = [0, 0], capacity = 2, c_size = 0\<rparr>" "[5, 6, 7]"]
  by (simp add: queue_cache_init_def)

end
