(* ===== verification/Databuf.thy ===== *)
theory Databuf
  imports Packet
begin

text \<open>
  The growing byte buffer and the reader of \<^verbatim>\<open>src/databuf\<close>, with sizes as 64-bit words.  Values
  written to a buffer are read back in the same order; a failed allocation leaves the buffer as
  it was; a read never leaves the data unless its length is so large that the sum wraps around.
\<close>

section \<open>Model\<close>

text \<open>Error codes; \<open>None\<close> is the result 0.\<close>

datatype errno = ENOMEM | EFAULT

record databuf =
  d_buf :: mem
  d_capacity :: u64
  d_size :: u64
  d_errors :: bool

record datainbuf =
  in_buf :: mem
  in_size :: u64
  location :: u64
  in_errors :: bool

definition datainbuf_init :: "mem \<Rightarrow> u64 \<Rightarrow> datainbuf" where
  "datainbuf_init buf n = \<lparr>in_buf = buf, in_size = n, location = 0, in_errors = False\<rparr>"

text \<open>Without a block the memory has no readable byte, so its contents do not matter.\<close>

definition databuf_init :: databuf where
  "databuf_init = \<lparr>d_buf = (\<lambda>_. 0), d_capacity = 0, d_size = 0, d_errors = False\<rparr>"

definition databuf_free :: "databuf \<Rightarrow> databuf" where
  "databuf_free buf = buf\<lparr>d_buf := (\<lambda>_. 0), d_capacity := 0, d_size := 0, d_errors := False\<rparr>"

text \<open>
  \<open>rl\<close> is the outcome of \<^verbatim>\<open>realloc\<close>: a null pointer, or a block that keeps the old bytes and has
  the bytes of a given memory behind them.
\<close>

definition databuf_extend :: "mem option \<Rightarrow> databuf \<Rightarrow> u64 \<Rightarrow> databuf \<times> errno option" where
  "databuf_extend rl buf ext =
     (let new_capacity = d_size buf + ext;
          new_capacity = (if new_capacity < d_capacity buf * 2 then d_capacity buf * 2 else new_capacity)
      in case rl of
           None \<Rightarrow> (buf\<lparr>d_errors := True\<rparr>, Some ENOMEM)
         | Some junk \<Rightarrow>
             (buf\<lparr>d_buf := (\<lambda>a. if a < unat (d_capacity buf) then d_buf buf a else junk a),
                  d_capacity := new_capacity\<rparr>, None))"

definition databuf_ensure_extend :: "mem option \<Rightarrow> databuf \<Rightarrow> u64 \<Rightarrow> databuf \<times> errno option" where
  "databuf_ensure_extend rl buf ext =
     (if d_size buf + ext \<le> d_capacity buf then (buf, None) else databuf_extend rl buf ext)"

definition databuf_add_bytes :: "mem option \<Rightarrow> databuf \<Rightarrow> u8 list \<Rightarrow> (databuf \<times> errno option) outcome" where
  "databuf_add_bytes rl buf bytes =
     (case databuf_ensure_extend rl buf (of_nat (length bytes)) of
        (buf, Some e) \<Rightarrow> Inr (buf, Some e)
      | (buf, None) \<Rightarrow>
          if unat (d_size buf) + length bytes \<le> unat (d_capacity buf)
          then Inr (buf\<lparr>d_buf := mem_write (d_buf buf) (unat (d_size buf)) bytes,
                        d_size := d_size buf + of_nat (length bytes)\<rparr>, None)
          else Inl OutOfBounds)"

text \<open>The statements \<^verbatim>\<open>buf->buf[buf->size++] = c\<close>, one for each byte of the list.\<close>

fun databuf_put :: "databuf \<Rightarrow> u8 list \<Rightarrow> databuf outcome" where
  "databuf_put buf [] = Inr buf"
| "databuf_put buf (c # cs) =
     (if d_size buf < d_capacity buf
      then databuf_put (buf\<lparr>d_buf := (d_buf buf)(unat (d_size buf) := c), d_size := d_size buf + 1\<rparr>) cs
      else Inl OutOfBounds)"

definition databuf_add_u64 :: "mem option \<Rightarrow> databuf \<Rightarrow> u64 \<Rightarrow> (databuf \<times> errno option) outcome" where
  "databuf_add_u64 rl buf v =
     (case databuf_ensure_extend rl buf 8 of
        (buf, Some e) \<Rightarrow> Inr (buf, Some e)
      | (buf, None) \<Rightarrow>
          and_then (databuf_put buf
            [ucast (drop_bit 56 v AND 0xFF), ucast (drop_bit 48 v AND 0xFF), ucast (drop_bit 40 v AND 0xFF),
             ucast (drop_bit 32 v AND 0xFF), ucast (drop_bit 24 v AND 0xFF), ucast (drop_bit 16 v AND 0xFF),
             ucast (drop_bit 8 v AND 0xFF), ucast (drop_bit 0 v AND 0xFF)])
            (\<lambda>buf. Inr (buf, None)))"

definition databuf_add_u32 :: "mem option \<Rightarrow> databuf \<Rightarrow> u32 \<Rightarrow> (databuf \<times> errno option) outcome" where
  "databuf_add_u32 rl buf v =
     (case databuf_ensure_extend rl buf 4 of
        (buf, Some e) \<Rightarrow> Inr (buf, Some e)
      | (buf, None) \<Rightarrow>
          and_then (databuf_put buf
            [ucast (drop_bit 24 v AND 0xFF), ucast (drop_bit 16 v AND 0xFF),
             ucast (drop_bit 8 v AND 0xFF), ucast (drop_bit 0 v AND 0xFF)])
            (\<lambda>buf. Inr (buf, None)))"

text \<open>The statements \<^verbatim>\<open>u |= (uint8_t)buf->buf[buf->location++]; u <<= 8\<close>, for \<open>n\<close> bytes.\<close>

fun datainbuf_shift :: "nat \<Rightarrow> 'a::len word \<Rightarrow> datainbuf \<Rightarrow> ('a word \<times> datainbuf) outcome" where
  "datainbuf_shift 0 u buf = Inr (u, buf)"
| "datainbuf_shift (Suc n) u buf =
     (if location buf < in_size buf
      then datainbuf_shift n (push_bit 8 u OR ucast (in_buf buf (unat (location buf)))) (buf\<lparr>location := location buf + 1\<rparr>)
      else Inl OutOfBounds)"

text \<open>The result is \<open>None\<close> for \<^verbatim>\<open>-EFAULT\<close>, which leaves the reader alone.\<close>

definition datainbuf_get_u64 :: "datainbuf \<Rightarrow> (u64 \<times> datainbuf) option outcome" where
  "datainbuf_get_u64 buf =
     (if location buf + 8 > in_size buf then Inr None
      else and_then (datainbuf_shift 8 0 buf) (\<lambda>r. Inr (Some r)))"

definition datainbuf_get_u32 :: "datainbuf \<Rightarrow> (u32 \<times> datainbuf) option outcome" where
  "datainbuf_get_u32 buf =
     (if location buf + 4 > in_size buf then Inr None
      else and_then (datainbuf_shift 4 0 buf) (\<lambda>r. Inr (Some r)))"

text \<open>The 16-bit value is assembled in a 32-bit variable.\<close>

definition datainbuf_get_u16 :: "datainbuf \<Rightarrow> (u16 \<times> datainbuf) option outcome" where
  "datainbuf_get_u16 buf =
     (if location buf + 2 > in_size buf then Inr None
      else and_then (datainbuf_shift 2 (0 :: u32) buf) (\<lambda>(u, buf). Inr (Some (ucast u, buf))))"

definition datainbuf_get_u8 :: "datainbuf \<Rightarrow> (u8 \<times> datainbuf) option outcome" where
  "datainbuf_get_u8 buf =
     (if location buf + 1 > in_size buf then Inr None
      else and_then (datainbuf_shift 1 0 buf) (\<lambda>r. Inr (Some r)))"

definition datainbuf_get_bytes :: "datainbuf \<Rightarrow> u64 \<Rightarrow> (u8 list \<times> datainbuf) option outcome" where
  "datainbuf_get_bytes buf n =
     (if location buf + n > in_size buf then Inr None
      else if unat (location buf) + unat n \<le> unat (in_size buf)
      then Inr (Some (mem_bytes (in_buf buf) (unat (location buf)) (unat n), buf\<lparr>location := location buf + n\<rparr>))
      else Inl OutOfBounds)"

definition datainbuf_eof :: "datainbuf \<Rightarrow> bool" where
  "datainbuf_eof buf \<longleftrightarrow> in_size buf = location buf"

section \<open>Appending\<close>

definition databuf_ok :: "databuf \<Rightarrow> bool" where
  "databuf_ok buf \<longleftrightarrow> d_size buf \<le> d_capacity buf"

definition databuf_bytes :: "databuf \<Rightarrow> u8 list" where
  "databuf_bytes buf = mem_bytes (d_buf buf) 0 (unat (d_size buf))"

lemma unat_u64_less: "unat (x :: u64) < 2 ^ 64"
  using unsigned_less [of x] by simp

lemma unat_add_u64: "unat x + n < 2 ^ 64 \<Longrightarrow> unat (x + of_nat n :: u64) = unat x + n"
  by (simp add: unat_word_ariths take_bit_nat_eq_self unsigned_of_nat)

lemma mem_bytes_cong_le: "(\<And>a. a < n \<Longrightarrow> m a = m' a) \<Longrightarrow> mem_bytes m 0 n = mem_bytes m' 0 n"
  by (simp add: mem_bytes_def)

lemma mem_bytes_write: "mem_bytes (mem_write m n bs) 0 (n + length bs) = mem_bytes m 0 n @ bs"
  by (rule nth_equalityI) (auto simp: mem_write_def nth_append)

text \<open>Making room either succeeds and keeps the contents, or fails and changes nothing but the error flag.\<close>

lemma databuf_ensure_extend_ok:
  assumes "databuf_ok buf" "unat (d_size buf) + n < 2 ^ 64"
  shows "rl = None \<and> unat (d_capacity buf) < unat (d_size buf) + n \<and>
      databuf_ensure_extend rl buf (of_nat n) = (buf\<lparr>d_errors := True\<rparr>, Some ENOMEM) \<or>
    (\<exists>buf'. databuf_ensure_extend rl buf (of_nat n) = (buf', None) \<and> d_size buf' = d_size buf \<and>
      unat (d_size buf) + n \<le> unat (d_capacity buf') \<and> databuf_bytes buf' = databuf_bytes buf \<and>
      d_errors buf' = d_errors buf)"
proof -
  have s: "unat (d_size buf + of_nat n) = unat (d_size buf) + n" using assms(2) by (rule unat_add_u64)
  have le: "unat (d_size buf) \<le> unat (d_capacity buf)" using assms(1) by (simp add: databuf_ok_def word_le_nat_alt)
  show ?thesis
  proof (cases "unat (d_size buf) + n \<le> unat (d_capacity buf)")
    case True
    then show ?thesis using s by (simp add: databuf_ensure_extend_def word_le_nat_alt)
  next
    case False
    then have e: "databuf_ensure_extend rl buf (of_nat n) = databuf_extend rl buf (of_nat n)"
      using s by (simp add: databuf_ensure_extend_def word_le_nat_alt)
    show ?thesis
    proof (cases rl)
      case None
      then show ?thesis using False unfolding e by (simp add: databuf_extend_def)
    next
      case (Some junk)
      have "mem_bytes (\<lambda>a. if a < unat (d_capacity buf) then d_buf buf a else junk a) 0 (unat (d_size buf)) = databuf_bytes buf"
        unfolding databuf_bytes_def by (rule mem_bytes_cong_le) (use le in auto)
      then show ?thesis
        unfolding e using Some s by (auto simp: databuf_extend_def Let_def databuf_bytes_def word_less_nat_alt)
    qed
  qed
qed

lemma databuf_put_ok:
  assumes "unat (d_size buf) + length cs \<le> unat (d_capacity buf)"
  shows "databuf_put buf cs = Inr (buf\<lparr>d_buf := mem_write (d_buf buf) (unat (d_size buf)) cs,
    d_size := d_size buf + of_nat (length cs)\<rparr>)"
  using assms
proof (induction cs arbitrary: buf)
  case Nil
  have "mem_write m k [] = m" for m k by (auto simp: mem_write_def fun_eq_iff)
  then show ?case by simp
next
  case (Cons c cs)
  have lt: "unat (d_size buf) + length cs < 2 ^ 64" "unat (d_size buf) < unat (d_capacity buf)"
    using Cons.prems unat_u64_less [of "d_capacity buf"] by auto
  then have s: "unat (d_size buf + 1) = unat (d_size buf) + 1"
    using unat_add_u64 [of "d_size buf" 1] unat_u64_less [of "d_capacity buf"] by simp
  have m: "mem_write ((d_buf buf)(unat (d_size buf) := c)) (Suc (unat (d_size buf))) cs =
      mem_write (d_buf buf) (unat (d_size buf)) (c # cs)"
    by (auto simp: mem_write_def fun_eq_iff nth_Cons')
  show ?case
    using Cons.IH [of "buf\<lparr>d_buf := (d_buf buf)(unat (d_size buf) := c), d_size := d_size buf + 1\<rparr>"] Cons.prems lt(2) s m m [unfolded fun_upd_def]
    by (simp add: word_less_nat_alt add.assoc)
qed

section \<open>Values as bytes\<close>

definition be_bytes :: "nat \<Rightarrow> 'a::len word \<Rightarrow> u8 list" where
  "be_bytes n v = map (nth_byte v) (rev [0..<n])"

lemma be_bytes_Suc: "be_bytes (Suc n) v = nth_byte v n # be_bytes n v"
  by (simp add: be_bytes_def)

lemma length_be_bytes [simp]: "length (be_bytes n v) = n"
  by (simp add: be_bytes_def)

lemma foldl_be_bytes:
  fixes u v :: "'a::len word"
  shows "foldl (\<lambda>u b. push_bit 8 u OR ucast b) u (be_bytes n v) = push_bit (8 * n) u OR take_bit (8 * n) v"
proof (induction n arbitrary: u)
  case 0
  then show ?case by (simp add: be_bytes_def)
next
  case (Suc n)
  have "push_bit (8 * n) (push_bit 8 u OR ucast (nth_byte v n)) OR take_bit (8 * n) v =
    push_bit (8 * Suc n) u OR take_bit (8 * Suc n) v"
    by (rule bit_word_eqI) (auto simp: bit_simps nth_byte_def add.commute [of 8])
  then show ?case using Suc by (simp add: be_bytes_Suc)
qed

lemma ucast_drop_bit_byte: "ucast (drop_bit (8 * n) (v :: 'a::len word) AND 0xFF) = nth_byte v n"
proof -
  have ff: "(0xFF :: 'a word) = mask 8" by (simp add: mask_eq_exp_minus_1)
  show ?thesis unfolding ff
    by (rule bit_word_eqI) (auto simp: nth_byte_def bit_simps dest: bit_imp_le_length)
qed

lemma u64_bytes:
  fixes v :: u64
  shows "[ucast (drop_bit 56 v AND 0xFF), ucast (drop_bit 48 v AND 0xFF), ucast (drop_bit 40 v AND 0xFF),
     ucast (drop_bit 32 v AND 0xFF), ucast (drop_bit 24 v AND 0xFF), ucast (drop_bit 16 v AND 0xFF),
     ucast (drop_bit 8 v AND 0xFF), ucast (drop_bit 0 v AND 0xFF)] = be_bytes 8 v"
  using ucast_drop_bit_byte [of 7 v] ucast_drop_bit_byte [of 6 v] ucast_drop_bit_byte [of 5 v] ucast_drop_bit_byte [of 4 v]
    ucast_drop_bit_byte [of 3 v] ucast_drop_bit_byte [of 2 v] ucast_drop_bit_byte [of 1 v] ucast_drop_bit_byte [of 0 v]
  by (simp add: be_bytes_def upt_rec numeral_eq_Suc)

lemma u32_bytes:
  fixes v :: u32
  shows "[ucast (drop_bit 24 v AND 0xFF), ucast (drop_bit 16 v AND 0xFF),
     ucast (drop_bit 8 v AND 0xFF), ucast (drop_bit 0 v AND 0xFF)] = be_bytes 4 v"
  using ucast_drop_bit_byte [of 3 v] ucast_drop_bit_byte [of 2 v] ucast_drop_bit_byte [of 1 v] ucast_drop_bit_byte [of 0 v]
  by (simp add: be_bytes_def upt_rec numeral_eq_Suc)

datatype datum = U64 u64 | U32 u32 | Bytes "u8 list"

fun datum_bytes :: "datum \<Rightarrow> u8 list" where
  "datum_bytes (U64 v) = be_bytes 8 v"
| "datum_bytes (U32 v) = be_bytes 4 v"
| "datum_bytes (Bytes bs) = bs"

fun databuf_add :: "mem option \<Rightarrow> databuf \<Rightarrow> datum \<Rightarrow> (databuf \<times> errno option) outcome" where
  "databuf_add rl buf (U64 v) = databuf_add_u64 rl buf v"
| "databuf_add rl buf (U32 v) = databuf_add_u32 rl buf v"
| "databuf_add rl buf (Bytes bs) = databuf_add_bytes rl buf bs"

text \<open>Reading a value of the same kind and length as a given one.\<close>

fun datainbuf_get :: "datum \<Rightarrow> datainbuf \<Rightarrow> (datum \<times> datainbuf) option outcome" where
  "datainbuf_get (U64 _) buf = and_then (datainbuf_get_u64 buf) (\<lambda>r. Inr (map_option (apfst U64) r))"
| "datainbuf_get (U32 _) buf = and_then (datainbuf_get_u32 buf) (\<lambda>r. Inr (map_option (apfst U32) r))"
| "datainbuf_get (Bytes bs) buf = and_then (datainbuf_get_bytes buf (of_nat (length bs))) (\<lambda>r. Inr (map_option (apfst Bytes) r))"

lemma databuf_add_ok:
  assumes "databuf_ok buf" "unat (d_size buf) + length (datum_bytes d) < 2 ^ 64"
  shows "rl = None \<and> databuf_add rl buf d = Inr (buf\<lparr>d_errors := True\<rparr>, Some ENOMEM) \<or>
    (\<exists>buf'. databuf_add rl buf d = Inr (buf', None) \<and> databuf_ok buf' \<and>
      databuf_bytes buf' = databuf_bytes buf @ datum_bytes d \<and>
      unat (d_size buf') = unat (d_size buf) + length (datum_bytes d))"
proof -
  let ?n = "length (datum_bytes d)"
  let ?b = "\<lambda>buf. buf\<lparr>d_buf := mem_write (d_buf buf) (unat (d_size buf)) (datum_bytes d), d_size := d_size buf + of_nat ?n\<rparr>"
  have add: "databuf_add rl buf d = (case databuf_ensure_extend rl buf (of_nat ?n) of
      (buf, Some e) \<Rightarrow> Inr (buf, Some e)
    | (buf, None) \<Rightarrow> Inr (?b buf, None))"
    if "\<And>buf'. databuf_ensure_extend rl buf (of_nat ?n) = (buf', None) \<Longrightarrow> unat (d_size buf') + ?n \<le> unat (d_capacity buf')"
    using that databuf_put_ok [of _ "datum_bytes d"]
    by (cases d) (auto simp: databuf_add_u64_def [unfolded u64_bytes] databuf_add_u32_def [unfolded u32_bytes] databuf_add_bytes_def
        simp del: databuf_put.simps split: prod.split option.split)
  from databuf_ensure_extend_ok [OF assms, of rl] show ?thesis
  proof (elim disjE exE conjE)
    fix buf' assume e: "databuf_ensure_extend rl buf (of_nat ?n) = (buf', None)" "d_size buf' = d_size buf"
      "unat (d_size buf) + ?n \<le> unat (d_capacity buf')" "databuf_bytes buf' = databuf_bytes buf"
    have s: "unat (d_size buf' + of_nat ?n) = unat (d_size buf') + ?n" using assms(2) e(2) by (simp add: unat_add_u64)
    have "databuf_bytes (?b buf') = databuf_bytes buf @ datum_bytes d"
      using e(4) mem_bytes_write [of "d_buf buf'" "unat (d_size buf')" "datum_bytes d"] by (simp add: databuf_bytes_def s)
    then show ?thesis using add e s by (simp add: databuf_ok_def word_le_nat_alt)
  qed (use add in simp)
qed

section \<open>Reading\<close>

lemma datainbuf_shift_ok:
  assumes "unat (location buf) + n \<le> unat (in_size buf)"
  shows "datainbuf_shift n u buf =
    Inr (foldl (\<lambda>u b. push_bit 8 u OR ucast b) u (mem_bytes (in_buf buf) (unat (location buf)) n),
         buf\<lparr>location := location buf + of_nat n\<rparr>)"
  using assms
proof (induction n arbitrary: u buf)
  case 0
  then show ?case by (simp add: mem_bytes_def)
next
  case (Suc n)
  have lt: "unat (location buf) < unat (in_size buf)" using Suc.prems by simp
  then have l: "unat (location buf + 1) = Suc (unat (location buf))"
    using unat_add_u64 [of "location buf" 1] unat_u64_less [of "in_size buf"] by simp
  show ?case
    using Suc.IH [of "buf\<lparr>location := location buf + 1\<rparr>"] Suc.prems lt l
    by (simp add: word_less_nat_alt mem_bytes_Suc add.assoc)
qed

lemma datainbuf_get_ok:
  assumes "unat (location buf) + length (datum_bytes d) \<le> unat (in_size buf)"
    and "mem_bytes (in_buf buf) (unat (location buf)) (length (datum_bytes d)) = datum_bytes d"
  shows "datainbuf_get d buf = Inr (Some (d, buf\<lparr>location := location buf + of_nat (length (datum_bytes d))\<rparr>))"
proof -
  let ?n = "length (datum_bytes d)"
  have lt: "unat (location buf) + ?n < 2 ^ 64" using assms(1) unat_u64_less [of "in_size buf"] by simp
  have c: "\<not> location buf + of_nat ?n > in_size buf"
    using assms(1) unat_add_u64 [OF lt] by (simp add: word_less_nat_alt)
  show ?thesis
  proof (cases d)
    case (U64 v)
    have "foldl (\<lambda>u b. push_bit 8 u OR ucast b) 0 (be_bytes 8 v) = v" unfolding foldl_be_bytes by (simp add: take_bit_word_eq_self)
    then show ?thesis using c assms U64 datainbuf_shift_ok [of buf 8 "0 :: u64"]
      by (simp add: datainbuf_get_u64_def del: datainbuf_shift.simps)
  next
    case (U32 v)
    have "foldl (\<lambda>u b. push_bit 8 u OR ucast b) 0 (be_bytes 4 v) = v" unfolding foldl_be_bytes by (simp add: take_bit_word_eq_self)
    then show ?thesis using c assms U32 datainbuf_shift_ok [of buf 4 "0 :: u32"]
      by (simp add: datainbuf_get_u32_def del: datainbuf_shift.simps)
  next
    case (Bytes bs)
    have "unat (of_nat (length bs) :: u64) = length bs"
      using lt Bytes by (simp add: unsigned_of_nat take_bit_nat_eq_self)
    then show ?thesis using c assms Bytes by (simp add: datainbuf_get_bytes_def)
  qed
qed

section \<open>Properties\<close>

text \<open>Writing a list of values, each with the outcome of \<^verbatim>\<open>realloc\<close>, up to the first error.\<close>

fun databuf_write :: "databuf \<Rightarrow> (mem option \<times> datum) list \<Rightarrow> (databuf \<times> errno option) outcome" where
  "databuf_write buf [] = Inr (buf, None)"
| "databuf_write buf ((rl, d) # ds) =
     and_then (databuf_add rl buf d) (\<lambda>(buf, e). case e of None \<Rightarrow> databuf_write buf ds | Some _ \<Rightarrow> Inr (buf, e))"

fun datainbuf_read :: "datum list \<Rightarrow> datainbuf \<Rightarrow> (datum list \<times> datainbuf) option outcome" where
  "datainbuf_read [] buf = Inr (Some ([], buf))"
| "datainbuf_read (d # ds) buf =
     and_then (datainbuf_get d buf) (\<lambda>r. case r of
        None \<Rightarrow> Inr None
      | Some (x, buf) \<Rightarrow> and_then (datainbuf_read ds buf) (\<lambda>r. Inr (map_option (apfst ((#) x)) r)))"

definition total_bytes :: "datum list \<Rightarrow> u8 list" where
  "total_bytes ds = concat (map datum_bytes ds)"

lemma total_bytes_simps [simp]: "total_bytes [] = []" "total_bytes (d # ds) = datum_bytes d @ total_bytes ds"
  by (simp_all add: total_bytes_def)

text \<open>The values \<open>ps\<close> were stored: all of them, or those before the one whose allocation failed.\<close>

definition stored :: "databuf \<Rightarrow> (mem option \<times> datum) list \<Rightarrow> databuf \<Rightarrow> errno option \<Rightarrow> datum list \<Rightarrow> bool" where
  "stored buf ds buf' e ps \<longleftrightarrow>
     (case e of
        None \<Rightarrow> ps = map snd ds
      | Some e \<Rightarrow> e = ENOMEM \<and> (\<exists>ds0 d ds1 buf0. ds = ds0 @ (None, d) # ds1 \<and> ps = map snd ds0 \<and>
          databuf_write buf ds0 = Inr (buf0, None) \<and> databuf_add None buf0 d = Inr (buf', Some ENOMEM)))"

lemma databuf_write_ok:
  assumes "databuf_ok buf" "unat (d_size buf) + length (total_bytes (map snd ds)) < 2 ^ 64"
  shows "\<exists>buf' e ps. databuf_write buf ds = Inr (buf', e) \<and> databuf_ok buf' \<and>
    databuf_bytes buf' = databuf_bytes buf @ total_bytes ps \<and> stored buf ds buf' e ps"
  using assms
proof (induction ds arbitrary: buf)
  case Nil
  then show ?case by (simp add: stored_def)
next
  case (Cons x ds)
  obtain rl d where x: "x = (rl, d)" by fastforce
  from databuf_add_ok [OF Cons.prems(1), of d rl] Cons.prems(2) x
  consider "rl = None" "databuf_add rl buf d = Inr (buf\<lparr>d_errors := True\<rparr>, Some ENOMEM)"
    | c where "databuf_add rl buf d = Inr (c, None)" "databuf_ok c" "databuf_bytes c = databuf_bytes buf @ datum_bytes d"
      "unat (d_size c) = unat (d_size buf) + length (datum_bytes d)" by auto
  then show ?case
  proof cases
    case 1
    then have "stored buf (x # ds) (buf\<lparr>d_errors := True\<rparr>) (Some ENOMEM) []"
      using x unfolding stored_def by (fastforce intro: exI [of _ "[]"])
    then show ?thesis using 1 x Cons.prems(1)
      by (intro exI [of _ "buf\<lparr>d_errors := True\<rparr>"] exI [of _ "Some ENOMEM"] exI [of _ "[]"])
        (simp add: databuf_ok_def databuf_bytes_def)
  next
    case 2
    from Cons.IH [OF 2(2)] 2(4) Cons.prems(2) x obtain buf' e ps where i: "databuf_write c ds = Inr (buf', e)" "databuf_ok buf'"
      "databuf_bytes buf' = databuf_bytes c @ total_bytes ps" "stored c ds buf' e ps" by auto
    have "stored buf (x # ds) buf' e (d # ps)"
    proof (cases e)
      case None
      then show ?thesis using i(4) x by (simp add: stored_def)
    next
      case (Some e')
      with i(4) obtain ds0 v ds1 buf0 where "ds = ds0 @ (None, v) # ds1" "ps = map snd ds0" "e' = ENOMEM"
        "databuf_write c ds0 = Inr (buf0, None)" "databuf_add None buf0 v = Inr (buf', Some ENOMEM)" by (auto simp: stored_def)
      then show ?thesis using 2(1) x Some
        by (simp add: stored_def) (rule exI [of _ "x # ds0"], simp)
    qed
    then show ?thesis using 2 x i(1-3) by (intro exI [of _ buf'] exI [of _ e] exI [of _ "d # ps"]) simp
  qed
qed

lemma mem_bytes_append: "mem_bytes m p (a + b) = mem_bytes m p a @ mem_bytes m (p + a) b"
  by (rule nth_equalityI) (auto simp: nth_append)

lemma datainbuf_read_ok:
  assumes "unat (location buf) + length (total_bytes ds) \<le> unat (in_size buf)"
    and "mem_bytes (in_buf buf) (unat (location buf)) (length (total_bytes ds)) = total_bytes ds"
  shows "datainbuf_read ds buf = Inr (Some (ds, buf\<lparr>location := location buf + of_nat (length (total_bytes ds))\<rparr>))"
  using assms
proof (induction ds arbitrary: buf)
  case (Cons d ds)
  let ?n = "length (datum_bytes d)"
  let ?b = "buf\<lparr>location := location buf + of_nat ?n\<rparr>"
  have m: "mem_bytes (in_buf buf) (unat (location buf)) ?n = datum_bytes d"
    "mem_bytes (in_buf buf) (unat (location buf) + ?n) (length (total_bytes ds)) = total_bytes ds"
    using Cons.prems(2) by (simp_all add: mem_bytes_append)
  have "unat (location buf) + ?n < 2 ^ 64" using Cons.prems(1) unat_u64_less [of "in_size buf"] by simp
  from unat_add_u64 [OF this] have "datainbuf_read ds ?b =
      Inr (Some (ds, buf\<lparr>location := location buf + of_nat ?n + of_nat (length (total_bytes ds))\<rparr>))"
    using Cons.IH [of ?b] m(2) Cons.prems(1) by simp
  then show ?case using datainbuf_get_ok [of buf d] m(1) Cons.prems(1) by (simp add: add.assoc)
qed simp

text \<open>
  C11: Values written to a fresh buffer, of less than \<open>2^64\<close> bytes in all, are read back as they were,
  up to the end of the data.  When an allocation fails, for the value \<open>d\<close> after the values \<open>ds0\<close> have been
  written, the call reports \<^verbatim>\<open>-ENOMEM\<close> and exactly the values \<open>ds0\<close> are read back from the buffer that
  it leaves; no store leaves the block in either case.
\<close>

theorem databuf_roundtrip:
  assumes "length (total_bytes (map snd ds)) < 2 ^ 64"
  shows "\<exists>buf e ps inb. databuf_write databuf_init ds = Inr (buf, e) \<and>
    datainbuf_read ps (datainbuf_init (d_buf buf) (d_size buf)) = Inr (Some (ps, inb)) \<and> datainbuf_eof inb \<and>
    (case e of
       None \<Rightarrow> ps = map snd ds
     | Some e \<Rightarrow> e = ENOMEM \<and> (\<exists>ds0 d ds1 buf0. ds = ds0 @ (None, d) # ds1 \<and> ps = map snd ds0 \<and>
         databuf_write databuf_init ds0 = Inr (buf0, None) \<and> databuf_add None buf0 d = Inr (buf, Some ENOMEM)))"
proof -
  have "databuf_ok databuf_init" "databuf_bytes databuf_init = []" "d_size databuf_init = 0"
    by (simp_all add: databuf_ok_def databuf_bytes_def databuf_init_def mem_bytes_def)
  with databuf_write_ok [of databuf_init ds] assms obtain buf e ps where w: "databuf_write databuf_init ds = Inr (buf, e)"
    "databuf_bytes buf = total_bytes ps" "stored databuf_init ds buf e ps"
    by auto
  have s: "unat (d_size buf) = length (total_bytes ps)" using arg_cong [OF w(2), of length] by (simp add: databuf_bytes_def)
  have d: "d_size buf = of_nat (length (total_bytes ps))" by (simp add: s [symmetric])
  let ?inb = "(datainbuf_init (d_buf buf) (d_size buf))\<lparr>location := d_size buf\<rparr>"
  have "datainbuf_read ps (datainbuf_init (d_buf buf) (d_size buf)) = Inr (Some (ps, ?inb))"
    using datainbuf_read_ok [of "datainbuf_init (d_buf buf) (d_size buf)" ps] s d w(2)
    by (simp add: datainbuf_init_def databuf_bytes_def)
  moreover have "datainbuf_eof ?inb" by (simp add: datainbuf_eof_def datainbuf_init_def)
  ultimately show ?thesis using w(1,3) unfolding stored_def by blast
qed

text \<open>The second value needs a larger block, which the allocator refuses: the first value is kept.\<close>

theorem databuf_roundtrip_witness:
  "\<exists>buf inb. databuf_write databuf_init [(Some (\<lambda>_. 9), U32 1), (None, U64 2), (Some (\<lambda>_. 9), Bytes [7, 8])] = Inr (buf, Some ENOMEM) \<and>
    datainbuf_read [U32 1] (datainbuf_init (d_buf buf) (d_size buf)) = Inr (Some ([U32 1], inb)) \<and> datainbuf_eof inb"
proof -
  let ?ds = "[(Some (\<lambda>_. 9), U32 1), (None, U64 2), (Some (\<lambda>_. 9), Bytes [7, 8])] :: (mem option \<times> datum) list"
  obtain buf e ps inb where r: "databuf_write databuf_init ?ds = Inr (buf, e)"
    "datainbuf_read ps (datainbuf_init (d_buf buf) (d_size buf)) = Inr (Some (ps, inb))" "datainbuf_eof inb"
    "case e of None \<Rightarrow> ps = map snd ?ds
     | Some e \<Rightarrow> e = ENOMEM \<and> (\<exists>ds0 d ds1 buf0. ?ds = ds0 @ (None, d) # ds1 \<and> ps = map snd ds0 \<and>
         databuf_write databuf_init ds0 = Inr (buf0, None) \<and> databuf_add None buf0 d = Inr (buf, Some ENOMEM))"
    using databuf_roundtrip [of ?ds] by fastforce
  have e: "e = Some ENOMEM" using r(1)
    by (auto simp: databuf_init_def databuf_add_u32_def databuf_add_u64_def databuf_ensure_extend_def databuf_extend_def Let_def)
  with r(4) obtain ds0 d ds1 where "?ds = ds0 @ (None, d) # ds1" "ps = map snd ds0" by auto
  then have "ps = [U32 1]" by (auto simp: Cons_eq_append_conv)
  then show ?thesis using r(1-3) e by blast
qed

text \<open>
  C35: A read of \<open>n\<close> bytes gives them or reports \<^verbatim>\<open>-EFAULT\<close> and stays inside the data, as long as the
  position plus \<open>n\<close> is below \<open>2^64\<close>; when the sum wraps around, the check passes whenever the
  wrapped sum is small enough and the copy leaves the data.
\<close>

theorem datainbuf_get_bytes_bounds:
  assumes "location buf \<le> in_size buf"
  shows "datainbuf_get_bytes buf n =
    (if unat (location buf) + unat n < 2 ^ 64
     then if unat (location buf) + unat n \<le> unat (in_size buf)
          then Inr (Some (mem_bytes (in_buf buf) (unat (location buf)) (unat n), buf\<lparr>location := location buf + n\<rparr>))
          else Inr None
     else if location buf + n \<le> in_size buf then Inl OutOfBounds else Inr None)"
proof (cases "unat (location buf) + unat n < 2 ^ 64")
  case True
  then have "unat (location buf + n) = unat (location buf) + unat n" using unat_add_u64 [of "location buf" "unat n"] by simp
  then show ?thesis using True by (simp add: datainbuf_get_bytes_def word_less_nat_alt)
next
  case False
  then show ?thesis
    using unat_u64_less [of "in_size buf"] by (auto simp: datainbuf_get_bytes_def not_le not_less)
qed

theorem datainbuf_get_bytes_bounds_witness:
  "datainbuf_get_bytes \<lparr>in_buf = \<lambda>_. 0, in_size = 16, location = 12, in_errors = False\<rparr> 0xFFFFFFFFFFFFFFF8 = Inl OutOfBounds"
  using datainbuf_get_bytes_bounds [of "\<lparr>in_buf = \<lambda>_. 0, in_size = 16, location = 12, in_errors = False\<rparr>" "0xFFFFFFFFFFFFFFF8"]
  by simp

end
