(* ===== verification/TreeStore.thy ===== *)
theory TreeStore
  imports Prelude "HOL-Library.Monad_Syntax"
begin

text \<open>
  Binary trees of nodes with child and parent pointers in a store, as the red-black tree, the AVL
  tree and the timer heap of the repository have them, and the operations whose code these
  components share.  A call that reads through a null pointer, aborts or does not return has no result.
\<close>

section \<open>Store\<close>

text \<open>
  The tag of a node is the field \<^verbatim>\<open>is_black\<close> of \<^verbatim>\<open>struct rb_tree_node\<close> or the
  field \<^verbatim>\<open>balance\<close> of \<^verbatim>\<open>struct avl_tree_node\<close>.
\<close>

record 'b tree_node =
  tag :: 'b
  left :: ptr
  right :: ptr
  parent :: ptr

text \<open>The nodes at their addresses, and the root of the tree at hand; the null pointer is \<open>0\<close>.\<close>

record 'b tree_store =
  nodes :: "ptr \<Rightarrow> 'b tree_node"
  root :: ptr

type_synonym ('b, 'z) tstore = "('b, 'z) tree_store_scheme"

definition node_of :: "('b, 'z) tstore \<Rightarrow> ptr \<Rightarrow> 'b tree_node option" where
  "node_of t p = (if p = 0 then None else Some (nodes t p))"

definition set_node :: "('b tree_node \<Rightarrow> 'b tree_node) \<Rightarrow> ('b, 'z) tstore \<Rightarrow> ptr \<Rightarrow> ('b, 'z) tstore option" where
  "set_node f t p = (if p = 0 then None else Some (t\<lparr>nodes := (nodes t)(p := f (nodes t p))\<rparr>))"

abbreviation get_tag :: "('b, 'z) tstore \<Rightarrow> ptr \<Rightarrow> 'b option" where
  "get_tag t p \<equiv> map_option tag (node_of t p)"

abbreviation get_left :: "('b, 'z) tstore \<Rightarrow> ptr \<Rightarrow> ptr option" where
  "get_left t p \<equiv> map_option left (node_of t p)"

abbreviation get_right :: "('b, 'z) tstore \<Rightarrow> ptr \<Rightarrow> ptr option" where
  "get_right t p \<equiv> map_option right (node_of t p)"

abbreviation get_parent :: "('b, 'z) tstore \<Rightarrow> ptr \<Rightarrow> ptr option" where
  "get_parent t p \<equiv> map_option parent (node_of t p)"

definition set_tag :: "('b, 'z) tstore \<Rightarrow> ptr \<Rightarrow> 'b \<Rightarrow> ('b, 'z) tstore option" where
  "set_tag t p b = set_node (tag_update (\<lambda>_. b)) t p"

definition set_left :: "('b, 'z) tstore \<Rightarrow> ptr \<Rightarrow> ptr \<Rightarrow> ('b, 'z) tstore option" where
  "set_left t p q = set_node (left_update (\<lambda>_. q)) t p"

definition set_right :: "('b, 'z) tstore \<Rightarrow> ptr \<Rightarrow> ptr \<Rightarrow> ('b, 'z) tstore option" where
  "set_right t p q = set_node (right_update (\<lambda>_. q)) t p"

definition set_parent :: "('b, 'z) tstore \<Rightarrow> ptr \<Rightarrow> ptr \<Rightarrow> ('b, 'z) tstore option" where
  "set_parent t p q = set_node (parent_update (\<lambda>_. q)) t p"

text \<open>The statement \<^verbatim>\<open>if (p) p->parent = q\<close>.\<close>

definition set_parent_if :: "('b, 'z) tstore \<Rightarrow> ptr \<Rightarrow> ptr \<Rightarrow> ('b, 'z) tstore option" where
  "set_parent_if t p q = (if p \<noteq> 0 then set_parent t p q else Some t)"

section \<open>Shared operations\<close>

partial_function (option) subtree_ptrs_valid :: "('b, 'z) tstore \<Rightarrow> ptr \<Rightarrow> bool option" where
  "subtree_ptrs_valid t node =
     do { l \<leftarrow> get_left t node;
          okl \<leftarrow> (if l \<noteq> 0
                  then do { p \<leftarrow> get_parent t l;
                            if p \<noteq> node then Some False else subtree_ptrs_valid t l }
                  else Some True);
          if \<not> okl then Some False
          else do { r \<leftarrow> get_right t node;
                    if r \<noteq> 0
                    then do { p \<leftarrow> get_parent t r;
                              if p \<noteq> node then Some False else subtree_ptrs_valid t r }
                    else Some True } }"

partial_function (option) leftmost_from :: "('b, 'z) tstore \<Rightarrow> ptr \<Rightarrow> ptr option" where
  "leftmost_from t node = do { l \<leftarrow> get_left t node; if l = 0 then Some node else leftmost_from t l }"

partial_function (option) rightmost_from :: "('b, 'z) tstore \<Rightarrow> ptr \<Rightarrow> ptr option" where
  "rightmost_from t node = do { r \<leftarrow> get_right t node; if r = 0 then Some node else rightmost_from t r }"

text \<open>The three statements that set up a new node.\<close>

definition fresh_node :: "('b, 'z) tstore \<Rightarrow> 'b \<Rightarrow> ptr \<Rightarrow> ('b, 'z) tstore option" where
  "fresh_node t b node =
     do { t \<leftarrow> set_tag t node b;
          t \<leftarrow> set_left t node 0;
          set_right t node 0 }"

text \<open>
  The descent to the place of a new node.  The comparison function of the tree, with its user data,
  and the repair that follows the insertion are parameters.
\<close>

partial_function (option) insert_from ::
  "(('b, 'z) tstore \<Rightarrow> ptr \<Rightarrow> ('b, 'z) tstore option) \<Rightarrow> (ptr \<Rightarrow> ptr \<Rightarrow> int) \<Rightarrow> ('b, 'z) tstore \<Rightarrow> ptr \<Rightarrow> ptr \<Rightarrow> ('b, 'z) tstore option" where
  "insert_from repair cmp t node node2 =
     (if cmp node node2 < 0
      then do { l \<leftarrow> get_left t node2;
                if l = 0
                then do { t \<leftarrow> set_left t node2 node;
                          t \<leftarrow> set_parent t node node2;
                          repair t node }
                else insert_from repair cmp t node l }
      else do { r \<leftarrow> get_right t node2;
                if r = 0
                then do { t \<leftarrow> set_right t node2 node;
                          t \<leftarrow> set_parent t node node2;
                          repair t node }
                else insert_from repair cmp t node r })"

text \<open>Exchanging two nodes where \<open>n2\<close> is the left child, or the right child, of \<open>n1\<close>.\<close>

definition exchange_top :: "('b, 'z) tstore \<Rightarrow> ptr \<Rightarrow> ptr \<Rightarrow> ('b, 'z) tstore option" where
  "exchange_top t n1 n2 =
     do { p \<leftarrow> get_parent t n2;
          if p = 0 then Some (t\<lparr>root := n2\<rparr>)
          else do { l \<leftarrow> get_left t p;
                    if l = n1 then set_left t p n2
                    else do { r \<leftarrow> get_right t p;
                              if r = n1 then set_right t p n2 else None } } }"

definition exchange_left :: "('b, 'z) tstore \<Rightarrow> ptr \<Rightarrow> ptr \<Rightarrow> ('b, 'z) tstore option" where
  "exchange_left t n1 n2 =
     do { m1 \<leftarrow> node_of t n1;
          m2 \<leftarrow> node_of t n2;
          t \<leftarrow> set_left t n1 (left m2);
          t \<leftarrow> set_right t n1 (right m2);
          t \<leftarrow> set_parent t n1 n2;
          t \<leftarrow> set_parent_if t (left m2) n1;
          t \<leftarrow> set_parent_if t (right m2) n1;
          t \<leftarrow> set_left t n2 n1;
          t \<leftarrow> set_right t n2 (right m1);
          t \<leftarrow> set_parent t n2 (parent m1);
          t \<leftarrow> set_parent_if t (right m1) n2;
          t \<leftarrow> exchange_top t n1 n2;
          t \<leftarrow> set_tag t n1 (tag m2);
          set_tag t n2 (tag m1) }"

definition exchange_right :: "('b, 'z) tstore \<Rightarrow> ptr \<Rightarrow> ptr \<Rightarrow> ('b, 'z) tstore option" where
  "exchange_right t n1 n2 =
     do { m1 \<leftarrow> node_of t n1;
          m2 \<leftarrow> node_of t n2;
          t \<leftarrow> set_left t n1 (left m2);
          t \<leftarrow> set_right t n1 (right m2);
          t \<leftarrow> set_parent t n1 n2;
          t \<leftarrow> set_parent_if t (left m2) n1;
          t \<leftarrow> set_parent_if t (right m2) n1;
          t \<leftarrow> set_left t n2 (left m1);
          t \<leftarrow> set_right t n2 n1;
          t \<leftarrow> set_parent t n2 (parent m1);
          t \<leftarrow> set_parent_if t (left m1) n2;
          t \<leftarrow> exchange_top t n1 n2;
          t \<leftarrow> set_tag t n1 (tag m2);
          set_tag t n2 (tag m1) }"

text \<open>The pointer of a parent to the child \<open>n\<close> is changed to \<open>m\<close>.\<close>

definition exchange_child :: "('b, 'z) tstore \<Rightarrow> ptr \<Rightarrow> ptr \<Rightarrow> ptr \<Rightarrow> ('b, 'z) tstore option" where
  "exchange_child t par n m =
     (if par \<noteq> 0
      then do { l \<leftarrow> get_left t par;
                if l = n then set_left t par m
                else do { r \<leftarrow> get_right t par;
                          if r = n then set_right t par m else None } }
      else Some t)"

definition exchange_far :: "('b, 'z) tstore \<Rightarrow> ptr \<Rightarrow> ptr \<Rightarrow> ('b, 'z) tstore option" where
  "exchange_far t n1 n2 =
     do { m1 \<leftarrow> node_of t n1;
          m2 \<leftarrow> node_of t n2;
          t \<leftarrow> exchange_child t (parent m1) n1 n2;
          t \<leftarrow> exchange_child t (parent m2) n2 n1;
          t \<leftarrow> set_parent t n2 (parent m1);
          t \<leftarrow> set_left t n2 (left m1);
          t \<leftarrow> set_right t n2 (right m1);
          t \<leftarrow> set_parent t n1 (parent m2);
          t \<leftarrow> set_left t n1 (left m2);
          t \<leftarrow> set_right t n1 (right m2);
          t \<leftarrow> set_parent_if t (left m2) n1;
          t \<leftarrow> set_parent_if t (right m2) n1;
          t \<leftarrow> set_parent_if t (left m1) n2;
          t \<leftarrow> set_parent_if t (right m1) n2;
          t \<leftarrow> (if parent m2 = 0 then (if parent m1 = 0 then None else Some (t\<lparr>root := n1\<rparr>)) else Some t);
          t \<leftarrow> Some (if parent m1 = 0 then t\<lparr>root := n2\<rparr> else t);
          t \<leftarrow> set_tag t n1 (tag m2);
          set_tag t n2 (tag m1) }"

partial_function (option) tree_exchange :: "('b, 'z) tstore \<Rightarrow> ptr \<Rightarrow> ptr \<Rightarrow> ('b, 'z) tstore option" where
  "tree_exchange t n1 n2 =
     do { m1 \<leftarrow> node_of t n1;
          m2 \<leftarrow> node_of t n2;
          if parent m2 = n1 \<and> left m1 = n2 then exchange_left t n1 n2
          else if parent m2 = n1 \<and> right m1 = n2 then exchange_right t n1 n2
          else if parent m1 = n2 then tree_exchange t n2 n1
          else exchange_far t n1 n2 }"

text \<open>The statements that put \<open>child\<close> in the place of \<open>x\<close>.\<close>

definition put_child :: "('b, 'z) tstore \<Rightarrow> ptr \<Rightarrow> ptr \<Rightarrow> ptr \<Rightarrow> ('b, 'z) tstore option" where
  "put_child t par x child =
     (if par = 0 then set_parent_if (t\<lparr>root := child\<rparr>) child 0
      else do { l \<leftarrow> get_left t par;
                if l = x
                then do { t \<leftarrow> set_left t par child; set_parent_if t child par }
                else do { r \<leftarrow> get_right t par;
                          if r = x
                          then do { t \<leftarrow> set_right t par child; set_parent_if t child par }
                          else Some t } })"

end
