(* ===== verification/TreeRep.thy ===== *)
theory TreeRep
  imports TreeStore
begin

text \<open>
  The trees of the store as a datatype.  A position in a tree is a subtree and the path from it to
  the root; the operations of the code move between positions and replace the subtree at one.
\<close>

section \<open>Trees and positions\<close>

text \<open>A node with its left subtree, tag, address and right subtree.\<close>

datatype 'b ptree = E | N "'b ptree" 'b ptr "'b ptree"

text \<open>A step up from the left child, or from the right child, of a node.\<close>

datatype 'b crumb = InL 'b ptr "'b ptree" | InR "'b ptree" 'b ptr

fun addrs :: "'b ptree \<Rightarrow> ptr list" where
  "addrs E = []"
| "addrs (N l b x r) = addrs l @ x # addrs r"

fun crumb_addr :: "'b crumb \<Rightarrow> ptr" where
  "crumb_addr (InL b x r) = x"
| "crumb_addr (InR l b x) = x"

fun crumb_addrs :: "'b crumb \<Rightarrow> ptr list" where
  "crumb_addrs (InL b x r) = x # addrs r"
| "crumb_addrs (InR l b x) = x # addrs l"

fun path_addrs :: "'b crumb list \<Rightarrow> ptr list" where
  "path_addrs [] = []"
| "path_addrs (c # C) = crumb_addrs c @ path_addrs C"

fun plug1 :: "'b crumb \<Rightarrow> 'b ptree \<Rightarrow> 'b ptree" where
  "plug1 (InL b x r) t = N t b x r"
| "plug1 (InR l b x) t = N l b x t"

fun plug :: "'b ptree \<Rightarrow> 'b crumb list \<Rightarrow> 'b ptree" where
  "plug t [] = t"
| "plug t (c # C) = plug (plug1 c t) C"

definition par_of :: "'b crumb list \<Rightarrow> ptr" where
  "par_of C = (case C of [] \<Rightarrow> 0 | c # _ \<Rightarrow> crumb_addr c)"

lemma par_of_simps [simp]: "par_of [] = 0" "par_of (c # C) = crumb_addr c"
  by (simp_all add: par_of_def)

section \<open>Representation\<close>

definition node_is :: "'b tree_node \<Rightarrow> 'b \<Rightarrow> ptr \<Rightarrow> ptr \<Rightarrow> ptr \<Rightarrow> bool" where
  "node_is nd b l r p \<longleftrightarrow> tag nd = b \<and> left nd = l \<and> right nd = r \<and> parent nd = p"

fun addr_of :: "'b ptree \<Rightarrow> ptr" where
  "addr_of E = 0"
| "addr_of (N l b x r) = x"

text \<open>The subtree \<open>t\<close> is stored below the parent \<open>par\<close>.\<close>

fun subt :: "(ptr \<Rightarrow> 'b tree_node) \<Rightarrow> ptr \<Rightarrow> 'b ptree \<Rightarrow> bool" where
  "subt h par E = True"
| "subt h par (N l b x r) =
     (x \<noteq> 0 \<and> node_is (h x) b (addr_of l) (addr_of r) par \<and> subt h x l \<and> subt h x r)"

text \<open>The path \<open>C\<close> is stored, from a subtree with address \<open>p\<close> up to the root.\<close>

fun path :: "(ptr \<Rightarrow> 'b tree_node) \<Rightarrow> ptr \<Rightarrow> ptr \<Rightarrow> 'b crumb list \<Rightarrow> bool" where
  "path h rt p [] = (rt = p)"
| "path h rt p (InL b x r # C) =
     (x \<noteq> 0 \<and> node_is (h x) b p (addr_of r) (par_of C) \<and> subt h x r \<and> path h rt x C)"
| "path h rt p (InR l b x # C) =
     (x \<noteq> 0 \<and> node_is (h x) b (addr_of l) p (par_of C) \<and> subt h x l \<and> path h rt x C)"

definition at :: "('b, 'z) tstore \<Rightarrow> 'b ptree \<Rightarrow> 'b crumb list \<Rightarrow> bool" where
  "at t s C \<longleftrightarrow>
     subt (nodes t) (par_of C) s \<and> path (nodes t) (root t) (addr_of s) C \<and>
     distinct (addrs s @ path_addrs C)"

text \<open>The whole tree.\<close>

definition tree_rep :: "('b, 'z) tstore \<Rightarrow> 'b ptree \<Rightarrow> bool" where
  "tree_rep t s \<longleftrightarrow> at t s []"

lemma addr_of_in: "addr_of s \<noteq> 0 \<Longrightarrow> addr_of s \<in> set (addrs s)"
  by (cases s) auto

lemma addr_of_neq: "x \<notin> set (addrs s) \<Longrightarrow> x \<noteq> 0 \<Longrightarrow> addr_of s \<noteq> x \<and> x \<noteq> addr_of s"
  using addr_of_in by metis

lemma addr_of_disjoint: "set (addrs a) \<inter> set (addrs b) = {} \<Longrightarrow> addr_of a \<noteq> 0 \<Longrightarrow> addr_of a \<noteq> addr_of b"
  using addr_of_in [of a] addr_of_in [of b] by auto

lemma subt_nonzero: "subt h par s \<Longrightarrow> 0 \<notin> set (addrs s)"
  by (induction s arbitrary: par) auto

lemma path_nonzero: "path h rt p C \<Longrightarrow> 0 \<notin> set (path_addrs C)"
proof (induction C arbitrary: p)
  case (Cons c C)
  then show ?case by (cases c) (auto dest: subt_nonzero)
qed simp

lemma addr_of_0 [simp]: "subt h par s \<Longrightarrow> addr_of s = 0 \<longleftrightarrow> s = E"
  by (cases s) auto

text \<open>Moving between positions.\<close>

lemma at_left: "at t (N l b x r) C \<longleftrightarrow> at t l (InL b x r # C)"
  by (auto simp: at_def)

lemma at_right: "at t (N l b x r) C \<longleftrightarrow> at t r (InR l b x # C)"
  by (auto simp: at_def)

lemma at_plug: "at t s C \<Longrightarrow> tree_rep t (plug s C)"
proof (induction C arbitrary: s)
  case (Cons c C)
  then show ?case by (cases c) (simp_all add: at_left [symmetric] at_right [symmetric])
qed (simp add: tree_rep_def)

text \<open>Unchanged parts of the store.\<close>

lemma subt_cong: "subt h par s \<Longrightarrow> (\<And>x. x \<in> set (addrs s) \<Longrightarrow> h' x = h x) \<Longrightarrow> subt h' par s"
  by (induction s arbitrary: par) auto

lemma path_cong: "path h rt p C \<Longrightarrow> (\<And>x. x \<in> set (path_addrs C) \<Longrightarrow> h' x = h x) \<Longrightarrow> path h' rt p C"
proof (induction C arbitrary: p)
  case (Cons c C)
  then show ?case by (cases c) (auto intro: subt_cong)
qed simp

text \<open>A subtree put below another parent: only the parent pointer of its root changes.\<close>

lemma subt_moved:
  assumes "subt h par s" "distinct (addrs s)" "\<And>x. x \<in> set (addrs s) \<Longrightarrow> x \<noteq> addr_of s \<Longrightarrow> h' x = h x"
    and "addr_of s \<noteq> 0 \<Longrightarrow> h' (addr_of s) = (h (addr_of s))\<lparr>parent := par'\<rparr>"
  shows "subt h' par' s"
proof (cases s)
  case (N l b x r)
  then have "subt h' x l" "subt h' x r" using assms by (auto intro!: subt_cong [of h])
  then show ?thesis using N assms by (auto simp: node_is_def)
qed simp

lemma subt_moved_via:
  assumes "subt h0 par s" "distinct (addrs s)" "\<And>x. x \<notin> X \<Longrightarrow> h' x = h x" "set (addrs s) \<inter> X = {}"
    and "addr_of s \<noteq> 0 \<Longrightarrow> h (addr_of s) = (h0 (addr_of s))\<lparr>parent := par'\<rparr>"
    and "\<And>x. x \<in> set (addrs s) \<Longrightarrow> x \<noteq> addr_of s \<Longrightarrow> h x = h0 x"
  shows "subt h' par' s"
proof -
  have "h' x = h x" if "x \<in> set (addrs s)" for x using assms(3,4) that by blast
  then show ?thesis using assms addr_of_in [of s] by (intro subt_moved [OF assms(1,2)]) auto
qed

text \<open>Another subtree put at the end of a path: only a child pointer of the last node, or the root, changes.\<close>

lemma path_moved:
  assumes "path h rt p C" "distinct (path_addrs C)"
    and "\<And>x. x \<in> set (path_addrs C) \<Longrightarrow> x \<noteq> par_of C \<Longrightarrow> h' x = h x"
    and "C = [] \<Longrightarrow> rt' = q" "C \<noteq> [] \<Longrightarrow> rt' = rt"
    and "\<And>b x r C'. C = InL b x r # C' \<Longrightarrow> h' x = (h x)\<lparr>left := q\<rparr>"
    and "\<And>l b x C'. C = InR l b x # C' \<Longrightarrow> h' x = (h x)\<lparr>right := q\<rparr>"
  shows "path h' rt' q C"
proof (cases C)
  case (Cons c C')
  have "path h' rt (crumb_addr c) C'" using assms(1-3) Cons by (cases c) (auto intro!: path_cong [of h])
  moreover have "subt h' x r" if "c = InL b x r" for b x r using assms(1-3) Cons that by (auto intro!: subt_cong [of h])
  moreover have "subt h' x l" if "c = InR l b x" for b x l using assms(1-3) Cons that by (auto intro!: subt_cong [of h])
  ultimately show ?thesis using assms(1,5-7) Cons by (cases c) (auto simp: node_is_def)
qed (use assms in auto)

section \<open>Store operations\<close>

lemma node_of_simp [simp]: "p \<noteq> 0 \<Longrightarrow> node_of t p = Some (nodes t p)"
  by (simp add: node_of_def)

lemma set_simps [simp]:
  "p \<noteq> 0 \<Longrightarrow> set_tag t p b = Some (t\<lparr>nodes := (nodes t)(p := (nodes t p)\<lparr>tag := b\<rparr>)\<rparr>)"
  "p \<noteq> 0 \<Longrightarrow> set_left t p q = Some (t\<lparr>nodes := (nodes t)(p := (nodes t p)\<lparr>left := q\<rparr>)\<rparr>)"
  "p \<noteq> 0 \<Longrightarrow> set_right t p q = Some (t\<lparr>nodes := (nodes t)(p := (nodes t p)\<lparr>right := q\<rparr>)\<rparr>)"
  "p \<noteq> 0 \<Longrightarrow> set_parent t p q = Some (t\<lparr>nodes := (nodes t)(p := (nodes t p)\<lparr>parent := q\<rparr>)\<rparr>)"
  by (simp_all add: set_tag_def set_left_def set_right_def set_parent_def set_node_def)

definition reparent :: "(ptr \<Rightarrow> 'b tree_node) \<Rightarrow> ptr \<Rightarrow> ptr \<Rightarrow> ptr \<Rightarrow> 'b tree_node" where
  "reparent h p q = (if p = 0 then h else h(p := (h p)\<lparr>parent := q\<rparr>))"

lemma set_parent_if_simp [simp]: "set_parent_if t p q = Some (t\<lparr>nodes := reparent (nodes t) p q\<rparr>)"
  by (simp add: set_parent_if_def reparent_def)

lemma reparent_apply [simp]:
  "x \<noteq> p \<Longrightarrow> reparent h p q x = h x"
  "p \<noteq> 0 \<Longrightarrow> reparent h p q p = (h p)\<lparr>parent := q\<rparr>"
  by (simp_all add: reparent_def)

section \<open>Reading and tagging\<close>

lemma at_node:
  assumes "at t (N l b x r) C"
  shows "x \<noteq> 0" "tag (nodes t x) = b" "left (nodes t x) = addr_of l" "right (nodes t x) = addr_of r"
    "parent (nodes t x) = par_of C"
  using assms by (auto simp: at_def node_is_def)

lemma at_addr_0: "at t s C \<Longrightarrow> addr_of s = 0 \<longleftrightarrow> s = E"
  by (auto simp: at_def)

lemma set_tag_at:
  assumes "at t (N l b x r) C"
  shows "\<exists>t'. set_tag t x b' = Some t' \<and> at t' (N l b' x r) C"
proof -
  let ?t = "t\<lparr>nodes := (nodes t)(x := (nodes t x)\<lparr>tag := b'\<rparr>)\<rparr>"
  have "path (nodes ?t) (root ?t) x C" "subt (nodes ?t) x l" "subt (nodes ?t) x r"
    using assms by (auto simp: at_def intro!: path_cong [of "nodes t"] subt_cong [of "nodes t"])
  then have "at ?t (N l b' x r) C" using assms by (auto simp: at_def node_is_def)
  then show ?thesis using at_node(1) [OF assms] by simp
qed

lemma at_root: "at t s C \<Longrightarrow> root t = addr_of (plug s C)"
  using at_plug [of t s C] by (simp add: tree_rep_def at_def)

section \<open>The nodes in order\<close>

lemma at_up: "at t s (c # C) \<longleftrightarrow> at t (plug1 c s) C"
  by (cases c) (simp_all add: at_left [symmetric] at_right [symmetric])

fun inorder_path_l :: "'b crumb list \<Rightarrow> ptr list" where
  "inorder_path_l [] = []"
| "inorder_path_l (InL b x r # C) = inorder_path_l C"
| "inorder_path_l (InR l b x # C) = inorder_path_l C @ addrs l @ [x]"

fun inorder_path_r :: "'b crumb list \<Rightarrow> ptr list" where
  "inorder_path_r [] = []"
| "inorder_path_r (InL b x r # C) = x # addrs r @ inorder_path_r C"
| "inorder_path_r (InR l b x # C) = inorder_path_r C"

lemma addrs_plug: "addrs (plug s C) = inorder_path_l C @ addrs s @ inorder_path_r C"
proof (induction C arbitrary: s)
  case (Cons c C)
  then show ?case by (cases c) auto
qed simp

text \<open>So the subtree at a position can be replaced by one with the same nodes in the same order.\<close>

lemma addrs_plug_cong: "addrs s = addrs s' \<Longrightarrow> addrs (plug s C) = addrs (plug s' C)"
  by (simp add: addrs_plug)

lemma plug_E [simp]: "plug s C = E \<longleftrightarrow> s = E \<and> C = []"
proof (induction C arbitrary: s)
  case (Cons c C)
  then show ?case by (cases c) auto
qed simp

lemma set_addrs_plug: "set (addrs (plug s C)) = set (addrs s) \<union> set (path_addrs C)"
proof (induction C arbitrary: s)
  case (Cons c C)
  then show ?case by (cases c) auto
qed simp

fun ctag :: "'b crumb \<Rightarrow> 'b" where
  "ctag (InL b x r) = b"
| "ctag (InR l b x) = b"

fun crumb_tree :: "'b crumb \<Rightarrow> 'b ptree" where
  "crumb_tree (InL b x r) = r"
| "crumb_tree (InR l b x) = l"

fun retag :: "'b \<Rightarrow> 'b crumb \<Rightarrow> 'b crumb" where
  "retag b (InL _ x r) = InL b x r"
| "retag b (InR l _ x) = InR l b x"

fun with_tree :: "'b ptree \<Rightarrow> 'b crumb \<Rightarrow> 'b crumb" where
  "with_tree s (InL b x _) = InL b x s"
| "with_tree s (InR _ b x) = InR s b x"

lemma retag_simps [simp]:
  "crumb_addr (retag b c) = crumb_addr c" "crumb_tree (retag b c) = crumb_tree c" "ctag (retag b c) = b"
  "crumb_addr (with_tree s c) = crumb_addr c" "crumb_tree (with_tree s c) = s" "ctag (with_tree s c) = ctag c"
  by (cases c; simp)+

lemma at_crumb:
  assumes "at t s (c # C)"
  shows "crumb_addr c \<noteq> 0" "tag (nodes t (crumb_addr c)) = ctag c" "parent (nodes t (crumb_addr c)) = par_of C"
  using assms at_node(1,2,5) [of t _ _ "crumb_addr c" _ C] by (cases c; fastforce simp: at_up)+

lemma set_tag_crumb:
  assumes "at t s (c # C)"
  shows "\<exists>t'. set_tag t (crumb_addr c) b = Some t' \<and> at t' s (retag b c # C)"
  using assms set_tag_at [of t _ _ "crumb_addr c" _ C b] by (cases c) (auto simp: at_up)

lemma set_tag_sibling:
  assumes "at t s (c # C)" "crumb_tree c = N l b x r"
  shows "\<exists>t'. set_tag t x b' = Some t' \<and> at t' s (with_tree (N l b' x r) c # C)"
proof (cases c)
  case (InL bc p u)
  then have "at t (N l b x r) (InR s bc p # C)" using assms by (simp add: at_up)
  from set_tag_at [OF this, of b'] show ?thesis using InL assms(2) by (auto simp: at_up)
next
  case (InR u bc p)
  then have "at t (N l b x r) (InL bc p s # C)" using assms by (simp add: at_up)
  from set_tag_at [OF this, of b'] show ?thesis using InR assms(2) by (auto simp: at_up)
qed

lemma addrs_retag: "addrs (plug1 (retag b c) s) = addrs (plug1 c s)"
  by (cases c) auto

lemma addrs_with_tree: "addrs u = addrs (crumb_tree c) \<Longrightarrow> addrs (plug1 (with_tree u c) s) = addrs (plug1 c s)"
  by (cases c) auto

section \<open>Positions in a tree\<close>

lemma plug_append: "plug s (D @ C) = plug (plug s D) C"
  by (induction D arbitrary: s) simp_all

lemma path_addrs_append [simp]: "path_addrs (C @ D) = path_addrs C @ path_addrs D"
  by (induction C) auto

lemma par_of_in: "par_of C \<noteq> 0 \<Longrightarrow> par_of C \<in> set (path_addrs C)"
proof (cases C)
  case (Cons c D)
  then show ?thesis by (cases c) auto
qed simp

lemma at_iff_plug: "at t s C \<longleftrightarrow> tree_rep t (plug s C)"
  by (induction C arbitrary: s) (simp_all add: tree_rep_def at_up)

lemma inorder_path_append:
  "inorder_path_l (C @ D) = inorder_path_l D @ inorder_path_l C" "inorder_path_r (C @ D) = inorder_path_r C @ inorder_path_r D"
  by (induction C rule: inorder_path_l.induct) auto

lemma node_position: "x \<in> set (addrs s) \<Longrightarrow> \<exists>l b r C. s = plug (N l b x r) C"
proof (induction s)
  case (N l b y r)
  then consider "x = y" | "x \<in> set (addrs l)" | "x \<in> set (addrs r)" by auto
  then show ?case
  proof cases
    case 1
    then show ?thesis by (metis plug.simps(1))
  next
    case 2
    then obtain l' b' r' C where "l = plug (N l' b' x r') C" using N.IH(1) by blast
    then show ?thesis using plug_append [of "N l' b' x r'" C "[InL b y r]"] by (metis plug.simps plug1.simps(1))
  next
    case 3
    then obtain l' b' r' C where "r = plug (N l' b' x r') C" using N.IH(2) by blast
    then show ?thesis using plug_append [of "N l' b' x r'" C "[InR l b y]"] by (metis plug.simps plug1.simps(2))
  qed
qed simp

lemma addrs_Nil [simp]: "addrs s = [] \<longleftrightarrow> s = E"
  by (cases s) auto

lemma tree_rep_root: "tree_rep t s \<Longrightarrow> root t = addr_of s" "tree_rep t s \<Longrightarrow> addr_of s = 0 \<longleftrightarrow> s = E"
  "tree_rep t s \<Longrightarrow> 0 \<notin> set (addrs s)" "tree_rep t s \<Longrightarrow> distinct (addrs s)"
  by (auto simp: tree_rep_def at_def dest: subt_nonzero)

lemma put_child_at:
  assumes "at t (N l b x r) C" "l = E \<or> r = E"
  shows "\<exists>t'. put_child t (par_of C) x (addr_of (if r = E then l else r)) = Some t' \<and> at t' (if r = E then l else r) C"
proof -
  define ch where "ch = (if r = E then l else r)"
  let ?h = "nodes t"
  have at: "subt ?h x ch" "path ?h (root t) x C" "distinct (addrs ch @ path_addrs C)" "x \<noteq> 0" "x \<notin> set (path_addrs C)"
    using assms by (auto simp: at_def ch_def)
  define rt where "rt = (if C = [] then addr_of ch else root t)"
  define h where "h = (case C of [] \<Rightarrow> ?h
     | InL _ p _ # _ \<Rightarrow> ?h(p := (?h p)\<lparr>left := addr_of ch\<rparr>)
     | InR _ _ p # _ \<Rightarrow> ?h(p := (?h p)\<lparr>right := addr_of ch\<rparr>))"
  define h' where "h' = reparent h (addr_of ch) (par_of C)"
  have put_child: "put_child t (par_of C) x (addr_of ch) = Some (t\<lparr>nodes := h', root := rt\<rparr>)"
  proof (cases C)
    case Nil
    then show ?thesis by (simp add: put_child_def h'_def h_def rt_def)
  next
    case (Cons c C')
    show ?thesis
    proof (cases c)
      case (InL bp p u)
      then show ?thesis using at(2,4) Cons by (simp add: put_child_def h'_def h_def rt_def node_is_def)
    next
      case (InR u bp p)
      have "addr_of u \<noteq> x" using at(4,5) Cons InR addr_of_neq [of x u] by simp
      then show ?thesis using at(2,4) Cons InR by (simp add: put_child_def h'_def h_def rt_def node_is_def)
    qed
  qed
  have hp: "h' z = h z" if "z \<in> set (path_addrs C)" for z
    using that at(3) addr_of_in [of ch] by (cases "addr_of ch = 0") (auto simp: h'_def reparent_def)
  have "path h' rt (addr_of ch) C"
    by (rule path_moved [OF at(2)]) (use at(3) hp in \<open>auto simp: h_def rt_def split: list.splits crumb.splits\<close>)
  moreover have ho: "h z = ?h z" if "z \<notin> set (path_addrs C)" for z
    using that by (auto simp: h_def split: list.splits crumb.splits)
  have hc: "h z = ?h z" if "z \<in> set (addrs ch)" for z using that at(3) ho by auto
  have "subt h' (par_of C) ch"
    by (rule subt_moved [OF at(1)]) (use at(3) hc addr_of_in [of ch] in \<open>auto simp: h'_def\<close>)
  ultimately show ?thesis using put_child at(3) by (simp add: at_def ch_def [symmetric])
qed

section \<open>Both sides at once\<close>

text \<open>
  The rebalancing of a tree is symmetric.  A crumb and a tree are written with the side of the
  position at hand: \<open>mk True\<close> is a step up from a left child.
\<close>

fun mk :: "bool \<Rightarrow> 'b \<Rightarrow> ptr \<Rightarrow> 'b ptree \<Rightarrow> 'b crumb" where
  "mk True b x u = InL b x u"
| "mk False b x u = InR u b x"

lemma mk_simps [simp]: "crumb_addr (mk d b x u) = x" "crumb_tree (mk d b x u) = u" "ctag (mk d b x u) = b"
  "retag b' (mk d b x u) = mk d b' x u" "with_tree u' (mk d b x u) = mk d b x u'" "addr_of (plug1 (mk d b x u) s) = x"
  by (cases d; simp)+

lemma mk_ex: obtains d b x u where "c = mk d b x u"
  by (cases c) (metis mk.simps)+

lemma node_ex:
  assumes "s \<noteq> E" obtains b x far near where "s = plug1 (mk d b x far) near"
  using assms by (cases s; cases d) auto

text \<open>The sibling of a position as a position of its own.\<close>

lemma at_sibling: "at t s (mk d b p u # C) \<longleftrightarrow> at t u (mk (\<not> d) b p s # C)"
  by (cases d) (simp_all add: at_up)

lemma at_near: "at t s (mk d b p (plug1 (mk d' b' w far) near) # C) \<longleftrightarrow> at t near (mk d' b' w far # mk (\<not> d) b p s # C)"
  using at_sibling [of t s d b p "plug1 (mk d' b' w far) near" C] by (simp add: at_up)

lemma plug1_not_E [simp]: "plug1 c s \<noteq> E"
  by (cases c) auto

lemma addrs_mk: "addrs (plug1 (mk d b x u) s) = (if d then addrs s @ x # addrs u else addrs u @ x # addrs s)"
  by (cases d) auto

end
