(* ===== verification/TreeSearch.thy ===== *)
theory TreeSearch
  imports TreeRep
begin

text \<open>
  The operations on trees that descend from the root: the smallest and the largest node, the place
  of a new node, and the check of the pointers.
\<close>

section \<open>The smallest and the largest node\<close>

lemma leftmost_from_hd: "at t s C \<Longrightarrow> s \<noteq> E \<Longrightarrow> leftmost_from t (addr_of s) = Some (hd (addrs s))"
proof (induction s arbitrary: C)
  case (N l b y r)
  have atl: "at t l (InL b y r # C)" using N.prems by (simp add: at_up)
  show ?case using at_node [OF N.prems(1)] at_addr_0 [OF atl] N.IH(1) [OF atl]
    by (subst leftmost_from.simps) (cases "l = E"; simp add: hd_append)
qed simp

lemma rightmost_from_last: "at t s C \<Longrightarrow> s \<noteq> E \<Longrightarrow> rightmost_from t (addr_of s) = Some (last (addrs s))"
proof (induction s arbitrary: C)
  case (N l b y r)
  have atr: "at t r (InR l b y # C)" using N.prems by (simp add: at_up)
  show ?case using at_node [OF N.prems(1)] at_addr_0 [OF atr] N.IH(2) [OF atr]
    by (subst rightmost_from.simps) (cases "r = E"; simp add: last_append)
qed simp

lemma ptrs_valid_at: "at t s C \<Longrightarrow> s \<noteq> E \<Longrightarrow> subtree_ptrs_valid t (addr_of s) = Some True"
proof (induction s arbitrary: C)
  case (N l b y r)
  have atl: "at t l (InL b y r # C)" and atr: "at t r (InR l b y # C)" using N.prems by (simp_all add: at_up)
  have p: "l \<noteq> E \<Longrightarrow> parent (nodes t (addr_of l)) = y" "r \<noteq> E \<Longrightarrow> parent (nodes t (addr_of r)) = y"
    using N.prems by (cases l; cases r; auto simp: at_def node_is_def)+
  show ?case using at_node [OF N.prems(1)] at_addr_0 [OF atl] at_addr_0 [OF atr] N.IH(1) [OF atl] N.IH(2) [OF atr] p
    by (subst subtree_ptrs_valid.simps) (cases "l = E"; cases "r = E"; simp)
qed simp

lemma rightmost_position: "s \<noteq> E \<Longrightarrow> \<exists>l b D. s = plug (N l b (last (addrs s)) E) D \<and> inorder_path_r D = []"
proof (induction s)
  case (N l b y r)
  show ?case
  proof (cases "r = E")
    case True
    then show ?thesis by (intro exI [of _ l] exI [of _ b] exI [of _ "[]"]) simp
  next
    case False
    then obtain l' b' D where D: "r = plug (N l' b' (last (addrs r)) E) D" "inorder_path_r D = []" using N.IH(2) by blast
    have "last (addrs (N l b y r)) = last (addrs r)" using False by (simp add: last_append)
    then show ?thesis using D plug_append [of "N l' b' (last (addrs r)) E" D "[InR l b y]"]
      by (intro exI [of _ l'] exI [of _ b'] exI [of _ "D @ [InR l b y]"]) (simp add: inorder_path_append)
  qed
qed simp

lemma leftmost_position: "s \<noteq> E \<Longrightarrow> \<exists>r b D. s = plug (N E b (hd (addrs s)) r) D \<and> inorder_path_l D = []"
proof (induction s)
  case (N l b y r)
  show ?case
  proof (cases "l = E")
    case True
    then show ?thesis by (intro exI [of _ r] exI [of _ b] exI [of _ "[]"]) simp
  next
    case False
    then obtain r' b' D where D: "l = plug (N E b' (hd (addrs l)) r') D" "inorder_path_l D = []" using N.IH(1) by blast
    have "hd (addrs (N l b y r)) = hd (addrs l)" using False by (simp add: hd_append)
    then show ?thesis using D plug_append [of "N E b' (hd (addrs l)) r'" D "[InL b y r]"]
      by (intro exI [of _ r'] exI [of _ b'] exI [of _ "D @ [InL b y r]"]) (simp add: inorder_path_append)
  qed
qed simp

text \<open>The empty position that the search for the place of a new node ends in.\<close>

fun descend :: "(ptr \<Rightarrow> bool) \<Rightarrow> 'b ptree \<Rightarrow> 'b crumb list \<Rightarrow> 'b crumb list" where
  "descend goes_left E C = C"
| "descend goes_left (N l b x r) C =
     (if goes_left x then descend goes_left l (InL b x r # C) else descend goes_left r (InR l b x # C))"

lemma plug_descend [simp]: "plug E (descend f s C) = plug s C"
  by (induction s arbitrary: C) auto

lemma descend_not_Nil [simp]: "s \<noteq> E \<Longrightarrow> descend f s C \<noteq> []"
  using plug_descend [of f s C] by (metis plug.simps(1) plug_E)

text \<open>In a sorted tree the path separates the nodes that are before the new node from those after it.\<close>

lemma descend_order:
  assumes "sorted_wrt (\<lambda>a b. f a \<longrightarrow> f b) (addrs s)"
    and "\<forall>y\<in>set (inorder_path_l C). \<not> f y" "\<forall>y\<in>set (inorder_path_r C). f y"
  shows "inorder_path_l (descend f s C) = inorder_path_l C @ filter (\<lambda>y. \<not> f y) (addrs s) \<and>
         inorder_path_r (descend f s C) = filter f (addrs s) @ inorder_path_r C"
  using assms
proof (induction s arbitrary: C)
  case (N l b x r)
  have so: "sorted_wrt (\<lambda>a b. f a \<longrightarrow> f b) (addrs l)" "sorted_wrt (\<lambda>a b. f a \<longrightarrow> f b) (addrs r)"
    "\<forall>y\<in>set (addrs l). f y \<longrightarrow> f x" "\<forall>y\<in>set (addrs r). f x \<longrightarrow> f y"
    using N.prems(1) by (simp_all only: addrs.simps sorted_wrt_append sorted_wrt.simps list.set) blast+
  show ?case
  proof (cases "f x")
    case True
    then have "\<forall>y\<in>set (inorder_path_r (InL b x r # C)). f y" using so(4) N.prems(3) by auto
    from N.IH(1) [OF so(1) _ this] have
      "inorder_path_l (descend f l (InL b x r # C)) = inorder_path_l C @ filter (\<lambda>y. \<not> f y) (addrs l) \<and>
       inorder_path_r (descend f l (InL b x r # C)) = filter f (addrs l) @ x # addrs r @ inorder_path_r C"
      using N.prems(2) by simp
    moreover have "filter f (addrs r) = addrs r" "filter (\<lambda>y. \<not> f y) (addrs r) = []" using so(4) True by auto
    ultimately show ?thesis using True by simp
  next
    case False
    then have "\<forall>y\<in>set (inorder_path_l (InR l b x # C)). \<not> f y" using so(3) N.prems(2) by auto
    from N.IH(2) [OF so(2) this] have
      "inorder_path_l (descend f r (InR l b x # C)) = inorder_path_l C @ addrs l @ x # filter (\<lambda>y. \<not> f y) (addrs r) \<and>
       inorder_path_r (descend f r (InR l b x # C)) = filter f (addrs r) @ inorder_path_r C"
      using N.prems(3) by simp
    moreover have "filter (\<lambda>y. \<not> f y) (addrs l) = addrs l" "filter f (addrs l) = []" using so(3) False by auto
    ultimately show ?thesis using False by simp
  qed
qed simp

lemma at_descend: "at t s C \<Longrightarrow> at t E (descend f s C)"
  by (induction s arbitrary: C) (simp_all add: at_up)

text \<open>A node that is ready to be linked: it is not part of the tree and is a leaf with the tag \<open>b\<close>.\<close>

definition new_leaf :: "('b, 'z) tstore \<Rightarrow> 'b \<Rightarrow> ptr \<Rightarrow> bool" where
  "new_leaf t b x \<longleftrightarrow> x \<noteq> 0 \<and> tag (nodes t x) = b \<and> left (nodes t x) = 0 \<and> right (nodes t x) = 0"

definition link_leaf :: "('b, 'z) tstore \<Rightarrow> ptr \<Rightarrow> 'b crumb \<Rightarrow> ('b, 'z) tstore option" where
  "link_leaf t x c =
     do { t \<leftarrow> (case c of InL _ p _ \<Rightarrow> set_left t p x | InR _ _ p \<Rightarrow> set_right t p x);
          set_parent t x (crumb_addr c) }"

lemma link_leaf_at:
  assumes "at t E (c # C)" "new_leaf t b x" "x \<notin> set (path_addrs (c # C))"
  shows "\<exists>t'. link_leaf t x c = Some t' \<and> at t' (N E b x E) (c # C)"
proof -
  have c: "crumb_addr c \<noteq> 0" "x \<noteq> crumb_addr c" using assms by (cases c; auto simp: at_def)+
  define h where "h = (nodes t)(crumb_addr c :=
      (case c of InL _ _ _ \<Rightarrow> left_update (\<lambda>_. x) | InR _ _ _ \<Rightarrow> right_update (\<lambda>_. x)) (nodes t (crumb_addr c)),
      x := (nodes t x)\<lparr>parent := crumb_addr c\<rparr>)"
  have link: "link_leaf t x c = Some (t\<lparr>nodes := h\<rparr>)"
    using c assms(2) by (cases c) (auto simp: link_leaf_def new_leaf_def h_def)
  have "path h (root t) x (c # C)"
    by (rule path_moved [where h = "nodes t" and p = 0 and rt = "root t"])
      (use assms c in \<open>auto simp: at_def h_def\<close>)
  then show ?thesis using assms c link by (auto simp: at_def new_leaf_def node_is_def h_def)
qed

text \<open>The search links the new node below the last node of the path.\<close>

lemma insert_from_links:
  assumes "at t s C" "s \<noteq> E"
  shows "insert_from repair cmp t x (addr_of s) =
    do { t \<leftarrow> link_leaf t x (hd (descend (\<lambda>y. cmp x y < 0) s C)); repair t x }"
  using assms
proof (induction s arbitrary: C)
  case (N l b y r)
  have atl: "at t l (InL b y r # C)" and atr: "at t r (InR l b y # C)" using N.prems by (simp_all add: at_up)
  note ny = at_node [OF N.prems(1)] at_addr_0 [OF atl] at_addr_0 [OF atr]
  show ?case
  proof (cases "cmp x y < 0")
    case True
    then show ?thesis using ny N.IH(1) [OF atl]
      by (cases "l = E"; subst insert_from.simps) (simp_all add: link_leaf_def)
  next
    case False
    then show ?thesis using ny N.IH(2) [OF atr]
      by (cases "r = E"; subst insert_from.simps) (simp_all add: link_leaf_def)
  qed
qed simp

lemma fresh_node_at:
  assumes "tree_rep t s" "x \<noteq> 0" "x \<notin> set (addrs s)"
  shows "\<exists>t'. fresh_node t b x = Some t' \<and> new_leaf t' b x \<and> tree_rep t' s"
  using assms by (auto simp: fresh_node_def new_leaf_def tree_rep_def at_def intro: subt_cong)

text \<open>What an insertion of \<open>x\<close> does to the nodes of a tree when \<open>f\<close> holds for the nodes that come after it.\<close>

definition inserted :: "(ptr \<Rightarrow> bool) \<Rightarrow> ptr \<Rightarrow> ptr list \<Rightarrow> ptr list" where
  "inserted f x ys = filter (\<lambda>y. \<not> f y) ys @ x # filter f ys"

text \<open>The new leaf at the end of its path.\<close>

lemma link_leaf_position:
  assumes "tree_rep t s" "new_leaf t b x" "x \<notin> set (addrs s)" "s \<noteq> E" "sorted_wrt (\<lambda>a b. f a \<longrightarrow> f b) (addrs s)"
  obtains t' C where "link_leaf t x (hd (descend f s [])) = Some t'" "at t' (N E b x E) C" "plug E C = s"
    "addrs (plug (N E b x E) C) = inserted f x (addrs s)"
proof -
  obtain c D where D: "descend f s [] = c # D" using descend_not_Nil [OF assms(4), of f "[]"] by (cases "descend f s []") auto
  have pl: "plug E (c # D) = s" using plug_descend [of f s "[]"] D by simp
  have x: "x \<notin> set (path_addrs (c # D))" using assms(3) set_addrs_plug [of E "c # D"] unfolding pl by auto
  have "at t E (c # D)" using assms(1) at_descend [of t s "[]" f] D by (simp add: tree_rep_def)
  from link_leaf_at [OF this assms(2) x] obtain t' where
    t': "link_leaf t x c = Some t'" "at t' (N E b x E) (c # D)" by blast
  have "addrs (plug (N E b x E) (c # D)) = inserted f x (addrs s)"
    using descend_order [OF assms(5), of "[]"] D by (simp add: addrs_plug inserted_def del: plug.simps)
  then show ?thesis using that [OF _ t'(2) pl] t'(1) D by simp
qed

section \<open>Lookup\<close>

text \<open>The node at which the search ends, if \<open>f\<close> compares the key that is sought with a node.\<close>

fun hits :: "(ptr \<Rightarrow> int) \<Rightarrow> 'b ptree \<Rightarrow> ptr" where
  "hits f E = 0"
| "hits f (N l b y r) = (if f y < 0 then hits f l else if f y > 0 then hits f r else y)"

definition cmp_sorted :: "(ptr \<Rightarrow> int) \<Rightarrow> ptr list \<Rightarrow> bool" where
  "cmp_sorted f ys = sorted_wrt (\<lambda>a b. sgn (f b) \<le> sgn (f a)) ys"

lemma cmp_sorted_node:
  "cmp_sorted f (xs @ y # ys) \<longleftrightarrow>
     cmp_sorted f xs \<and> cmp_sorted f ys \<and> (\<forall>a\<in>set xs. sgn (f y) \<le> sgn (f a)) \<and>
     (\<forall>a\<in>set ys. sgn (f a) \<le> sgn (f y)) \<and> (\<forall>a\<in>set xs. \<forall>c\<in>set ys. sgn (f c) \<le> sgn (f a))"
  by (auto simp: cmp_sorted_def sorted_wrt_append)

text \<open>In a tree that is sorted for the key, the search decides whether an equal node is present.\<close>

lemma hits_sorted:
  assumes "cmp_sorted f (addrs s)" "0 \<notin> set (addrs s)"
  shows "hits f s \<noteq> 0 \<longleftrightarrow> (\<exists>y\<in>set (addrs s). f y = 0)"
    and "hits f s \<noteq> 0 \<Longrightarrow> hits f s \<in> set (addrs s) \<and> f (hits f s) = 0"
  using assms
proof (induction s)
  case (N l b y r)
  { case 1
    then have s: "cmp_sorted f (addrs l)" "cmp_sorted f (addrs r)" "0 \<notin> set (addrs l)" "0 \<notin> set (addrs r)" "y \<noteq> 0"
      and lr: "\<And>a. a \<in> set (addrs l) \<Longrightarrow> sgn (f y) \<le> sgn (f a)" "\<And>a. a \<in> set (addrs r) \<Longrightarrow> sgn (f a) \<le> sgn (f y)"
      by (auto simp: cmp_sorted_node)
    have "f y < 0 \<Longrightarrow> a \<in> set (addrs r) \<Longrightarrow> f a \<noteq> 0" "f y > 0 \<Longrightarrow> a \<in> set (addrs l) \<Longrightarrow> f a \<noteq> 0" for a
      using lr(1) [of a] lr(2) [of a] by (auto simp: sgn_if split: if_splits)
    then show ?case using N.IH(1) [OF s(1,3)] N.IH(3) [OF s(2,4)] s(5)
      by (cases "f y" "0::int" rule: linorder_cases) auto
  next
    case 2
    then have s: "cmp_sorted f (addrs l)" "cmp_sorted f (addrs r)" "0 \<notin> set (addrs l)" "0 \<notin> set (addrs r)"
      by (auto simp: cmp_sorted_node)
    show ?case using N.IH(2) [OF _ s(1,3)] N.IH(4) [OF _ s(2,4)] 2(1) by (auto split: if_splits) }
qed simp_all

lemma cmp_sorted_less: "cmp_sorted f ys \<Longrightarrow> sorted_wrt (\<lambda>a b. f a < 0 \<longrightarrow> f b < 0) ys"
  by (auto simp: cmp_sorted_def sgn_if elim!: sorted_wrt_mono_rel [rotated] split: if_splits)

end
