(* ===== verification/TreeOrder.thy ===== *)
theory TreeOrder
  imports TreeSearch
begin

text \<open>
  The interfaces of the balanced trees.  A user of a tree gives a comparison function that orders the
  nodes by a key; the tree promises to be the list of its nodes, and with such a comparison
  function the list stays sorted by key.
\<close>

section \<open>Insertion by key\<close>

text \<open>A new node comes after the nodes with the same key.\<close>

definition insert_key :: "(ptr \<Rightarrow> 'k::linorder) \<Rightarrow> ptr \<Rightarrow> ptr list \<Rightarrow> ptr list" where
  "insert_key key x xs = filter (\<lambda>y. key y \<le> key x) xs @ x # filter (\<lambda>y. key x < key y) xs"

lemma insert_key_sorted: "sorted (map key xs) \<Longrightarrow> sorted (map key (insert_key key x xs))"
  by (auto simp: insert_key_def sorted_append sorted_map intro: sorted_wrt_filter)

lemma set_insert_key [simp]: "set (insert_key key x xs) = insert x (set xs)"
  by (auto simp: insert_key_def)

section \<open>Comparison by a key\<close>

locale key_order =
  fixes cmp :: "ptr \<Rightarrow> ptr \<Rightarrow> int" and key :: "ptr \<Rightarrow> 'k::linorder"
  assumes cmp_less: "cmp a b < 0 \<longleftrightarrow> key a < key b"
    and cmp_greater: "cmp a b > 0 \<longleftrightarrow> key b < key a"
begin

lemma cmp_equal: "cmp a b = 0 \<longleftrightarrow> key a = key b"
  using cmp_less [of a b] cmp_greater [of a b] by (metis less_irrefl linorder_neqE)

lemma sorted_keys: "sorted (map key xs) \<Longrightarrow> cmp_sorted (cmp x) xs"
proof -
  have "sgn (cmp x b) \<le> sgn (cmp x a)" if "key a \<le> key b" for a b
    using that cmp_less [of x a] cmp_less [of x b] cmp_greater [of x a] cmp_greater [of x b] by (auto simp: sgn_if)
  then show "sorted (map key xs) \<Longrightarrow> cmp_sorted (cmp x) xs"
    unfolding cmp_sorted_def sorted_map by (blast intro: sorted_wrt_mono_rel [rotated])
qed

lemma inserted_key: "inserted (\<lambda>y. cmp x y < 0) x xs = insert_key key x xs"
  by (simp add: inserted_def insert_key_def cmp_less not_less)

end

section \<open>A balanced tree\<close>

text \<open>
  What a tree promises: \<open>holds t xs\<close> says that the store \<open>t\<close> is a well-formed tree with the nodes
  \<open>xs\<close> in order.
\<close>

locale sorted_tree =
  fixes holds :: "'t \<Rightarrow> ptr list \<Rightarrow> bool"
    and ins :: "(ptr \<Rightarrow> ptr \<Rightarrow> int) \<Rightarrow> 't \<Rightarrow> ptr \<Rightarrow> 't option"
    and del :: "'t \<Rightarrow> ptr \<Rightarrow> 't option"
    and leftmost :: "'t \<Rightarrow> ptr option"
  assumes ins_holds: "holds t xs \<Longrightarrow> x \<noteq> 0 \<Longrightarrow> x \<notin> set xs \<Longrightarrow> cmp_sorted (cmp x) xs \<Longrightarrow>
      \<exists>t'. ins cmp t x = Some t' \<and> holds t' (inserted (\<lambda>y. cmp x y < 0) x xs)"
    and del_holds: "holds t xs \<Longrightarrow> x \<in> set xs \<Longrightarrow> \<exists>t'. del t x = Some t' \<and> holds t' (remove1 x xs)"
    and leftmost_holds: "holds t xs \<Longrightarrow> leftmost t = Some (if xs = [] then 0 else hd xs)"
    and holds_distinct: "holds t xs \<Longrightarrow> distinct xs"
    and holds_nonzero: "holds t xs \<Longrightarrow> 0 \<notin> set xs"

text \<open>A tree with its comparison function.\<close>

locale keyed_tree = sorted_tree holds ins del leftmost + key_order cmp key
  for holds :: "'t \<Rightarrow> ptr list \<Rightarrow> bool" and ins :: "(ptr \<Rightarrow> ptr \<Rightarrow> int) \<Rightarrow> 't \<Rightarrow> ptr \<Rightarrow> 't option"
    and del :: "'t \<Rightarrow> ptr \<Rightarrow> 't option" and leftmost :: "'t \<Rightarrow> ptr option"
    and cmp :: "ptr \<Rightarrow> ptr \<Rightarrow> int" and key :: "ptr \<Rightarrow> 'k::linorder"
begin

lemma ins_keyed:
  assumes "holds t xs" "sorted (map key xs)" "x \<noteq> 0" "x \<notin> set xs"
  shows "\<exists>t'. ins cmp t x = Some t' \<and> holds t' (insert_key key x xs) \<and> sorted (map key (insert_key key x xs))"
  using ins_holds [OF assms(1,3,4), of cmp] sorted_keys [OF assms(2)] insert_key_sorted [OF assms(2)] by (simp add: inserted_key)

text \<open>Deletion compares no keys, so the key of the node that is deleted may be out of order.\<close>

lemma del_keyed:
  assumes "holds t xs" "sorted (map key' xs)" "x \<in> set xs" "\<And>y. y \<noteq> x \<Longrightarrow> key y = key' y"
  shows "\<exists>t'. del t x = Some t' \<and> holds t' (remove1 x xs) \<and> sorted (map key (remove1 x xs))"
proof -
  have "x \<notin> set (remove1 x xs)" using holds_distinct [OF assms(1)] by simp
  then have eq: "map key (remove1 x xs) = map key' (remove1 x xs)" using assms(4) by (metis map_cong)
  show ?thesis using del_holds [OF assms(1,3)] sorted_map_remove1 [OF assms(2), of x] by (simp only: eq) blast
qed

text \<open>The first node has the smallest key.\<close>

lemma leftmost_keyed:
  assumes "holds t xs" "sorted (map key xs)" "xs \<noteq> []"
  shows "\<exists>y. leftmost t = Some y \<and> y \<in> set xs \<and> y \<noteq> 0 \<and> (\<forall>z\<in>set xs. key y \<le> key z)"
  using leftmost_holds [OF assms(1)] holds_nonzero [OF assms(1)] assms(2,3) by (cases xs) auto

end

end
