(* ===== verification/Timers.thy ===== *)
theory Timers
  imports TreeOrder
begin

text \<open>
  The interface of the timer queues of the repository: the red-black tree, the AVL tree and the
  linked heap of timers all promise it, and the timer wheel relies on it.
\<close>

section \<open>What a queue of timers does\<close>

text \<open>
  The user of a queue writes the expiry time of a timer and adds it, removes a timer, or writes
  another time and has the queue modified.  The pending timers are a map from timers to times; the
  user adds no timer twice, and removes and modifies pending timers only.
\<close>

datatype timer_op = Add_Timer ptr u64 | Remove_Timer ptr | Modify_Timer ptr u64

primrec pending_step :: "(ptr \<rightharpoonup> u64) \<Rightarrow> timer_op \<Rightarrow> (ptr \<rightharpoonup> u64) option" where
  "pending_step m (Add_Timer x v) = (if x = 0 \<or> x \<in> dom m then None else Some (m(x \<mapsto> v)))"
| "pending_step m (Remove_Timer x) = (if x \<in> dom m then Some (m(x := None)) else None)"
| "pending_step m (Modify_Timer x v) = (if x \<in> dom m then Some (m(x \<mapsto> v)) else None)"

text \<open>The same operations on a queue, with the times that the timers hold.\<close>

primrec queue_step ::
  "((ptr \<Rightarrow> u64) \<Rightarrow> 'q \<Rightarrow> ptr \<Rightarrow> 'q option) \<Rightarrow> ((ptr \<Rightarrow> u64) \<Rightarrow> 'q \<Rightarrow> ptr \<Rightarrow> 'q option) \<Rightarrow>
   ((ptr \<Rightarrow> u64) \<Rightarrow> 'q \<Rightarrow> ptr \<Rightarrow> 'q option) \<Rightarrow> (ptr \<Rightarrow> u64) \<times> 'q \<Rightarrow> timer_op \<Rightarrow> ((ptr \<Rightarrow> u64) \<times> 'q) option" where
  "queue_step add remove modify s (Add_Timer x v) =
     (let tm = (fst s)(x := v) in map_option (Pair tm) (add tm (snd s) x))"
| "queue_step add remove modify s (Remove_Timer x) = map_option (Pair (fst s)) (remove (fst s) (snd s) x)"
| "queue_step add remove modify s (Modify_Timer x v) =
     (let tm = (fst s)(x := v) in map_option (Pair tm) (modify tm (snd s) x))"

primrec run_ops :: "('s \<Rightarrow> 'o \<Rightarrow> 's option) \<Rightarrow> 's \<Rightarrow> 'o list \<Rightarrow> 's option" where
  "run_ops step s [] = Some s"
| "run_ops step s (x # xs) = do { s \<leftarrow> step s x; run_ops step s xs }"

text \<open>The queue holds the pending timers, and which timer is the next one to expire.\<close>

definition queue_holds :: "((ptr \<Rightarrow> u64) \<Rightarrow> 'q \<Rightarrow> ptr set \<Rightarrow> bool) \<Rightarrow> (ptr \<rightharpoonup> u64) \<Rightarrow> (ptr \<Rightarrow> u64) \<times> 'q \<Rightarrow> bool" where
  "queue_holds ok m s \<longleftrightarrow> ok (fst s) (snd s) (dom m) \<and> (\<forall>x\<in>dom m. m x = Some (fst s x))"

definition earliest :: "(ptr \<rightharpoonup> u64) \<Rightarrow> ptr \<Rightarrow> u64 \<Rightarrow> bool" where
  "earliest m x v \<longleftrightarrow> (if m = Map.empty then x = 0 \<and> v = - 1 else m x = Some v \<and> (\<forall>w\<in>ran m. v \<le> w))"

section \<open>Contract\<close>

text \<open>
  A timer is the address of its \<^verbatim>\<open>struct\<close>, and \<open>tm\<close> holds the fields \<^verbatim>\<open>time64\<close> of all timers; the
  user of the queue writes them, and the queue only reads them.  The predicate \<open>ok tm q A\<close> says that
  \<open>q\<close> is well formed and holds exactly the timers in \<open>A\<close>.  A queue has room for every timer, because
  there are fewer than \<open>2 ^ 64\<close> addresses; the linked heap counts them in 64 bits.
\<close>

locale timer_queue =
  fixes ok :: "(ptr \<Rightarrow> u64) \<Rightarrow> 'q \<Rightarrow> ptr set \<Rightarrow> bool"
    and add remove modify :: "(ptr \<Rightarrow> u64) \<Rightarrow> 'q \<Rightarrow> ptr \<Rightarrow> 'q option"
    and next_timer :: "'q \<Rightarrow> ptr"
  assumes add_ok: "ok tm q A \<Longrightarrow> x \<noteq> 0 \<Longrightarrow> x \<notin> A \<Longrightarrow> card A + 1 < 2 ^ 64 \<Longrightarrow>
      \<exists>q'. add tm q x = Some q' \<and> ok tm q' (insert x A)"
    and remove_ok: "ok tm q A \<Longrightarrow> x \<in> A \<Longrightarrow> (\<And>y. y \<noteq> x \<Longrightarrow> tm' y = tm y) \<Longrightarrow>
      \<exists>q'. remove tm' q x = Some q' \<and> ok tm' q' (A - {x})"
    and modify_ok: "ok tm q A \<Longrightarrow> x \<in> A \<Longrightarrow> (\<And>y. y \<noteq> x \<Longrightarrow> tm' y = tm y) \<Longrightarrow>
      \<exists>q'. modify tm' q x = Some q' \<and> ok tm' q' A"
    and next_ok: "ok tm q A \<Longrightarrow> A \<noteq> {} \<Longrightarrow> next_timer q \<in> A \<and> (\<forall>y\<in>A. tm (next_timer q) \<le> tm y)"
    and next_empty: "ok tm q {} \<Longrightarrow> next_timer q = 0"
    and ok_times: "ok tm q A \<Longrightarrow> (\<And>y. y \<in> A \<Longrightarrow> tm' y = tm y) \<Longrightarrow> ok tm' q A"
    and ok_finite: "ok tm q A \<Longrightarrow> finite A"
    and ok_nonzero: "ok tm q A \<Longrightarrow> 0 \<notin> A"
begin

lemma next_zero: "ok tm q A \<Longrightarrow> next_timer q = 0 \<longleftrightarrow> A = {}"
  using next_ok next_empty ok_nonzero by metis

lemma step_holds:
  assumes "queue_holds ok m s" "pending_step m a = Some m'" "card (dom m) + 1 < 2 ^ 64"
  shows "\<exists>s'. queue_step add remove modify s a = Some s' \<and> queue_holds ok m' s'"
proof -
  obtain tm q where s: "s = (tm, q)" by fastforce
  have q: "ok tm q (dom m)" and t: "\<And>x. x \<in> dom m \<Longrightarrow> m x = Some (tm x)"
    using assms(1) unfolding queue_holds_def s by simp_all
  show ?thesis
  proof (cases a)
    case (Add_Timer x v)
    then have x: "x \<noteq> 0" "x \<notin> dom m" "m' = m(x \<mapsto> v)" using assms(2) by (auto split: if_splits)
    have "ok (tm(x := v)) q (dom m)" by (rule ok_times [OF q]) (use x(2) in auto)
    from add_ok [OF this x(1,2) assms(3)] obtain q' where
      "add (tm(x := v)) q x = Some q'" "ok (tm(x := v)) q' (insert x (dom m))" by blast
    then show ?thesis using t Add_Timer x(3) by (simp add: s queue_holds_def)
  next
    case (Remove_Timer x)
    then have x: "x \<in> dom m" "m' = m(x := None)" using assms(2) by (auto split: if_splits)
    from remove_ok [OF q x(1) refl] obtain q' where "remove tm q x = Some q'" "ok tm q' (dom m - {x})" by blast
    then show ?thesis using t Remove_Timer x(2) by (simp add: s queue_holds_def)
  next
    case (Modify_Timer x v)
    then have x: "x \<in> dom m" "m' = m(x \<mapsto> v)" using assms(2) by (auto split: if_splits)
    have "(tm(x := v)) y = tm y" if "y \<noteq> x" for y using that by simp
    from modify_ok [OF q x(1) this] obtain q' where "modify (tm(x := v)) q x = Some q'" "ok (tm(x := v)) q' (dom m)" by blast
    then show ?thesis using t Modify_Timer x by (simp add: s queue_holds_def insert_absorb)
  qed
qed

lemma card_pending:
  assumes "queue_holds ok m s" "pending_step m a = Some m'"
  shows "card (dom m') \<le> card (dom m) + 1"
proof -
  have "finite (dom m)" using assms(1) ok_finite by (auto simp: queue_holds_def)
  then show ?thesis using assms(2) card_Diff1_le [of "dom m"]
    by (cases a) (auto simp: card_insert_if insert_absorb le_SucI split: if_splits)
qed

lemma run_holds:
  assumes "queue_holds ok m s" "run_ops pending_step m ops = Some m'" "card (dom m) + length ops < 2 ^ 64"
  shows "\<exists>s'. run_ops (queue_step add remove modify) s ops = Some s' \<and> queue_holds ok m' s'"
  using assms
proof (induction ops arbitrary: m s)
  case (Cons a ops)
  from Cons.prems(2) obtain m1 where m1: "pending_step m a = Some m1" "run_ops pending_step m1 ops = Some m'"
    by (auto split: bind_splits)
  obtain s1 where "queue_step add remove modify s a = Some s1" "queue_holds ok m1 s1"
    using step_holds [OF Cons.prems(1) m1(1)] Cons.prems(3) by auto
  then show ?case using Cons.IH [OF _ m1(2)] card_pending [OF Cons.prems(1) m1(1)] Cons.prems(3) by auto
qed simp

lemma next_earliest:
  assumes "queue_holds ok m (tm, q)"
  shows "earliest m (next_timer q) (if next_timer q = 0 then - 1 else tm (next_timer q))"
proof (cases "m = Map.empty")
  case True
  then show ?thesis using assms next_empty by (auto simp: queue_holds_def earliest_def)
next
  case False
  have q: "ok tm q (dom m)" and t: "\<And>x. x \<in> dom m \<Longrightarrow> m x = Some (tm x)"
    using assms unfolding queue_holds_def by simp_all
  from False have n: "next_timer q \<in> dom m" "\<forall>y\<in>dom m. tm (next_timer q) \<le> tm y" "next_timer q \<noteq> 0"
    using next_ok [OF q] next_zero [OF q] by auto
  have "tm (next_timer q) \<le> w" if w: "w \<in> ran m" for w
  proof -
    obtain y where "m y = Some w" using w by (auto simp: ran_def)
    then show ?thesis using n(2) t [of y] by auto
  qed
  then show ?thesis using False n t by (simp add: earliest_def)
qed

end


section \<open>Trees as queues\<close>

text \<open>What the operations of a balanced tree do to the set of nodes, in the order of the keys.\<close>

context keyed_tree
begin

lemma ins_set:
  assumes "holds t xs" "sorted (map key xs)" "x \<noteq> 0" "x \<notin> set xs"
  shows "\<exists>t' ys. ins cmp t x = Some t' \<and> holds t' ys \<and> sorted (map key ys) \<and> set ys = insert x (set xs)"
  using ins_keyed [OF assms] set_insert_key [of key x xs] by blast

lemma del_set:
  assumes "holds t xs" "sorted (map key' xs)" "x \<in> set xs" "\<And>y. y \<noteq> x \<Longrightarrow> key y = key' y"
  shows "\<exists>t' ys. del t x = Some t' \<and> holds t' ys \<and> sorted (map key ys) \<and> set ys = set xs - {x}"
  using del_keyed [OF assms] set_remove1_eq [OF holds_distinct [OF assms(1)], of x] by blast

lemma del_ins_set:
  assumes "holds t xs" "sorted (map key' xs)" "x \<in> set xs" "\<And>y. y \<noteq> x \<Longrightarrow> key y = key' y"
  shows "\<exists>t' t'' ys. del t x = Some t' \<and> ins cmp t' x = Some t'' \<and> holds t'' ys \<and> sorted (map key ys) \<and> set ys = set xs"
proof -
  obtain t' ys where t': "del t x = Some t'" "holds t' ys" "sorted (map key ys)" "set ys = set xs - {x}"
    using del_set [OF assms] by metis
  have "x \<noteq> 0" using assms(3) holds_nonzero [OF assms(1)] by metis
  moreover have "x \<notin> set ys" "insert x (set ys) = set xs" unfolding t'(4) by (simp_all add: assms(3) insert_absorb)
  ultimately show ?thesis using ins_set [OF t'(2,3), of x] t'(1) by metis
qed

end

end
