(* ===== verification/RbTree.thy ===== *)
theory RbTree
  imports TreeStore
begin

text \<open>
  The red-black tree of \<^verbatim>\<open>src/rbtree\<close>, exactly as the C code manipulates the nodes.  This
  theory holds the model; the tag of a node is its colour, true for black.
\<close>

type_synonym rb_tree_nocmp = "bool tree_store"

section \<open>Queries\<close>

definition rb_tree_nocmp_init :: "rb_tree_nocmp \<Rightarrow> rb_tree_nocmp" where
  "rb_tree_nocmp_init t = t\<lparr>root := 0\<rparr>"

definition rb_tree_nocmp_root :: "rb_tree_nocmp \<Rightarrow> ptr" where
  "rb_tree_nocmp_root t = root t"

partial_function (option) rb_subtree_height :: "rb_tree_nocmp \<Rightarrow> ptr \<Rightarrow> int option" where
  "rb_subtree_height t node =
     do { l \<leftarrow> get_left t node;
          resultl \<leftarrow> (if l \<noteq> 0
                      then do { p \<leftarrow> get_parent t l;
                                if p \<noteq> node then Some (- 1) else rb_subtree_height t l }
                      else Some 0);
          if resultl < 0 then Some (- 1)
          else do { r \<leftarrow> get_right t node;
                    resultr \<leftarrow> (if r \<noteq> 0
                                then do { p \<leftarrow> get_parent t r;
                                          if p \<noteq> node then Some (- 1) else rb_subtree_height t r }
                                else Some 0);
                    if resultr < 0 then Some (- 1)
                    else if resultl \<noteq> resultr then Some (- 1)
                    else do { b \<leftarrow> get_tag t node;
                              Some (if b then 1 + resultr else resultr) } } }"

definition rb_tree_nocmp_ptrs_valid :: "rb_tree_nocmp \<Rightarrow> bool option" where
  "rb_tree_nocmp_ptrs_valid t =
     (if root t = 0 then Some True
      else do { p \<leftarrow> get_parent t (root t);
                if p \<noteq> 0 then Some False else subtree_ptrs_valid t (root t) })"

definition rb_tree_nocmp_valid :: "rb_tree_nocmp \<Rightarrow> bool option" where
  "rb_tree_nocmp_valid t =
     (if root t = 0 then Some True
      else do { p \<leftarrow> get_parent t (root t);
                if p \<noteq> 0 then Some False
                else do { h \<leftarrow> rb_subtree_height t (root t); Some (\<not> h < 0) } })"

definition rb_tree_nocmp_leftmost :: "rb_tree_nocmp \<Rightarrow> ptr option" where
  "rb_tree_nocmp_leftmost t = (if root t = 0 then Some 0 else leftmost_from t (root t))"

definition rb_tree_nocmp_rightmost :: "rb_tree_nocmp \<Rightarrow> ptr option" where
  "rb_tree_nocmp_rightmost t = (if root t = 0 then Some 0 else rightmost_from t (root t))"

definition sibling_parent :: "rb_tree_nocmp \<Rightarrow> ptr \<Rightarrow> ptr \<Rightarrow> ptr option" where
  "sibling_parent t node p =
     (if p = 0 then Some 0
      else do { l \<leftarrow> get_left t p; if node = l then get_right t p else get_left t p })"

definition sibling :: "rb_tree_nocmp \<Rightarrow> ptr \<Rightarrow> ptr option" where
  "sibling t node =
     do { p \<leftarrow> get_parent t node;
          if p = 0 then Some 0
          else do { l \<leftarrow> get_left t p; if node = l then get_right t p else get_left t p } }"

definition uncle :: "rb_tree_nocmp \<Rightarrow> ptr \<Rightarrow> ptr option" where
  "uncle t node =
     do { p \<leftarrow> get_parent t node;
          g \<leftarrow> get_parent t p;
          if g = 0 then Some 0 else sibling t p }"

section \<open>Rotations and insertion\<close>

text \<open>The end of both rotations: \<open>q\<close> takes the place of \<open>p\<close> below \<open>par\<close>.\<close>

definition relink :: "rb_tree_nocmp \<Rightarrow> ptr \<Rightarrow> ptr \<Rightarrow> ptr \<Rightarrow> rb_tree_nocmp option" where
  "relink t par p q =
     (if par = 0 then set_parent (t\<lparr>root := q\<rparr>) q 0
      else do { l \<leftarrow> get_left t par;
                r \<leftarrow> get_right t par;
                if l = p then do { t \<leftarrow> set_left t par q; set_parent t q par }
                else if r = p then do { t \<leftarrow> set_right t par q; set_parent t q par }
                else None })"

definition rotate_left :: "rb_tree_nocmp \<Rightarrow> ptr \<Rightarrow> rb_tree_nocmp option" where
  "rotate_left t p =
     do { par \<leftarrow> get_parent t p;
          q \<leftarrow> get_right t p;
          a \<leftarrow> get_left t p;
          b \<leftarrow> get_left t q;
          c \<leftarrow> get_right t q;
          t \<leftarrow> set_left t p a;
          t \<leftarrow> set_parent_if t a p;
          t \<leftarrow> set_right t p b;
          t \<leftarrow> set_parent_if t b p;
          t \<leftarrow> set_left t q p;
          t \<leftarrow> set_parent t p q;
          t \<leftarrow> set_right t q c;
          t \<leftarrow> set_parent_if t c q;
          relink t par p q }"

definition rotate_right :: "rb_tree_nocmp \<Rightarrow> ptr \<Rightarrow> rb_tree_nocmp option" where
  "rotate_right t q =
     do { par \<leftarrow> get_parent t q;
          p \<leftarrow> get_left t q;
          a \<leftarrow> get_left t p;
          b \<leftarrow> get_right t p;
          c \<leftarrow> get_right t q;
          t \<leftarrow> set_left t p a;
          t \<leftarrow> set_parent_if t a p;
          t \<leftarrow> set_right t p q;
          t \<leftarrow> set_parent t q p;
          t \<leftarrow> set_left t q b;
          t \<leftarrow> set_parent_if t b q;
          t \<leftarrow> set_right t q c;
          t \<leftarrow> set_parent_if t c q;
          relink t par q p }"

text \<open>The last branch of the repair: the parent is red and the uncle is not.\<close>

definition insert_rotate :: "rb_tree_nocmp \<Rightarrow> ptr \<Rightarrow> rb_tree_nocmp option" where
  "insert_rotate t node =
     do { p \<leftarrow> get_parent t node;
          g \<leftarrow> get_parent t p;
          gl \<leftarrow> get_left t g;
          glr \<leftarrow> (if gl \<noteq> 0 then map_option Some (get_right t gl) else Some None);
          (t, node) \<leftarrow>
            (if glr = Some node
             then do { t \<leftarrow> rotate_left t p; n \<leftarrow> get_left t node; Some (t, n) }
             else do { gr \<leftarrow> get_right t g;
                       grl \<leftarrow> (if gr \<noteq> 0 then map_option Some (get_left t gr) else Some None);
                       if grl = Some node
                       then do { t \<leftarrow> rotate_right t p; n \<leftarrow> get_right t node; Some (t, n) }
                       else Some (t, node) });
          p \<leftarrow> get_parent t node;
          g \<leftarrow> get_parent t p;
          pl \<leftarrow> get_left t p;
          t \<leftarrow> (if node = pl then rotate_right t g else rotate_left t g);
          t \<leftarrow> set_tag t p True;
          set_tag t g False }"

partial_function (option) rb_tree_nocmp_insert_repair :: "rb_tree_nocmp \<Rightarrow> ptr \<Rightarrow> rb_tree_nocmp option" where
  "rb_tree_nocmp_insert_repair t node =
     do { p \<leftarrow> get_parent t node;
          if p = 0 then set_tag t node True
          else do { pb \<leftarrow> get_tag t p;
                    if pb then Some t
                    else do { u \<leftarrow> uncle t node;
                              ub \<leftarrow> (if u \<noteq> 0 then get_tag t u else Some True);
                              if \<not> ub
                              then do { t \<leftarrow> set_tag t p True;
                                        t \<leftarrow> set_tag t u True;
                                        g \<leftarrow> get_parent t p;
                                        t \<leftarrow> set_tag t g False;
                                        rb_tree_nocmp_insert_repair t g }
                              else insert_rotate t node } } }"

definition rb_tree_insert :: "(ptr \<Rightarrow> ptr \<Rightarrow> int) \<Rightarrow> rb_tree_nocmp \<Rightarrow> ptr \<Rightarrow> rb_tree_nocmp option" where
  "rb_tree_insert cmp t node =
     do { t \<leftarrow> fresh_node t False node;
          if root t = 0
          then do { t \<leftarrow> set_parent (t\<lparr>root := node\<rparr>) node 0;
                    rb_tree_nocmp_insert_repair t node }
          else insert_from rb_tree_nocmp_insert_repair cmp t node (root t) }"

partial_function (option) rb_tree_find_from :: "(ptr \<Rightarrow> ptr \<Rightarrow> int) \<Rightarrow> rb_tree_nocmp \<Rightarrow> ptr \<Rightarrow> ptr \<Rightarrow> ptr option" where
  "rb_tree_find_from cmp t tofind node =
     (if node = 0 then Some 0
      else let res = cmp tofind node
           in if res < 0 then do { l \<leftarrow> get_left t node; rb_tree_find_from cmp t tofind l }
              else if res > 0 then do { r \<leftarrow> get_right t node; rb_tree_find_from cmp t tofind r }
              else Some node)"

definition rb_tree_nocmp_find :: "(ptr \<Rightarrow> ptr \<Rightarrow> int) \<Rightarrow> rb_tree_nocmp \<Rightarrow> ptr \<Rightarrow> ptr option" where
  "rb_tree_nocmp_find cmp t tofind = rb_tree_find_from cmp t tofind (root t)"

text \<open>The second result is false for \<^verbatim>\<open>-EEXIST\<close>.\<close>

partial_function (option) insert_nonexist_from ::
  "(ptr \<Rightarrow> ptr \<Rightarrow> int) \<Rightarrow> rb_tree_nocmp \<Rightarrow> ptr \<Rightarrow> ptr \<Rightarrow> (rb_tree_nocmp \<times> bool) option" where
  "insert_nonexist_from cmp t toinsert node =
     (let res = cmp toinsert node
      in if res < 0
         then do { l \<leftarrow> get_left t node;
                   if l = 0
                   then do { t \<leftarrow> set_left t node toinsert;
                             t \<leftarrow> set_parent t toinsert node;
                             t \<leftarrow> rb_tree_nocmp_insert_repair t toinsert;
                             Some (t, True) }
                   else insert_nonexist_from cmp t toinsert l }
         else if res > 0
         then do { r \<leftarrow> get_right t node;
                   if r = 0
                   then do { t \<leftarrow> set_right t node toinsert;
                             t \<leftarrow> set_parent t toinsert node;
                             t \<leftarrow> rb_tree_nocmp_insert_repair t toinsert;
                             Some (t, True) }
                   else insert_nonexist_from cmp t toinsert r }
         else Some (t, False))"

definition rb_tree_nocmp_insert_nonexist ::
  "(ptr \<Rightarrow> ptr \<Rightarrow> int) \<Rightarrow> rb_tree_nocmp \<Rightarrow> ptr \<Rightarrow> (rb_tree_nocmp \<times> bool) option" where
  "rb_tree_nocmp_insert_nonexist cmp t toinsert =
     do { let node = root t;
          t \<leftarrow> fresh_node t False toinsert;
          if node = 0
          then do { t \<leftarrow> set_parent (t\<lparr>root := toinsert\<rparr>) toinsert 0;
                    t \<leftarrow> rb_tree_nocmp_insert_repair t toinsert;
                    Some (t, True) }
          else insert_nonexist_from cmp t toinsert node }"

text \<open>The macros, with the loops of the functions.\<close>

definition RB_TREE_NOCMP_FIND :: "rb_tree_nocmp \<Rightarrow> (ptr \<Rightarrow> ptr \<Rightarrow> int) \<Rightarrow> ptr \<Rightarrow> ptr option" where
  "RB_TREE_NOCMP_FIND t cmp tofind = rb_tree_find_from cmp t tofind (root t)"

definition RB_TREE_NOCMP_INSERT_NONEXIST ::
  "rb_tree_nocmp \<Rightarrow> (ptr \<Rightarrow> ptr \<Rightarrow> int) \<Rightarrow> ptr \<Rightarrow> (rb_tree_nocmp \<times> bool) option" where
  "RB_TREE_NOCMP_INSERT_NONEXIST t cmp toinsert =
     do { let node = root t;
          t \<leftarrow> fresh_node t False toinsert;
          t \<leftarrow> (if node = 0
                then do { t \<leftarrow> set_parent (t\<lparr>root := toinsert\<rparr>) toinsert 0;
                          rb_tree_nocmp_insert_repair t toinsert }
                else Some t);
          if node \<noteq> 0 then insert_nonexist_from cmp t toinsert node else Some (t, True) }"

lemma rb_tree_macros:
  "RB_TREE_NOCMP_FIND t cmp x = rb_tree_nocmp_find cmp t x"
  "RB_TREE_NOCMP_INSERT_NONEXIST t cmp x = rb_tree_nocmp_insert_nonexist cmp t x"
  by (simp add: RB_TREE_NOCMP_FIND_def rb_tree_nocmp_find_def)
    (cases "root t = 0"; simp add: RB_TREE_NOCMP_INSERT_NONEXIST_def rb_tree_nocmp_insert_nonexist_def Let_def)

section \<open>Deletion\<close>

definition rb_tree_delete_case6 :: "rb_tree_nocmp \<Rightarrow> ptr \<Rightarrow> ptr \<Rightarrow> rb_tree_nocmp option" where
  "rb_tree_delete_case6 t n par =
     do { s \<leftarrow> sibling_parent t n par;
          pb \<leftarrow> get_tag t par;
          t \<leftarrow> set_tag t s pb;
          t \<leftarrow> set_tag t par True;
          l \<leftarrow> get_left t par;
          if n = l
          then do { sr \<leftarrow> get_right t s; t \<leftarrow> set_tag t sr True; rotate_left t par }
          else do { sl \<leftarrow> get_left t s; t \<leftarrow> set_tag t sl True; rotate_right t par } }"

text \<open>The tests \<^verbatim>\<open>p == NULL || p->is_black\<close> and \<^verbatim>\<open>p != NULL && p->is_black == 0\<close>.\<close>

definition null_or_black :: "rb_tree_nocmp \<Rightarrow> ptr \<Rightarrow> bool" where
  "null_or_black t p \<longleftrightarrow> p = 0 \<or> tag (nodes t p)"

definition is_red :: "rb_tree_nocmp \<Rightarrow> ptr \<Rightarrow> bool" where
  "is_red t p \<longleftrightarrow> p \<noteq> 0 \<and> \<not> tag (nodes t p)"

definition rb_tree_delete_case5 :: "rb_tree_nocmp \<Rightarrow> ptr \<Rightarrow> ptr \<Rightarrow> rb_tree_nocmp option" where
  "rb_tree_delete_case5 t n par =
     do { s \<leftarrow> sibling_parent t n par;
          sb \<leftarrow> get_tag t s;
          t \<leftarrow> (if sb
                then do { pl \<leftarrow> get_left t par;
                          pr \<leftarrow> get_right t par;
                          sl \<leftarrow> get_left t s;
                          sr \<leftarrow> get_right t s;
                          if n = pl \<and> null_or_black t sr \<and> is_red t sl
                          then do { t \<leftarrow> set_tag t s False; t \<leftarrow> set_tag t sl True; rotate_right t s }
                          else if n = pr \<and> null_or_black t sl \<and> is_red t sr
                          then do { t \<leftarrow> set_tag t s False; t \<leftarrow> set_tag t sr True; rotate_left t s }
                          else Some t }
                else Some t);
          rb_tree_delete_case6 t n par }"

text \<open>
  The condition that cases 3 and 4 share: the sibling and its children are black.  The test
  \<^verbatim>\<open>s == NULL || s->is_black\<close> is followed by reads of \<^verbatim>\<open>s->left\<close>, so a null sibling is read.
\<close>

definition sibling_all_black :: "rb_tree_nocmp \<Rightarrow> ptr \<Rightarrow> bool option" where
  "sibling_all_black t s =
     (if \<not> null_or_black t s then Some False
      else do { sl \<leftarrow> get_left t s;
                if \<not> null_or_black t sl then Some False
                else do { sr \<leftarrow> get_right t s; Some (null_or_black t sr) } })"

definition rb_tree_delete_case4 :: "rb_tree_nocmp \<Rightarrow> ptr \<Rightarrow> ptr \<Rightarrow> rb_tree_nocmp option" where
  "rb_tree_delete_case4 t n par =
     do { s \<leftarrow> sibling_parent t n par;
          pb \<leftarrow> get_tag t par;
          ok \<leftarrow> (if pb then Some False else sibling_all_black t s);
          if ok
          then do { t \<leftarrow> set_tag t s False; set_tag t par True }
          else rb_tree_delete_case5 t n par }"

text \<open>Cases 1 to 3 call each other; the call of case 1 is a parameter of the other two.\<close>

definition rb_tree_delete_case3 ::
  "(rb_tree_nocmp \<Rightarrow> ptr \<Rightarrow> ptr \<Rightarrow> rb_tree_nocmp option) \<Rightarrow> rb_tree_nocmp \<Rightarrow> ptr \<Rightarrow> ptr \<Rightarrow> rb_tree_nocmp option" where
  "rb_tree_delete_case3 case1 t n par =
     do { s \<leftarrow> sibling_parent t n par;
          ok \<leftarrow> (if null_or_black t par then sibling_all_black t s else Some False);
          if ok
          then do { t \<leftarrow> set_tag t s False; pp \<leftarrow> get_parent t par; case1 t par pp }
          else rb_tree_delete_case4 t n par }"

definition rb_tree_delete_case2 ::
  "(rb_tree_nocmp \<Rightarrow> ptr \<Rightarrow> ptr \<Rightarrow> rb_tree_nocmp option) \<Rightarrow> rb_tree_nocmp \<Rightarrow> ptr \<Rightarrow> ptr \<Rightarrow> rb_tree_nocmp option" where
  "rb_tree_delete_case2 case1 t n par =
     do { s \<leftarrow> sibling_parent t n par;
          t \<leftarrow> (if is_red t s
                then do { t \<leftarrow> set_tag t par False;
                          t \<leftarrow> set_tag t s True;
                          l \<leftarrow> get_left t par;
                          if n = l then rotate_left t par else rotate_right t par }
                else Some t);
          rb_tree_delete_case3 case1 t n par }"

lemma rb_tree_delete_case2_mono [partial_function_mono]:
  "option.mono_body (\<lambda>f. rb_tree_delete_case2 (\<lambda>t n p. f ((t, n), p)) t n par)"
  unfolding rb_tree_delete_case2_def rb_tree_delete_case3_def
  by (intro bind_mono option.const_mono if_mono call_mono)

partial_function (option) rb_tree_delete_case1 :: "rb_tree_nocmp \<Rightarrow> ptr \<Rightarrow> ptr \<Rightarrow> rb_tree_nocmp option" where
  "rb_tree_delete_case1 t node par =
     (if par \<noteq> 0 then rb_tree_delete_case2 rb_tree_delete_case1 t node par else Some t)"

definition rb_tree_delete_one_child :: "rb_tree_nocmp \<Rightarrow> ptr \<Rightarrow> rb_tree_nocmp option" where
  "rb_tree_delete_one_child t node =
     do { m \<leftarrow> node_of t node;
          let child = (if right m = 0 then left m else right m);
          t \<leftarrow> put_child t (parent m) node child;
          if tag m
          then (if is_red t child then set_tag t child True
                else rb_tree_delete_case1 t child (parent m))
          else Some t }"

text \<open>Putting \<open>n2\<close>, which is not part of the tree, in the place of \<open>n1\<close>; no function of the library calls it.\<close>

definition rb_tree_replace :: "rb_tree_nocmp \<Rightarrow> ptr \<Rightarrow> ptr \<Rightarrow> rb_tree_nocmp option" where
  "rb_tree_replace t n1 n2 =
     do { m1 \<leftarrow> node_of t n1;
          t \<leftarrow> exchange_child t (parent m1) n1 n2;
          t \<leftarrow> set_parent t n2 (parent m1);
          t \<leftarrow> set_left t n2 (left m1);
          t \<leftarrow> set_right t n2 (right m1);
          t \<leftarrow> set_parent t n1 0;
          t \<leftarrow> set_left t n1 0;
          t \<leftarrow> set_right t n1 0;
          m2 \<leftarrow> node_of t n2;
          t \<leftarrow> set_parent_if t (left m2) n2;
          t \<leftarrow> set_parent_if t (right m2) n2;
          Some (if parent m2 = 0 then t\<lparr>root := n2\<rparr> else t) }"

definition rb_tree_nocmp_delete :: "rb_tree_nocmp \<Rightarrow> ptr \<Rightarrow> rb_tree_nocmp option" where
  "rb_tree_nocmp_delete t node =
     do { m \<leftarrow> node_of t node;
          if left m \<noteq> 0 \<and> right m \<noteq> 0
          then do { node2 \<leftarrow> rightmost_from t (left m);
                    t \<leftarrow> tree_exchange t node node2;
                    rb_tree_delete_one_child t node }
          else rb_tree_delete_one_child t node }"

section \<open>Trees with a comparison function\<close>

text \<open>
  A \<^verbatim>\<open>struct rb_tree\<close> is a tree and its comparison function, which the functions that compare
  take as a parameter; the others only pass the tree on.
\<close>

definition rb_tree_init :: "rb_tree_nocmp \<Rightarrow> rb_tree_nocmp" where
  "rb_tree_init t = rb_tree_nocmp_init t"

definition rb_tree_root :: "rb_tree_nocmp \<Rightarrow> ptr" where
  "rb_tree_root t = rb_tree_nocmp_root t"

definition rb_tree_valid :: "rb_tree_nocmp \<Rightarrow> bool option" where
  "rb_tree_valid t = rb_tree_nocmp_valid t"

definition rb_tree_leftmost :: "rb_tree_nocmp \<Rightarrow> ptr option" where
  "rb_tree_leftmost t = rb_tree_nocmp_leftmost t"

definition rb_tree_rightmost :: "rb_tree_nocmp \<Rightarrow> ptr option" where
  "rb_tree_rightmost t = rb_tree_nocmp_rightmost t"

definition rb_tree_insert_repair :: "rb_tree_nocmp \<Rightarrow> ptr \<Rightarrow> rb_tree_nocmp option" where
  "rb_tree_insert_repair t node = rb_tree_nocmp_insert_repair t node"

definition rb_tree_delete :: "rb_tree_nocmp \<Rightarrow> ptr \<Rightarrow> rb_tree_nocmp option" where
  "rb_tree_delete t node = rb_tree_nocmp_delete t node"

lemmas rb_tree_wrappers = rb_tree_init_def rb_tree_root_def rb_tree_valid_def rb_tree_leftmost_def rb_tree_rightmost_def
  rb_tree_insert_repair_def rb_tree_delete_def

end
