(* ===== verification/RbRep.thy ===== *)
theory RbRep
  imports RbTree TreeRep
begin

text \<open>
  The rotations of the red-black tree are rotations of the subtree at a position.
\<close>

type_synonym rbt = "bool ptree"

lemma relink_at:
  assumes "path (nodes t0) (root t) p C" "distinct (path_addrs C)"
    and "\<And>x. x \<in> set (path_addrs C) \<Longrightarrow> nodes t x = nodes t0 x"
    and "q \<noteq> 0" "q \<notin> set (path_addrs C)" "p \<noteq> 0" "p \<notin> set (path_addrs C)"
  shows "\<exists>t'. relink t (par_of C) p q = Some t' \<and> path (nodes t') (root t') q C \<and>
    (\<forall>x. x \<noteq> q \<longrightarrow> x \<notin> set (path_addrs C) \<longrightarrow> nodes t' x = nodes t x) \<and>
    nodes t' q = (nodes t q)\<lparr>parent := par_of C\<rparr>"
proof (cases C)
  case Nil
  then show ?thesis using assms by (auto simp: relink_def)
next
  case (Cons c C')
  note pm = path_moved [OF assms(1,2)]
  have ne: "q \<noteq> crumb_addr c" "crumb_addr c \<noteq> 0" "nodes t (crumb_addr c) = nodes t0 (crumb_addr c)"
    using assms Cons by (cases c; auto)+
  show ?thesis
  proof (cases c)
    case (InL b x r)
    let ?t = "t\<lparr>nodes := (nodes t)(x := (nodes t x)\<lparr>left := q\<rparr>, q := (nodes t q)\<lparr>parent := x\<rparr>)\<rparr>"
    have "relink t (par_of C) p q = Some ?t"
      using assms ne Cons InL by (auto simp: relink_def node_is_def)
    moreover have "path (nodes ?t) (root ?t) q C"
      by (rule pm) (use assms ne Cons InL in auto)
    ultimately show ?thesis using Cons InL ne by auto
  next
    case (InR l b x)
    have "addr_of l \<noteq> p" using assms(6,7) Cons InR addr_of_in [of l] by auto
    let ?t = "t\<lparr>nodes := (nodes t)(x := (nodes t x)\<lparr>right := q\<rparr>, q := (nodes t q)\<lparr>parent := x\<rparr>)\<rparr>"
    have "relink t (par_of C) p q = Some ?t"
      using assms ne Cons InR \<open>addr_of l \<noteq> p\<close> by (auto simp: relink_def node_is_def)
    moreover have "path (nodes ?t) (root ?t) q C"
      by (rule pm) (use assms ne Cons InR in auto)
    ultimately show ?thesis using Cons InR ne by auto
  qed
qed

section \<open>Rotations\<close>

text \<open>
  Two nodes \<open>p\<close> and \<open>q\<close> with three subtrees: the store \<open>h\<close> differs from \<open>h0\<close> at the two nodes and in
  the parent pointers of the subtrees only, and \<open>y\<close> takes the place of \<open>x\<close>.
\<close>

lemma relink_rebuild:
  fixes p q :: ptr
  assumes di: "distinct (addrs a @ p # addrs b @ q # addrs c @ path_addrs C)"
    and st: "subt h0 pa a" "subt h0 pb b" "subt h0 pc c" "path h0 (root t) x C"
    and xy: "x \<in> {p, q}" "y \<in> {p, q}" "p \<noteq> 0" "q \<noteq> 0"
    and ha: "addr_of a \<noteq> 0 \<Longrightarrow> h (addr_of a) = (h0 (addr_of a))\<lparr>parent := pa'\<rparr>"
    and hb: "addr_of b \<noteq> 0 \<Longrightarrow> h (addr_of b) = (h0 (addr_of b))\<lparr>parent := pb'\<rparr>"
    and hc: "addr_of c \<noteq> 0 \<Longrightarrow> h (addr_of c) = (h0 (addr_of c))\<lparr>parent := pc'\<rparr>"
    and ho: "\<And>z. z \<notin> {p, q, addr_of a, addr_of b, addr_of c} \<Longrightarrow> h z = h0 z"
  obtains t' where "relink (t\<lparr>nodes := h\<rparr>) (par_of C) x y = Some t'" "path (nodes t') (root t') y C"
    "\<And>z. z \<in> {p, q} \<Longrightarrow> z \<noteq> y \<Longrightarrow> nodes t' z = h z" "nodes t' y = (h y)\<lparr>parent := par_of C\<rparr>"
    "subt (nodes t') pa' a" "subt (nodes t') pb' b" "subt (nodes t') pc' c"
proof -
  let ?P = "set (path_addrs C)"
  have nz: "0 \<notin> ?P" "0 \<notin> set (addrs a)" "0 \<notin> set (addrs b)" "0 \<notin> set (addrs c)"
    using st by (auto dest: subt_nonzero path_nonzero)
  have h: "h z = h0 z" if "z \<noteq> p" "z \<noteq> q" "z \<noteq> 0" "z \<in> set (addrs a) \<Longrightarrow> z \<noteq> addr_of a"
      "z \<in> set (addrs b) \<Longrightarrow> z \<noteq> addr_of b" "z \<in> set (addrs c) \<Longrightarrow> z \<noteq> addr_of c" for z
  proof (rule ho)
    have "z \<noteq> addr_of a" "z \<noteq> addr_of b" "z \<noteq> addr_of c" using that addr_of_neq by blast+
    then show "z \<notin> {p, q, addr_of a, addr_of b, addr_of c}" using that(1,2) by simp
  qed
  have hP: "h z = h0 z" if "z \<in> ?P" for z using that di nz by (intro h) auto
  have y: "y \<noteq> 0" "y \<notin> ?P" "x \<noteq> 0" "x \<notin> ?P" using xy di by auto
  from relink_at [of "t\<lparr>nodes := h0\<rparr>" "t\<lparr>nodes := h\<rparr>" x C y] st(4) di hP y obtain t' where
    t': "relink (t\<lparr>nodes := h\<rparr>) (par_of C) x y = Some t'" "path (nodes t') (root t') y C"
    "\<And>z. z \<noteq> y \<Longrightarrow> z \<notin> ?P \<Longrightarrow> nodes t' z = h z" "nodes t' y = (h y)\<lparr>parent := par_of C\<rparr>" by auto
  have tz: "nodes t' z = h z" if "z \<notin> insert y ?P" for z using that t'(3) by simp
  show ?thesis
  proof
    show "nodes t' z = h z" if "z \<in> {p, q}" "z \<noteq> y" for z using that tz di by auto
    show "subt (nodes t') pa' a"
      by (rule subt_moved_via [OF st(1), where h = h and X = "insert y ?P"]) (use di nz tz ha xy(2) in \<open>auto intro!: h\<close>)
    show "subt (nodes t') pb' b"
      by (rule subt_moved_via [OF st(2), where h = h and X = "insert y ?P"]) (use di nz tz hb xy(2) in \<open>auto intro!: h\<close>)
    show "subt (nodes t') pc' c"
      by (rule subt_moved_via [OF st(3), where h = h and X = "insert y ?P"]) (use di nz tz hc xy(2) in \<open>auto intro!: h\<close>)
  qed (rule t')+
qed

lemma three_subtrees_distinct:
  assumes "distinct (addrs a @ p # addrs b @ q # addrs c @ ps)" "p \<noteq> 0" "q \<noteq> 0"
  shows "p \<noteq> q" "addr_of a \<noteq> p" "addr_of a \<noteq> q" "addr_of b \<noteq> p" "addr_of b \<noteq> q" "addr_of c \<noteq> p" "addr_of c \<noteq> q"
    "addr_of a \<noteq> 0 \<Longrightarrow> addr_of a \<noteq> addr_of b" "addr_of a \<noteq> 0 \<Longrightarrow> addr_of a \<noteq> addr_of c" "addr_of b \<noteq> 0 \<Longrightarrow> addr_of b \<noteq> addr_of c"
  using assms by (simp_all add: addr_of_neq addr_of_disjoint Int_Un_distrib)

lemma rotate_left_at:
  assumes "at t (N a bp p (N b bq q c)) C"
  shows "\<exists>t'. rotate_left t p = Some t' \<and> at t' (N (N a bp p b) bq q c) C"
proof -
  let ?h = "nodes t"
  have ad: "p \<noteq> 0" "q \<noteq> 0" "node_is (?h p) bp (addr_of a) q (par_of C)" "node_is (?h q) bq (addr_of b) (addr_of c) p"
    "subt ?h p a" "subt ?h q b" "subt ?h q c" "path ?h (root t) p C"
    and di: "distinct (addrs a @ p # addrs b @ q # addrs c @ path_addrs C)"
    using assms by (auto simp: at_def)
  note ne = three_subtrees_distinct [OF di ad(1,2)]
  note ns = ad(1,2) ne(1-7) ne(1-7) [symmetric]
  have nd: "left (?h p) = addr_of a" "right (?h p) = q" "parent (?h p) = par_of C" "left (?h q) = addr_of b" "right (?h q) = addr_of c"
    using ad(3,4) by (auto simp: node_is_def)
  define h where "h = reparent ((reparent ((reparent (?h(p := (?h p)\<lparr>left := addr_of a\<rparr>)) (addr_of a) p)
      (p := (?h p)\<lparr>left := addr_of a, right := addr_of b\<rparr>)) (addr_of b) p)
      (p := (?h p)\<lparr>left := addr_of a, right := addr_of b, parent := q\<rparr>, q := (?h q)\<lparr>left := p, right := addr_of c\<rparr>))
      (addr_of c) q"
  have r: "rotate_left t p = relink (t\<lparr>nodes := h\<rparr>) (par_of C) p q"
    by (simp add: rotate_left_def nd ns h_def)
  have hpq: "h p = (?h p)\<lparr>left := addr_of a, right := addr_of b, parent := q\<rparr>" "h q = (?h q)\<lparr>left := p, right := addr_of c\<rparr>"
    by (simp_all add: h_def ns)
  obtain t' where t': "rotate_left t p = Some t'" "path (nodes t') (root t') q C"
    "\<And>z. z \<in> {p, q} \<Longrightarrow> z \<noteq> q \<Longrightarrow> nodes t' z = h z" "nodes t' q = (h q)\<lparr>parent := par_of C\<rparr>"
    "subt (nodes t') p a" "subt (nodes t') p b" "subt (nodes t') q c"
    unfolding r
    by (rule relink_rebuild [OF di ad(5-8), of q h p p q]) (use ne in \<open>auto simp: h_def ns reparent_def\<close>)
  then show ?thesis
    using t'(3) [of p] di ad(1-4) hpq ne(1) by (auto simp: at_def node_is_def)
qed

lemma rotate_right_at:
  assumes "at t (N (N a bp p b) bq q c) C"
  shows "\<exists>t'. rotate_right t q = Some t' \<and> at t' (N a bp p (N b bq q c)) C"
proof -
  let ?h = "nodes t"
  have ad: "p \<noteq> 0" "q \<noteq> 0" "node_is (?h p) bp (addr_of a) (addr_of b) q" "node_is (?h q) bq p (addr_of c) (par_of C)"
    "subt ?h p a" "subt ?h p b" "subt ?h q c" "path ?h (root t) q C"
    and di: "distinct (addrs a @ p # addrs b @ q # addrs c @ path_addrs C)"
    using assms by (auto simp: at_def)
  note ne = three_subtrees_distinct [OF di ad(1,2)]
  note ns = ad(1,2) ne(1-7) ne(1-7) [symmetric]
  have nd: "left (?h p) = addr_of a" "right (?h p) = addr_of b" "parent (?h q) = par_of C" "left (?h q) = p" "right (?h q) = addr_of c"
    using ad(3,4) by (auto simp: node_is_def)
  define h where "h = reparent ((reparent ((reparent (?h(p := (?h p)\<lparr>left := addr_of a\<rparr>)) (addr_of a) p)
      (p := (?h p)\<lparr>left := addr_of a, right := q\<rparr>, q := (?h q)\<lparr>parent := p, left := addr_of b\<rparr>)) (addr_of b) q)
      (q := (?h q)\<lparr>parent := p, left := addr_of b, right := addr_of c\<rparr>)) (addr_of c) q"
  have r: "rotate_right t q = relink (t\<lparr>nodes := h\<rparr>) (par_of C) q p"
    by (simp add: rotate_right_def nd ns h_def)
  have hpq: "h p = (?h p)\<lparr>left := addr_of a, right := q\<rparr>" "h q = (?h q)\<lparr>parent := p, left := addr_of b, right := addr_of c\<rparr>"
    by (simp_all add: h_def ns)
  obtain t' where t': "rotate_right t q = Some t'" "path (nodes t') (root t') p C"
    "\<And>z. z \<in> {p, q} \<Longrightarrow> z \<noteq> p \<Longrightarrow> nodes t' z = h z" "nodes t' p = (h p)\<lparr>parent := par_of C\<rparr>"
    "subt (nodes t') p a" "subt (nodes t') q b" "subt (nodes t') q c"
    unfolding r
    by (rule relink_rebuild [OF di ad(5-8), of p h p q q]) (use ne in \<open>auto simp: h_def ns reparent_def\<close>)
  then show ?thesis
    using t'(3) [of q] di ad(1-4) hpq ne(1) by (auto simp: at_def node_is_def)
qed

end
