(* ===== verification/RbInsert.thy ===== *)
theory RbInsert
  imports RbRep TreeSearch
begin

text \<open>
  Insertion into the red-black tree.  The repair after an insertion keeps the order of the nodes and
  restores the invariants; the functions that insert and find nodes are correct for every
  comparison function that orders the nodes by a key.
\<close>

section \<open>Invariants\<close>

fun black_root :: "rbt \<Rightarrow> bool" where
  "black_root E = True"
| "black_root (N l b x r) = b"

text \<open>No red node has a red child, and every path to a leaf has \<open>n\<close> black nodes.\<close>

fun rbt_ok :: "nat \<Rightarrow> rbt \<Rightarrow> bool" where
  "rbt_ok n E = (n = 0)"
| "rbt_ok n (N l b x r) =
     (if b then (\<exists>m. n = Suc m \<and> rbt_ok m l \<and> rbt_ok m r)
      else black_root l \<and> black_root r \<and> rbt_ok n l \<and> rbt_ok n r)"

definition rbt_inv :: "rbt \<Rightarrow> bool" where
  "rbt_inv s \<longleftrightarrow> black_root s \<and> (\<exists>n. rbt_ok n s)"

text \<open>A subtree of black height \<open>n\<close> at the end of the path keeps the invariant, colours of the ends aside.\<close>

fun path_ok :: "nat \<Rightarrow> bool crumb list \<Rightarrow> bool" where
  "path_ok n [] = True"
| "path_ok n (c # C) =
     (rbt_ok n (crumb_tree c) \<and>
      (if ctag c then path_ok (Suc n) C
       else black_root (crumb_tree c) \<and> C \<noteq> [] \<and> ctag (hd C) \<and> path_ok n C))"

lemma rbt_ok_plug1:
  "rbt_ok n s \<Longrightarrow> rbt_ok n (crumb_tree c) \<Longrightarrow> ctag c \<or> black_root s \<and> black_root (crumb_tree c) \<Longrightarrow>
     rbt_ok (if ctag c then Suc n else n) (plug1 c s)"
  by (cases c) auto

lemma black_root_plug1 [simp]: "black_root (plug1 c s) = ctag c"
  by (cases c) auto

lemma rbt_inv_plug:
  assumes "rbt_ok n s" "path_ok n C" "black_root s \<or> (C \<noteq> [] \<and> ctag (hd C))"
  shows "rbt_inv (plug s C)"
  using assms
proof (induction C arbitrary: n s)
  case (Cons c C)
  have "rbt_ok (if ctag c then Suc n else n) (plug1 c s)" using Cons.prems by (intro rbt_ok_plug1) auto
  then show ?case using Cons.prems by (auto intro!: Cons.IH split: if_splits)
qed (auto simp: rbt_inv_def)

lemma insert_rotate_ll:
  assumes "at t (N l False x r) (InL False p s # InL True g u # C)"
  shows "\<exists>t'. insert_rotate t x = Some t' \<and> at t' (N (N l False x r) True p (N s False g u)) C"
proof -
  let ?n = "N l False x r"
  have at2: "at t (N ?n False p s) (InL True g u # C)" and at3: "at t (N (N ?n False p s) True g u) C"
    using assms by (simp_all only: at_left)
  note nx = at_node [OF assms] and np = at_node [OF at2] and ng = at_node [OF at3]
  have ne: "addr_of s \<noteq> x" "u = N ul ub ux ur \<Longrightarrow> addr_of ul \<noteq> x" for ul ub ux ur
    using at3 nx(1) by (auto simp: at_def addr_of_neq)
  have ru: "addr_of u \<noteq> 0 \<Longrightarrow> left (nodes t (addr_of u)) \<noteq> x"
    using at3 ne(2) by (cases u) (auto simp: at_def node_is_def)
  obtain t1 where t1: "rotate_right t g = Some t1" "at t1 (N ?n False p (N s True g u)) C"
    using rotate_right_at [OF at3] by blast
  obtain t2 where t2: "set_tag t1 p True = Some t2" "at t2 (N ?n True p (N s True g u)) C"
    using set_tag_at [OF t1(2)] by blast
  obtain t3 where t3: "set_tag t2 g False = Some t3" "at t3 (N s False g u) (InR ?n True p # C)"
    using set_tag_at [of t2 s True g u "InR ?n True p # C" False] t2(2) by (auto simp: at_right)
  have "insert_rotate t x = Some t3"
    using t1(1) t2(1) t3(1) nx np ng ne ru by (auto simp: insert_rotate_def)
  then show ?thesis using t3(2) by (auto simp: at_right)
qed

lemma insert_rotate_rr:
  assumes "at t (N l False x r) (InR s False p # InR u True g # C)"
  shows "\<exists>t'. insert_rotate t x = Some t' \<and> at t' (N (N u False g s) True p (N l False x r)) C"
proof -
  let ?n = "N l False x r"
  have at2: "at t (N s False p ?n) (InR u True g # C)" and at3: "at t (N u True g (N s False p ?n)) C"
    using assms by (simp_all only: at_right)
  note nx = at_node [OF assms] and np = at_node [OF at2] and ng = at_node [OF at3]
  have ne: "addr_of s \<noteq> x" "u = N ul ub ux ur \<Longrightarrow> addr_of ur \<noteq> x" for ul ub ux ur
    using at3 nx(1) by (auto simp: at_def addr_of_neq)
  have ru: "addr_of u \<noteq> 0 \<Longrightarrow> right (nodes t (addr_of u)) \<noteq> x"
    using at3 ne(2) by (cases u) (auto simp: at_def node_is_def)
  obtain t1 where t1: "rotate_left t g = Some t1" "at t1 (N (N u True g s) False p ?n) C"
    using rotate_left_at [OF at3] by blast
  obtain t2 where t2: "set_tag t1 p True = Some t2" "at t2 (N (N u True g s) True p ?n) C"
    using set_tag_at [OF t1(2)] by blast
  obtain t3 where t3: "set_tag t2 g False = Some t3" "at t3 (N u False g s) (InL True p ?n # C)"
    using set_tag_at [of t2 u True g s "InL True p ?n # C" False] t2(2) by (auto simp: at_left)
  have "insert_rotate t x = Some t3"
    using t1(1) t2(1) t3(1) nx np ng ne ru by (auto simp: insert_rotate_def)
  then show ?thesis using t3(2) by (auto simp: at_left)
qed

lemma insert_rotate_lr:
  assumes "at t (N l False x r) (InR s False p # InL True g u # C)"
  shows "\<exists>t'. insert_rotate t x = Some t' \<and> at t' (N (N s False p l) True x (N r False g u)) C"
proof -
  let ?n = "N l False x r"
  have at2: "at t (N s False p ?n) (InL True g u # C)" and at3: "at t (N (N s False p ?n) True g u) C"
    using assms by (simp_all add: at_up)
  note nx = at_node [OF assms] and np = at_node [OF at2] and ng = at_node [OF at3]
  obtain t0 where t0: "rotate_left t p = Some t0" "at t0 (N (N s False p l) False x r) (InL True g u # C)"
    using rotate_left_at [OF at2] by blast
  then have at5: "at t0 (N s False p l) (InL False x r # InL True g u # C)"
    and at6: "at t0 (N (N (N s False p l) False x r) True g u) C" by (simp_all only: at_left)
  note nx0 = at_node [OF t0(2)] and np0 = at_node [OF at5] and ng0 = at_node [OF at6]
  obtain t1 where t1: "rotate_right t0 g = Some t1" "at t1 (N (N s False p l) False x (N r True g u)) C"
    using rotate_right_at [OF at6] by blast
  obtain t2 where t2: "set_tag t1 x True = Some t2" "at t2 (N (N s False p l) True x (N r True g u)) C"
    using set_tag_at [OF t1(2)] by blast
  obtain t3 where t3: "set_tag t2 g False = Some t3" "at t3 (N r False g u) (InR (N s False p l) True x # C)"
    using set_tag_at [of t2 r True g u "InR (N s False p l) True x # C" False] t2(2) by (auto simp: at_right)
  have "insert_rotate t x = Some t3"
    using t0(1) t1(1) t2(1) t3(1) nx np ng nx0 np0 ng0 by (auto simp: insert_rotate_def)
  then show ?thesis using t3(2) by (auto simp: at_right)
qed

lemma insert_rotate_rl:
  assumes "at t (N l False x r) (InL False p s # InR u True g # C)"
  shows "\<exists>t'. insert_rotate t x = Some t' \<and> at t' (N (N u False g l) True x (N r False p s)) C"
proof -
  let ?n = "N l False x r"
  have at2: "at t (N ?n False p s) (InR u True g # C)" and at3: "at t (N u True g (N ?n False p s)) C"
    using assms by (simp_all add: at_up)
  note nx = at_node [OF assms] and np = at_node [OF at2] and ng = at_node [OF at3]
  have ne: "u = N ul ub ux ur \<Longrightarrow> addr_of ur \<noteq> x" for ul ub ux ur
    using at3 nx(1) by (auto simp: at_def addr_of_neq)
  have ru: "addr_of u \<noteq> 0 \<Longrightarrow> right (nodes t (addr_of u)) \<noteq> x"
    using at3 ne by (cases u) (auto simp: at_def node_is_def)
  obtain t0 where t0: "rotate_right t p = Some t0" "at t0 (N l False x (N r False p s)) (InR u True g # C)"
    using rotate_right_at [OF at2] by blast
  then have at5: "at t0 (N r False p s) (InR l False x # InR u True g # C)"
    and at6: "at t0 (N u True g (N l False x (N r False p s))) C" by (simp_all only: at_right)
  note nx0 = at_node [OF t0(2)] and np0 = at_node [OF at5] and ng0 = at_node [OF at6]
  have "addr_of l \<noteq> p" using at6 np0(1) by (auto simp: at_def addr_of_neq)
  obtain t1 where t1: "rotate_left t0 g = Some t1" "at t1 (N (N u True g l) False x (N r False p s)) C"
    using rotate_left_at [OF at6] by blast
  obtain t2 where t2: "set_tag t1 x True = Some t2" "at t2 (N (N u True g l) True x (N r False p s)) C"
    using set_tag_at [OF t1(2)] by blast
  obtain t3 where t3: "set_tag t2 g False = Some t3" "at t3 (N u False g l) (InL True x (N r False p s) # C)"
    using set_tag_at [of t2 u True g l "InL True x (N r False p s) # C" False] t2(2) by (auto simp: at_left)
  have "insert_rotate t x = Some t3"
    using t0(1) t1(1) t2(1) t3(1) nx np ng nx0 np0 ng0 ru \<open>addr_of l \<noteq> p\<close> by (auto simp: insert_rotate_def)
  then show ?thesis using t3(2) by (auto simp: at_left)
qed

section \<open>The repair\<close>

text \<open>The grandparent, its colour and the uncle at the end of a path.\<close>

lemma uncle_at:
  assumes "at t s (c # d # C)" "s \<noteq> E"
  shows "uncle t (addr_of s) = Some (addr_of (crumb_tree d))"
proof -
  have at2: "at t (plug1 c s) (d # C)" and at3: "at t (plug1 d (plug1 c s)) C" using assms(1) by (simp_all only: at_up)
  obtain l b x r where s: "s = N l b x r" using assms(2) by (cases s) auto
  note nx = at_node [OF assms(1) [unfolded s]]
  have di: "distinct (addrs (plug1 d (plug1 c s)))" using at3 by (simp add: at_def)
  have p1: "crumb_addr c \<noteq> 0" "parent (nodes t (crumb_addr c)) = crumb_addr d" "addr_of (plug1 c s) = crumb_addr c"
    using at2 at_node(1,5) [of t _ _ "crumb_addr c" _ "d # C"] by (cases c; fastforce)+
  have p2: "crumb_addr d \<noteq> 0"
    "left (nodes t (crumb_addr d)) = (case d of InL _ _ _ \<Rightarrow> crumb_addr c | InR l _ _ \<Rightarrow> addr_of l)"
    "right (nodes t (crumb_addr d)) = (case d of InL _ _ r \<Rightarrow> addr_of r | InR _ _ _ \<Rightarrow> crumb_addr c)"
    using at3 p1(3) at_node(1,3,4) [of t _ _ "crumb_addr d" _ C] by (cases d; fastforce)+
  have "d = InR l b x \<Longrightarrow> addr_of l \<noteq> crumb_addr c" for l b x
    using di p1(1) by (cases c) (auto simp: addr_of_neq)
  then show ?thesis using nx p1 p2 s by (cases d) (auto simp: uncle_def sibling_def)
qed

text \<open>Recolouring below a red uncle gives a red node two levels up, with the same black height above it.\<close>

lemma repair_recolour:
  assumes "at t s (c # d # C)" "crumb_tree d = N ul False ux ur"
  obtains t1 t2 t3 where "set_tag t (crumb_addr c) True = Some t1" "set_tag t1 ux True = Some t2"
    "parent (nodes t2 (crumb_addr c)) = crumb_addr d" "crumb_addr c \<noteq> 0" "set_tag t2 (crumb_addr d) False = Some t3"
    "at t3 (plug1 (retag False (with_tree (N ul True ux ur) d)) (plug1 (retag True c) s)) C"
proof -
  obtain t1 where t1: "set_tag t (crumb_addr c) True = Some t1" "at t1 s (retag True c # d # C)"
    using set_tag_crumb [OF assms(1)] by blast
  then have "at t1 (plug1 (retag True c) s) (d # C)" by (simp only: at_up)
  from set_tag_sibling [OF this assms(2)] obtain t2 where t2: "set_tag t1 ux True = Some t2"
    "at t2 (plug1 (retag True c) s) (with_tree (N ul True ux ur) d # C)" by blast
  then have t2c: "at t2 s (retag True c # with_tree (N ul True ux ur) d # C)" by (simp only: at_up)
  obtain t3 where t3: "set_tag t2 (crumb_addr d) False = Some t3"
    "at t3 (plug1 (retag True c) s) (retag False (with_tree (N ul True ux ur) d) # C)"
    using set_tag_crumb [OF t2(2)] by auto
  show ?thesis
    using that [OF t1(1) t2(1) _ _ t3(1)] at_crumb [OF t2c] t3(2) by (simp add: at_up)
qed

lemma repair_rotate:
  assumes "at t (N l False x r) (c # d # C)" "\<not> ctag c" "ctag d"
    and "rbt_ok n (N l False x r)" "path_ok n (c # d # C)" "black_root (crumb_tree d)"
  obtains t' s' where "insert_rotate t x = Some t'" "at t' s' C" "addrs s' = addrs (plug1 d (plug1 c (N l False x r)))"
    "rbt_ok (Suc n) s'" "black_root s'"
proof (cases c; cases d)
  fix bc p s bd g u assume cd: "c = InL bc p s" "d = InL bd g u"
  then show ?thesis using assms insert_rotate_ll [of t l x r p s g u C] that by (auto split: if_splits)
next
  fix bc p s bd g u assume cd: "c = InR s bc p" "d = InL bd g u"
  then show ?thesis using assms insert_rotate_lr [of t l x r s p g u C] that by (auto split: if_splits)
next
  fix bc p s bd g u assume cd: "c = InL bc p s" "d = InR u bd g"
  then show ?thesis using assms insert_rotate_rl [of t l x r p s u g C] that by (auto split: if_splits)
next
  fix bc p s bd g u assume cd: "c = InR s bc p" "d = InR u bd g"
  then show ?thesis using assms insert_rotate_rr [of t l x r s p u g C] that by (auto split: if_splits)
qed

text \<open>What the repair promises of the position where it starts.\<close>

definition repairs :: "rb_tree_nocmp \<Rightarrow> ptr \<Rightarrow> rbt \<Rightarrow> bool" where
  "repairs t x s \<longleftrightarrow>
     (\<exists>t' s'. rb_tree_nocmp_insert_repair t x = Some t' \<and> tree_rep t' s' \<and> rbt_inv s' \<and> addrs s' = addrs s)"

lemma repairs_root:
  assumes "at t (N l False x r) []" "rbt_ok n (N l False x r)"
  shows "repairs t x (N l False x r)"
proof -
  obtain t' where "set_tag t x True = Some t'" "at t' (N l True x r) []"
    using set_tag_at [OF assms(1)] by blast
  moreover have "rbt_inv (N l True x r)" using assms(2) by (auto simp: rbt_inv_def)
  ultimately show ?thesis using at_node [OF assms(1)] unfolding repairs_def
    by (subst rb_tree_nocmp_insert_repair.simps)
      (auto simp: tree_rep_def intro!: exI [of _ t'] exI [of _ "N l True x r"])
qed

lemma repairs_below_black:
  assumes "at t (N l False x r) (c # C)" "rbt_ok n (N l False x r)" "path_ok n (c # C)" "ctag c"
  shows "repairs t x (plug (N l False x r) (c # C))"
proof -
  have "tree_rep t (plug (N l False x r) (c # C))" using at_plug [OF assms(1)] .
  moreover have "rbt_inv (plug (N l False x r) (c # C))" using rbt_inv_plug [OF assms(2,3)] assms(4) by simp
  ultimately show ?thesis using at_node [OF assms(1)] at_crumb [OF assms(1)] assms(4)
    unfolding repairs_def by (subst rb_tree_nocmp_insert_repair.simps) auto
qed

lemma repairs_black_uncle:
  assumes "at t (N l False x r) (c # d # C)" "rbt_ok n (N l False x r)" "path_ok n (c # d # C)"
    and "\<not> ctag c" "black_root (crumb_tree d)"
  shows "repairs t x (plug (N l False x r) (c # d # C))"
proof -
  have d: "ctag d" "path_ok (Suc n) C" using assms(3,4) by auto
  obtain t' s' where t': "insert_rotate t x = Some t'" "at t' s' C"
    "addrs s' = addrs (plug1 d (plug1 c (N l False x r)))" "rbt_ok (Suc n) s'" "black_root s'"
    using repair_rotate [OF assms(1,4) d(1) assms(2,3,5)] by blast
  have "at t (plug1 c (N l False x r)) (d # C)" using assms(1) by (simp only: at_up)
  then have ub: "(if addr_of (crumb_tree d) \<noteq> 0 then get_tag t (addr_of (crumb_tree d)) else Some True) = Some True"
    using assms(5) by (cases d; cases "crumb_tree d") (auto simp: at_def node_is_def)
  have "rb_tree_nocmp_insert_repair t x = Some t'"
    using at_node [OF assms(1)] at_crumb [OF assms(1)] uncle_at [OF assms(1)] ub assms(4) t'(1)
    by (subst rb_tree_nocmp_insert_repair.simps) simp
  moreover have "rbt_inv (plug s' C)" using rbt_inv_plug t'(4,5) d(2) by blast
  moreover have "addrs (plug s' C) = addrs (plug (N l False x r) (c # d # C))" using t'(3) by (simp add: addrs_plug)
  ultimately show ?thesis using at_plug [OF t'(2)] unfolding repairs_def by blast
qed

text \<open>Below a red uncle the repair goes on at the grandparent.\<close>

lemma repairs_red_uncle:
  assumes "at t (N l False x r) (c # d # C)" "rbt_ok n (N l False x r)" "path_ok n (c # d # C)"
    and "\<not> ctag c" "\<not> black_root (crumb_tree d)"
  obtains t' l' g r' where "rb_tree_nocmp_insert_repair t x = rb_tree_nocmp_insert_repair t' g"
    "at t' (N l' False g r') C" "rbt_ok (Suc n) (N l' False g r')" "path_ok (Suc n) C"
    "addrs (plug (N l' False g r') C) = addrs (plug (N l False x r) (c # d # C))"
proof -
  let ?s = "N l False x r"
  obtain ul ux ur where u: "crumb_tree d = N ul False ux ur" using assms(5) by (cases "crumb_tree d") auto
  have d: "ctag d" "path_ok (Suc n) C" using assms(3,4) by auto
  obtain t1 t2 t3 where t: "set_tag t (crumb_addr c) True = Some t1" "set_tag t1 ux True = Some t2"
    "parent (nodes t2 (crumb_addr c)) = crumb_addr d" "crumb_addr c \<noteq> 0" "set_tag t2 (crumb_addr d) False = Some t3"
    "at t3 (plug1 (retag False (with_tree (N ul True ux ur) d)) (plug1 (retag True c) ?s)) C"
    using repair_recolour [OF assms(1) u] by blast
  let ?s' = "plug1 (retag False (with_tree (N ul True ux ur) d)) (plug1 (retag True c) ?s)"
  obtain l' r' where s': "?s' = N l' False (crumb_addr d) r'" by (cases d) auto
  have "at t (plug1 c ?s) (d # C)" using assms(1) by (simp only: at_up)
  then have ub: "ux \<noteq> 0" "get_tag t ux = Some False"
    using u by (cases d; auto simp: at_def node_is_def)+
  have "rb_tree_nocmp_insert_repair t x = rb_tree_nocmp_insert_repair t3 (crumb_addr d)"
    using at_node [OF assms(1)] at_crumb [OF assms(1)] uncle_at [OF assms(1)] ub u assms(4) t(1-5)
    by (subst rb_tree_nocmp_insert_repair.simps) (simp del: set_simps)
  moreover have "rbt_ok (Suc n) ?s'" using assms(2-4) u by (cases c; cases d) auto
  moreover have "addrs ?s' = addrs (plug1 d (plug1 c ?s))"
    using u by (cases c; cases d) auto
  ultimately show ?thesis using that [of t3 "crumb_addr d" l' r'] t(6) d(2) unfolding s' by (simp add: addrs_plug)
qed

lemma insert_repair_ok:
  assumes "at t (N l False x r) C" "rbt_ok n (N l False x r)" "path_ok n C"
  shows "repairs t x (plug (N l False x r) C)"
  using assms
proof (induction C arbitrary: t l x r n rule: length_induct)
  case (1 C)
  consider "C = []" | c D where "C = c # D" "ctag c" | c d D where "C = c # d # D" "\<not> ctag c"
    using 1(4) by (cases C rule: remdups_adj.cases) (auto split: if_splits)
  then show ?case
  proof cases
    case 1
    then show ?thesis using repairs_root "1.prems" by auto
  next
    case 2
    then show ?thesis using repairs_below_black "1.prems" by blast
  next
    case 3
    note prems = "1.prems" [unfolded 3(1)]
    show ?thesis
    proof (cases "black_root (crumb_tree d)")
      case True
      then show ?thesis using repairs_black_uncle [OF prems 3(2)] 3(1) by simp
    next
      case False
      obtain t' l' g r' where s: "rb_tree_nocmp_insert_repair t x = rb_tree_nocmp_insert_repair t' g"
        "at t' (N l' False g r') D" "rbt_ok (Suc n) (N l' False g r')" "path_ok (Suc n) D"
        "addrs (plug (N l' False g r') D) = addrs (plug (N l False x r) (c # d # D))"
        by (rule repairs_red_uncle [OF prems 3(2) False])
      have "repairs t' g (plug (N l' False g r') D)" using "1.IH" [rule_format, OF _ s(2-4)] 3(1) by simp
      then show ?thesis using s(1,5) 3(1) by (simp add: repairs_def)
    qed
  qed
qed

section \<open>Insertion\<close>

lemma rbt_inv_split:
  assumes "rbt_inv (plug s C)"
  obtains n where "rbt_ok n s" "path_ok n C" "black_root s \<or> (C \<noteq> [] \<and> ctag (hd C))"
  using assms
proof (induction C arbitrary: s thesis)
  case Nil
  then show ?case by (auto simp: rbt_inv_def)
next
  case (Cons c C)
  obtain n where "rbt_ok n (plug1 c s)" "path_ok n C" "ctag c \<or> (C \<noteq> [] \<and> ctag (hd C))"
    using Cons.IH [of "plug1 c s"] Cons.prems(2) by auto
  then show ?case using Cons.prems(1) by (cases c) (auto split: if_splits)
qed

text \<open>An operation that returns a tree that satisfies the invariant and has the nodes \<open>ys\<close> in order.\<close>

definition yields :: "rb_tree_nocmp option \<Rightarrow> ptr list \<Rightarrow> bool" where
  "yields res ys \<longleftrightarrow> (\<exists>t' s'. res = Some t' \<and> tree_rep t' s' \<and> rbt_inv s' \<and> addrs s' = ys)"

lemma insert_into_empty:
  assumes "tree_rep t E" "new_leaf t False x"
  shows "yields (do { t \<leftarrow> set_parent (t\<lparr>root := x\<rparr>) x 0; rb_tree_nocmp_insert_repair t x }) [x]"
proof -
  have x: "x \<noteq> 0" using assms(2) by (simp add: new_leaf_def)
  let ?t = "t\<lparr>root := x, nodes := (nodes t)(x := (nodes t x)\<lparr>parent := 0\<rparr>)\<rparr>"
  have "at ?t (N E False x E) []" using assms(2) by (simp add: at_def new_leaf_def node_is_def)
  then have "repairs ?t x (N E False x E)" by (rule repairs_root [where n = 0]) simp
  then show ?thesis using x by (simp add: repairs_def yields_def)
qed

lemma insert_at_leaf:
  assumes "tree_rep t s" "rbt_inv s" "new_leaf t False x" "x \<notin> set (addrs s)" "s \<noteq> E"
    and "sorted_wrt (\<lambda>a b. f a \<longrightarrow> f b) (addrs s)"
  shows "yields (do { t \<leftarrow> link_leaf t x (hd (descend f s [])); rb_tree_nocmp_insert_repair t x }) (inserted f x (addrs s))"
proof -
  obtain t' C where t': "link_leaf t x (hd (descend f s [])) = Some t'" "at t' (N E False x E) C" "plug E C = s"
    "addrs (plug (N E False x E) C) = inserted f x (addrs s)"
    using link_leaf_position [OF assms(1,3-6)] by blast
  have "path_ok 0 C" using assms(2) t'(3) rbt_inv_split [of E C] by auto
  then have "repairs t' x (plug (N E False x E) C)" using insert_repair_ok [OF t'(2)] by simp
  then show ?thesis using t'(1,4) by (simp add: repairs_def yields_def del: plug.simps)
qed

lemma rb_tree_insert_yields:
  assumes "tree_rep t s" "rbt_inv s" "x \<noteq> 0" "x \<notin> set (addrs s)"
    and "sorted_wrt (\<lambda>a b. cmp x a < 0 \<longrightarrow> cmp x b < 0) (addrs s)"
  shows "yields (rb_tree_insert cmp t x) (inserted (\<lambda>y. cmp x y < 0) x (addrs s))"
proof -
  obtain t' where t': "fresh_node t False x = Some t'" "new_leaf t' False x" "tree_rep t' s"
    using fresh_node_at [OF assms(1,3,4)] by blast
  have rt: "root t' = addr_of s" "addr_of s = 0 \<longleftrightarrow> s = E"
    using at_root [of t' s "[]"] at_addr_0 [of t' s "[]"] t'(3) by (simp_all add: tree_rep_def)
  show ?thesis
  proof (cases "s = E")
    case True
    then show ?thesis using insert_into_empty [of t' x] t' rt by (simp add: rb_tree_insert_def inserted_def)
  next
    case False
    then show ?thesis
      using insert_at_leaf [OF t'(3) assms(2) t'(2) assms(4) False assms(5)] t' rt insert_from_links [of t' s "[]" rb_tree_nocmp_insert_repair cmp x]
      by (simp add: rb_tree_insert_def tree_rep_def)
  qed
qed

end
