(* ===== verification/RbSearch.thy ===== *)
theory RbSearch
  imports RbInsert
begin

text \<open>
  Searching a red-black tree, inserting a node only when no equal node is present, the smallest
  and the largest node, and the functions of the library that check a tree.
\<close>

lemma find_hits: "at t s C \<Longrightarrow> rb_tree_find_from cmp t x (addr_of s) = Some (hits (cmp x) s)"
proof (induction s arbitrary: C)
  case E
  then show ?case by (subst rb_tree_find_from.simps) simp
next
  case (N l b y r)
  have atl: "at t l (InL b y r # C)" and atr: "at t r (InR l b y # C)" using N.prems by (simp_all add: at_up)
  show ?case using at_node [OF N.prems] N.IH(1) [OF atl] N.IH(2) [OF atr]
    by (subst rb_tree_find_from.simps) (simp add: Let_def)
qed

section \<open>Insertion of a node that is not present\<close>

lemma insert_nonexist_links:
  assumes "at t s C" "s \<noteq> E"
  shows "insert_nonexist_from cmp t x (addr_of s) =
    (if hits (cmp x) s \<noteq> 0 then Some (t, False)
     else do { t \<leftarrow> link_leaf t x (hd (descend (\<lambda>y. cmp x y < 0) s C));
               t \<leftarrow> rb_tree_nocmp_insert_repair t x;
               Some (t, True) })"
  using assms
proof (induction s arbitrary: C)
  case (N l b y r)
  have atl: "at t l (InL b y r # C)" and atr: "at t r (InR l b y # C)" using N.prems by (simp_all add: at_up)
  note ny = at_node [OF N.prems(1)] at_addr_0 [OF atl] at_addr_0 [OF atr]
  consider "cmp x y < 0" | "cmp x y > 0" | "cmp x y = 0" by linarith
  then show ?case
  proof cases
    case 1
    then show ?thesis using ny N.IH(1) [OF atl]
      by (cases "l = E"; subst insert_nonexist_from.simps) (simp_all add: link_leaf_def)
  next
    case 2
    then show ?thesis using ny N.IH(2) [OF atr]
      by (cases "r = E"; subst insert_nonexist_from.simps) (simp_all add: link_leaf_def)
  next
    case 3
    then show ?thesis using ny by (subst insert_nonexist_from.simps) simp
  qed
qed simp

lemma rb_tree_find_hits: "tree_rep t s \<Longrightarrow> rb_tree_nocmp_find cmp t x = Some (hits (cmp x) s)"
  using find_hits [of t s "[]" cmp x] by (simp add: rb_tree_nocmp_find_def tree_rep_root(1)) (simp add: tree_rep_def)

text \<open>
  The insertion fails with the tree unchanged when an equal node is present, and inserts the node
  otherwise; in both cases the fields of the node that was to be inserted are overwritten.
\<close>

lemma insert_nonexist_result:
  assumes "tree_rep t s" "rbt_inv s" "x \<noteq> 0" "x \<notin> set (addrs s)" "cmp_sorted (cmp x) (addrs s)"
  shows "if \<exists>y\<in>set (addrs s). cmp x y = 0
         then \<exists>t'. rb_tree_nocmp_insert_nonexist cmp t x = Some (t', False) \<and> tree_rep t' s
         else \<exists>t'. rb_tree_nocmp_insert_nonexist cmp t x = Some (t', True) \<and>
                yields (Some t') (inserted (\<lambda>y. cmp x y < 0) x (addrs s))"
proof -
  obtain t' where t': "fresh_node t False x = Some t'" "new_leaf t' False x" "tree_rep t' s"
    using fresh_node_at [OF assms(1,3,4)] by blast
  note rt = tree_rep_root [OF assms(1)]
  note hit = hits_sorted(1) [OF assms(5) rt(3)]
  show ?thesis
  proof (cases "s = E")
    case True
    then show ?thesis using insert_into_empty [of t' x] t' rt
      by (auto simp: rb_tree_nocmp_insert_nonexist_def inserted_def yields_def bind_eq_Some_conv)
  next
    case False
    have "yields (do { t \<leftarrow> link_leaf t' x (hd (descend (\<lambda>y. cmp x y < 0) s [])); rb_tree_nocmp_insert_repair t x })
            (inserted (\<lambda>y. cmp x y < 0) x (addrs s))"
      by (rule insert_at_leaf [OF t'(3) assms(2) t'(2) assms(4) False cmp_sorted_less [OF assms(5)]])
    moreover have "rb_tree_nocmp_insert_nonexist cmp t x = insert_nonexist_from cmp t' x (addr_of s)"
      using t'(1) rt(1,2) False by (simp add: rb_tree_nocmp_insert_nonexist_def)
    ultimately show ?thesis
      using insert_nonexist_links [of t' s "[]" cmp x] t'(3) False hit
      by (auto simp: tree_rep_def yields_def bind_eq_Some_conv)
  qed
qed

lemma rb_tree_ends:
  assumes "tree_rep t s"
  shows "rb_tree_nocmp_leftmost t = Some (if addrs s = [] then 0 else hd (addrs s))"
    and "rb_tree_nocmp_rightmost t = Some (if addrs s = [] then 0 else last (addrs s))"
  using leftmost_from_hd [of t s "[]"] rightmost_from_last [of t s "[]"] tree_rep_root(1,2) [OF assms] assms
  by (simp_all add: rb_tree_nocmp_leftmost_def rb_tree_nocmp_rightmost_def) (simp_all add: tree_rep_def)

lemma height_at: "at t s C \<Longrightarrow> s \<noteq> E \<Longrightarrow> rbt_ok n s \<Longrightarrow> rb_subtree_height t (addr_of s) = Some (int n)"
proof (induction s arbitrary: C n)
  case (N l b y r)
  have atl: "at t l (InL b y r # C)" and atr: "at t r (InR l b y # C)" using N.prems by (simp_all add: at_up)
  obtain m where m: "rbt_ok m l" "rbt_ok m r" "n = (if b then Suc m else m)" using N.prems(3) by (auto split: if_splits)
  have p: "l \<noteq> E \<Longrightarrow> parent (nodes t (addr_of l)) = y" "r \<noteq> E \<Longrightarrow> parent (nodes t (addr_of r)) = y"
    using N.prems by (cases l; cases r; auto simp: at_def node_is_def)+
  show ?case
    using at_node [OF N.prems(1)] at_addr_0 [OF atl] at_addr_0 [OF atr] N.IH(1) [OF atl _ m(1)] N.IH(2) [OF atr _ m(2)] p m
    by (subst rb_subtree_height.simps) (cases "l = E"; cases "r = E"; simp)
qed simp

lemma rb_tree_checks:
  assumes "tree_rep t s" "rbt_inv s"
  shows "rb_tree_nocmp_valid t = Some True" "rb_tree_nocmp_ptrs_valid t = Some True"
proof -
  obtain n where "rbt_ok n s" using assms(2) by (auto simp: rbt_inv_def)
  then have "s \<noteq> E \<Longrightarrow> rb_subtree_height t (addr_of s) = Some (int n)" "s \<noteq> E \<Longrightarrow> subtree_ptrs_valid t (addr_of s) = Some True"
    using height_at [of t s "[]"] ptrs_valid_at [of t s "[]"] assms(1) by (auto simp: tree_rep_def)
  moreover have "s \<noteq> E \<Longrightarrow> parent (nodes t (addr_of s)) = 0"
    using assms(1) by (cases s) (auto simp: tree_rep_def at_def node_is_def)
  ultimately show "rb_tree_nocmp_valid t = Some True" "rb_tree_nocmp_ptrs_valid t = Some True"
    using tree_rep_root(1,2) [OF assms(1)]
    by (cases "s = E"; simp add: rb_tree_nocmp_valid_def rb_tree_nocmp_ptrs_valid_def)+
qed

end
