(* ===== verification/TreeSwap.thy ===== *)
theory TreeSwap
  imports TreeSearch
begin

text \<open>
  The exchange of two nodes of a tree, which the deletion of a node with two children
  starts with.  After it the store represents the tree with the two addresses swapped.
\<close>

section \<open>Links between the nodes of a tree\<close>

text \<open>The pointers of the nodes in \<open>A\<close> are consistent with each other, below the parent \<open>par\<close> of the node \<open>rt\<close>.\<close>

definition linked :: "(ptr \<Rightarrow> 'b tree_node) \<Rightarrow> ptr \<Rightarrow> ptr \<Rightarrow> ptr set \<Rightarrow> bool" where
  "linked h par rt A \<longleftrightarrow>
     (\<forall>z\<in>A. z \<noteq> 0 \<and>
        (left (h z) \<noteq> 0 \<longrightarrow> left (h z) \<in> A \<and> parent (h (left (h z))) = z \<and> left (h z) \<noteq> right (h z)) \<and>
        (right (h z) \<noteq> 0 \<longrightarrow> right (h z) \<in> A \<and> parent (h (right (h z))) = z) \<and>
        (if z = rt then parent (h z) = par
         else parent (h z) \<in> A \<and> (left (h (parent (h z))) = z \<or> right (h (parent (h z))) = z)))"

lemma subt_linked: "subt h par s \<Longrightarrow> distinct (addrs s) \<Longrightarrow> linked h par (addr_of s) (set (addrs s))"
proof (induction s arbitrary: par)
  case (N l b x r)
  have l: "linked h x (addr_of l) (set (addrs l))" and r: "linked h x (addr_of r) (set (addrs r))"
    using N by simp_all
  have x: "x \<noteq> 0" "left (h x) = addr_of l" "right (h x) = addr_of r" "parent (h x) = par"
    using N.prems(1) by (simp_all add: node_is_def)
  have ex: "x \<notin> set (addrs l)" "x \<notin> set (addrs r)" "set (addrs l) \<inter> set (addrs r) = {}" using N.prems(2) by auto
  have lr: "addr_of l \<noteq> 0 \<Longrightarrow> addr_of l \<in> set (addrs l) \<and> parent (h (addr_of l)) = x"
    "addr_of r \<noteq> 0 \<Longrightarrow> addr_of r \<in> set (addrs r) \<and> parent (h (addr_of r)) = x"
    using N.prems(1) by (cases l; cases r; auto simp: node_is_def)+
  have "z \<noteq> 0 \<and> (left (h z) \<noteq> 0 \<longrightarrow> left (h z) \<in> set (addrs (N l b x r)) \<and> parent (h (left (h z))) = z \<and> left (h z) \<noteq> right (h z)) \<and>
        (right (h z) \<noteq> 0 \<longrightarrow> right (h z) \<in> set (addrs (N l b x r)) \<and> parent (h (right (h z))) = z) \<and>
        (if z = x then parent (h z) = par
         else parent (h z) \<in> set (addrs (N l b x r)) \<and> (left (h (parent (h z))) = z \<or> right (h (parent (h z))) = z))"
    if z: "z \<in> set (addrs (N l b x r))" for z
  proof -
    consider "z = x" | "z \<in> set (addrs l)" | "z \<in> set (addrs r)" using z by auto
    then show ?thesis
    proof cases
      case 1
      then show ?thesis using x lr ex(3) by auto
    next
      case 2
      then show ?thesis using l [unfolded linked_def, rule_format, OF 2] x ex(1) by (auto split: if_splits)
    next
      case 3
      then show ?thesis using r [unfolded linked_def, rule_format, OF 3] x ex(2) by (auto split: if_splits)
    qed
  qed
  then show ?case by (simp only: linked_def addr_of.simps) blast
qed (simp add: linked_def)

section \<open>Swapped addresses\<close>

definition swp :: "ptr \<Rightarrow> ptr \<Rightarrow> ptr \<Rightarrow> ptr" where
  "swp x y z = (if z = x then y else if z = y then x else z)"

fun swap_tree :: "ptr \<Rightarrow> ptr \<Rightarrow> 'b ptree \<Rightarrow> 'b ptree" where
  "swap_tree x y E = E"
| "swap_tree x y (N l b z r) = N (swap_tree x y l) b (swp x y z) (swap_tree x y r)"

fun swap_crumb :: "ptr \<Rightarrow> ptr \<Rightarrow> 'b crumb \<Rightarrow> 'b crumb" where
  "swap_crumb x y (InL b z r) = InL b (swp x y z) (swap_tree x y r)"
| "swap_crumb x y (InR l b z) = InR (swap_tree x y l) b (swp x y z)"

lemma swp_simps [simp]: "swp x y x = y" "swp x y y = x" "z \<noteq> x \<Longrightarrow> z \<noteq> y \<Longrightarrow> swp x y z = z" "swp x y (swp x y z) = z"
  by (auto simp: swp_def)

lemma swap_tree_id: "x \<notin> set (addrs s) \<Longrightarrow> y \<notin> set (addrs s) \<Longrightarrow> swap_tree x y s = s"
  by (induction s) (auto simp: swp_def)

lemma swap_crumbs_id: "x \<notin> set (path_addrs C) \<Longrightarrow> y \<notin> set (path_addrs C) \<Longrightarrow> map (swap_crumb x y) C = C"
proof (induction C)
  case (Cons c C)
  then show ?case by (cases c) (auto simp: swap_tree_id)
qed simp

lemma swap_plug: "swap_tree x y (plug s C) = plug (swap_tree x y s) (map (swap_crumb x y) C)"
proof (induction C arbitrary: s)
  case (Cons c C)
  then show ?case by (cases c) simp_all
qed simp

lemma addrs_swap: "addrs (swap_tree x y s) = map (swp x y) (addrs s)"
  by (induction s) simp_all

lemma addr_of_swap: "x \<noteq> 0 \<Longrightarrow> y \<noteq> 0 \<Longrightarrow> addr_of (swap_tree x y s) = swp x y (addr_of s)"
  by (cases s) (auto simp: swp_def)

text \<open>The store \<open>h'\<close> is \<open>h\<close> with the addresses \<open>x\<close> and \<open>y\<close> swapped, for the nodes in \<open>A\<close>.\<close>

definition exchanged :: "ptr \<Rightarrow> ptr \<Rightarrow> (ptr \<Rightarrow> 'b tree_node) \<Rightarrow> (ptr \<Rightarrow> 'b tree_node) \<Rightarrow> ptr set \<Rightarrow> bool" where
  "exchanged x y h h' A \<longleftrightarrow>
     (\<forall>z\<in>A. node_is (h' (swp x y z)) (tag (h z)) (swp x y (left (h z))) (swp x y (right (h z))) (swp x y (parent (h z))))"

lemma subt_exchanged:
  assumes "x \<noteq> 0" "y \<noteq> 0"
  shows "subt h par s \<Longrightarrow> exchanged x y h h' (set (addrs s)) \<Longrightarrow> subt h' (swp x y par) (swap_tree x y s)"
proof (induction s arbitrary: par)
  case (N l b z r)
  have "exchanged x y h h' (set (addrs l))" "exchanged x y h h' (set (addrs r))" using N.prems(2) by (auto simp: exchanged_def)
  moreover have "node_is (h' (swp x y z)) b (swp x y (addr_of l)) (swp x y (addr_of r)) (swp x y par)"
    using N.prems by (auto simp: exchanged_def node_is_def)
  moreover have "swp x y z \<noteq> 0" using N.prems(1) assms by (auto simp: swp_def)
  ultimately show ?case using N.IH(1) [of z] N.IH(2) [of z] N.prems(1) assms by (simp add: addr_of_swap)
qed simp

lemma tree_rep_exchanged:
  assumes "tree_rep t s" "x \<noteq> 0" "y \<noteq> 0" "exchanged x y (nodes t) (nodes t') (set (addrs s))" "root t' = swp x y (root t)"
  shows "tree_rep t' (swap_tree x y s)"
proof -
  have "swp x y 0 = 0" using assms(2,3) by (simp add: swp_def)
  moreover have "inj (swp x y)" by (metis injI swp_simps(4))
  ultimately show ?thesis
    using assms subt_exchanged [OF assms(2,3), of "nodes t" 0 s "nodes t'"]
    by (auto simp: tree_rep_def at_def addr_of_swap addrs_swap distinct_map intro: inj_on_subset)
qed

section \<open>The store after the exchange\<close>

definition rechild :: "(ptr \<Rightarrow> 'b tree_node) \<Rightarrow> ptr \<Rightarrow> ptr \<Rightarrow> ptr \<Rightarrow> ptr \<Rightarrow> 'b tree_node" where
  "rechild h p n m =
     (if p = 0 then h else h(p := if left (h p) = n then (h p)\<lparr>left := m\<rparr> else (h p)\<lparr>right := m\<rparr>))"

lemma reparent_fields [simp]:
  "tag (reparent h p q z) = tag (h z)" "left (reparent h p q z) = left (h z)" "right (reparent h p q z) = right (h z)"
  "parent (reparent h p q z) = (if p \<noteq> 0 \<and> z = p then q else parent (h z))"
  by (simp_all add: reparent_def)

lemma rechild_fields [simp]:
  "tag (rechild h p n m z) = tag (h z)" "parent (rechild h p n m z) = parent (h z)"
  "left (rechild h p n m z) = (if p \<noteq> 0 \<and> z = p \<and> left (h p) = n then m else left (h z))"
  "right (rechild h p n m z) = (if p \<noteq> 0 \<and> z = p \<and> left (h p) \<noteq> n then m else right (h z))"
  by (simp_all add: rechild_def)

lemma exchange_child_eq:
  assumes "par \<noteq> 0 \<Longrightarrow> left (nodes t par) = n \<or> right (nodes t par) = n"
  shows "exchange_child t par n m = Some (t\<lparr>nodes := rechild (nodes t) par n m\<rparr>)"
  using assms by (auto simp: exchange_child_def rechild_def)

lemma exchange_top_eq:
  assumes "n2 \<noteq> 0" "parent (nodes t n2) = p" "p \<noteq> 0 \<Longrightarrow> left (nodes t p) = n1 \<or> right (nodes t p) = n1"
  shows "exchange_top t n1 n2 = Some (t\<lparr>nodes := rechild (nodes t) p n1 n2, root := if p = 0 then n2 else root t\<rparr>)"
  using assms by (auto simp: exchange_top_def rechild_def)

text \<open>What the links of a tree say about a pointer to \<open>x\<close>.\<close>

lemma linked_pointers:
  assumes "linked h 0 rt A" "x \<in> A"
  shows "x \<noteq> 0" "parent (h x) = 0 \<longleftrightarrow> x = rt" "parent (h x) \<noteq> 0 \<Longrightarrow> left (h (parent (h x))) = x \<or> right (h (parent (h x))) = x"
    "left (h x) \<noteq> 0 \<Longrightarrow> parent (h (left (h x))) = x" "right (h x) \<noteq> 0 \<Longrightarrow> parent (h (right (h x))) = x"
    "left (h x) \<noteq> 0 \<Longrightarrow> left (h x) \<noteq> right (h x)"
    "z \<in> A \<Longrightarrow> left (h z) = x \<Longrightarrow> z = parent (h x)" "z \<in> A \<Longrightarrow> right (h z) = x \<Longrightarrow> z = parent (h x)"
    "z \<in> A \<Longrightarrow> parent (h z) = x \<Longrightarrow> z = left (h x) \<or> z = right (h x)"
proof -
  have "parent (h x) \<in> A \<Longrightarrow> parent (h x) \<noteq> 0" using assms(1) by (auto simp: linked_def)
  note x = assms(1) [unfolded linked_def, rule_format, OF assms(2)] this
  show "x \<noteq> 0" "parent (h x) = 0 \<longleftrightarrow> x = rt" "parent (h x) \<noteq> 0 \<Longrightarrow> left (h (parent (h x))) = x \<or> right (h (parent (h x))) = x"
    "left (h x) \<noteq> 0 \<Longrightarrow> parent (h (left (h x))) = x" "right (h x) \<noteq> 0 \<Longrightarrow> parent (h (right (h x))) = x"
    "left (h x) \<noteq> 0 \<Longrightarrow> left (h x) \<noteq> right (h x)"
    using x by (auto split: if_splits)
  fix z assume z: "z \<in> A"
  note z = assms(1) [unfolded linked_def, rule_format, OF this]
  show "left (h z) = x \<Longrightarrow> z = parent (h x)" "right (h z) = x \<Longrightarrow> z = parent (h x)"
    "parent (h z) = x \<Longrightarrow> z = left (h x) \<or> z = right (h x)"
    using x z by (auto split: if_splits)
qed

text \<open>A node other than the two: the pointers to one of the exchanged nodes now point to the other.\<close>

lemma other_node_swapped:
  assumes li: "linked h 0 rt A" "x \<in> A" "y \<in> A" "z \<in> A" and ne: "z \<noteq> x" "z \<noteq> y" "x \<noteq> y" "parent (h x) \<noteq> parent (h y)"
    and m: "tag m = tag (h z)"
      "left m = (if z = parent (h x) \<and> left (h z) = x then y else if z = parent (h y) \<and> left (h z) = y then x else left (h z))"
      "right m = (if z = parent (h x) \<and> left (h z) \<noteq> x then y else if z = parent (h y) \<and> left (h z) \<noteq> y then x else right (h z))"
      "parent m = (if z = left (h x) \<or> z = right (h x) then y else if z = left (h y) \<or> z = right (h y) then x else parent (h z))"
  shows "node_is m (tag (h z)) (swp x y (left (h z))) (swp x y (right (h z))) (swp x y (parent (h z)))"
proof -
  note pz = linked_pointers [OF li(1,4)]
  have z: "z \<noteq> parent (h w) \<Longrightarrow> left (h z) \<noteq> w" "z \<noteq> parent (h w) \<Longrightarrow> right (h z) \<noteq> w"
    "z = parent (h w) \<Longrightarrow> left (h z) \<noteq> w \<Longrightarrow> right (h z) = w" "z = parent (h w) \<Longrightarrow> left (h z) = w \<Longrightarrow> right (h z) \<noteq> w"
    if "w \<in> A" for w
    using linked_pointers(1,3,7,8) [OF li(1) that] li(4) pz(1,6) by metis+
  have zp: "z \<noteq> left (h w) \<Longrightarrow> z \<noteq> right (h w) \<Longrightarrow> parent (h z) \<noteq> w" "z = left (h w) \<or> z = right (h w) \<Longrightarrow> parent (h z) = w"
    if "w \<in> A" for w
    using linked_pointers(4,5,9) [OF li(1) that] li(4) pz(1) by metis+
  have "left m = swp x y (left (h z))"
    unfolding m(2) using z(1) [OF li(2)] z(1) [OF li(3)] ne(3,4) by (auto simp: swp_def)
  moreover have "right m = swp x y (right (h z))"
    unfolding m(3) using z(2-4) [OF li(2)] z(2-4) [OF li(3)] ne(3,4)
    by (cases "z = parent (h x)"; cases "z = parent (h y)"; cases "left (h z) = x"; cases "left (h z) = y") (metis swp_simps(1-3))+
  moreover have "parent m = swp x y (parent (h z))"
    unfolding m(4) using zp [OF li(2)] zp [OF li(3)] ne(3)
    by (cases "z = left (h x) \<or> z = right (h x)"; cases "z = left (h y) \<or> z = right (h y)") (metis swp_simps(1-3))+
  ultimately show ?thesis using m(1) by (simp only: node_is_def)
qed

lemma exchangedI:
  assumes "linked h 0 rt A" "x \<in> A" "y \<in> A" "x \<noteq> y" "parent (h x) \<noteq> parent (h y)"
    and "node_is (h' y) (tag (h x)) (swp x y (left (h x))) (swp x y (right (h x))) (swp x y (parent (h x)))"
    and "node_is (h' x) (tag (h y)) (swp x y (left (h y))) (swp x y (right (h y))) (swp x y (parent (h y)))"
    and "\<And>z. z \<in> A \<Longrightarrow> z \<noteq> x \<Longrightarrow> z \<noteq> y \<Longrightarrow> z \<noteq> 0 \<Longrightarrow>
       tag (h' z) = tag (h z) \<and>
       left (h' z) = (if z = parent (h x) \<and> left (h z) = x then y else if z = parent (h y) \<and> left (h z) = y then x else left (h z)) \<and>
       right (h' z) = (if z = parent (h x) \<and> left (h z) \<noteq> x then y else if z = parent (h y) \<and> left (h z) \<noteq> y then x else right (h z)) \<and>
       parent (h' z) = (if z = left (h x) \<or> z = right (h x) then y else if z = left (h y) \<or> z = right (h y) then x else parent (h z))"
  shows "exchanged x y h h' A"
  unfolding exchanged_def
proof
  fix z assume z: "z \<in> A"
  consider "z = x" | "z = y" | "z \<noteq> x" "z \<noteq> y" by blast
  then show "node_is (h' (swp x y z)) (tag (h z)) (swp x y (left (h z))) (swp x y (right (h z))) (swp x y (parent (h z)))"
  proof cases
    case 3
    have "z \<noteq> 0" using linked_pointers(1) [OF assms(1) z] .
    note f = assms(8) [OF z 3 this]
    show ?thesis unfolding swp_simps(3) [OF 3] using f by (intro other_node_swapped [OF assms(1-3) z 3 assms(4,5)]) blast+
  qed (use assms(6,7) in simp_all)
qed

lemma exchange_left_exchanged:
  assumes "linked (nodes t) 0 (root t) A" "x \<in> A" "y \<in> A" "left (nodes t x) = y" "x \<noteq> y"
    and "parent (nodes t x) \<noteq> x" "parent (nodes t x) \<noteq> y"
  shows "\<exists>t'. exchange_left t x y = Some t' \<and> exchanged x y (nodes t) (nodes t') A \<and> root t' = swp x y (root t)"
proof -
  let ?h = "nodes t"
  note px = linked_pointers [OF assms(1,2)] and py = linked_pointers [OF assms(1,3)]
  define m1 m2 p1 where "m1 = ?h x" and "m2 = ?h y" and "p1 = parent m1"
  have ne: "p1 \<noteq> x" "p1 \<noteq> y" "x \<noteq> 0" "y \<noteq> 0" "parent m2 = x" "left m1 = y" "right m1 \<noteq> y"
    "left m2 \<noteq> x" "right m2 \<noteq> x" "left m2 \<noteq> y" "right m2 \<noteq> y" "right m1 \<noteq> x"
    using assms px(1,4,5,6) py(1,4,5) by (auto simp: m1_def m2_def p1_def)
  define h1 where "h1 = reparent (reparent (?h(x := m1\<lparr>left := left m2, right := right m2, parent := y\<rparr>)) (left m2) x) (right m2) x"
  define h2 where "h2 = reparent (h1(y := m2\<lparr>left := x, right := right m1, parent := p1\<rparr>)) (right m1) y"
  define h3 where "h3 = rechild h2 p1 x y"
  let ?t = "t\<lparr>nodes := h3(x := (h3 x)\<lparr>tag := tag m2\<rparr>, y := (h3 y)\<lparr>tag := tag m1\<rparr>), root := if p1 = 0 then y else root t\<rparr>"
  have h1y: "h1 y = m2" using ne assms(5) by (simp add: h1_def m2_def)
  have "exchange_left t x y = do { t \<leftarrow> exchange_top (t\<lparr>nodes := h2\<rparr>) x y; t \<leftarrow> set_tag t x (tag m2); set_tag t y (tag m1) }"
    using ne by (simp add: exchange_left_def m1_def [symmetric] m2_def [symmetric] p1_def [symmetric] h1_def [symmetric] h1y h2_def)
  moreover have "parent (h2 y) = p1" "p1 \<noteq> 0 \<Longrightarrow> left (h2 p1) = x \<or> right (h2 p1) = x"
    using ne px(3) assms(5) by (auto simp: h2_def h1_def p1_def m1_def m2_def)
  ultimately have "exchange_left t x y = Some ?t"
    using exchange_top_eq [of y "t\<lparr>nodes := h2\<rparr>" p1 x] ne assms(5) by (simp add: h3_def)
  moreover have "exchanged x y ?h (nodes ?t) A"
    using ne assms(5) unfolding m1_def [symmetric] m2_def [symmetric]
    by (intro exchangedI [OF assms(1-3,5)])
      (auto simp: m1_def [symmetric] m2_def [symmetric] p1_def [symmetric] node_is_def h3_def h2_def h1_def swp_def)
  moreover have "root ?t = swp x y (root t)"
  proof -
    have "root t \<noteq> y" using py(2) ne(3,5) m2_def by metis
    then show ?thesis using px(2) unfolding p1_def m1_def by (cases "root t = x") auto
  qed
  ultimately show ?thesis by blast
qed

lemma exchange_right_exchanged:
  assumes "linked (nodes t) 0 (root t) A" "x \<in> A" "y \<in> A" "right (nodes t x) = y" "x \<noteq> y"
    and "parent (nodes t x) \<noteq> x" "parent (nodes t x) \<noteq> y"
  shows "\<exists>t'. exchange_right t x y = Some t' \<and> exchanged x y (nodes t) (nodes t') A \<and> root t' = swp x y (root t)"
proof -
  let ?h = "nodes t"
  note px = linked_pointers [OF assms(1,2)] and py = linked_pointers [OF assms(1,3)]
  define m1 m2 p1 where "m1 = ?h x" and "m2 = ?h y" and "p1 = parent m1"
  have ne: "p1 \<noteq> x" "p1 \<noteq> y" "x \<noteq> 0" "y \<noteq> 0" "parent m2 = x" "right m1 = y" "left m1 \<noteq> y"
    "left m2 \<noteq> x" "right m2 \<noteq> x" "left m2 \<noteq> y" "right m2 \<noteq> y" "left m1 \<noteq> x"
    using assms px(1,4,5,6) py(1,4,5) by (auto simp: m1_def m2_def p1_def)
  define h1 where "h1 = reparent (reparent (?h(x := m1\<lparr>left := left m2, right := right m2, parent := y\<rparr>)) (left m2) x) (right m2) x"
  define h2 where "h2 = reparent (h1(y := m2\<lparr>left := left m1, right := x, parent := p1\<rparr>)) (left m1) y"
  define h3 where "h3 = rechild h2 p1 x y"
  let ?t = "t\<lparr>nodes := h3(x := (h3 x)\<lparr>tag := tag m2\<rparr>, y := (h3 y)\<lparr>tag := tag m1\<rparr>), root := if p1 = 0 then y else root t\<rparr>"
  have h1y: "h1 y = m2" using ne assms(5) by (simp add: h1_def m2_def)
  have "exchange_right t x y = do { t \<leftarrow> exchange_top (t\<lparr>nodes := h2\<rparr>) x y; t \<leftarrow> set_tag t x (tag m2); set_tag t y (tag m1) }"
    using ne by (simp add: exchange_right_def m1_def [symmetric] m2_def [symmetric] p1_def [symmetric] h1_def [symmetric] h1y h2_def)
  moreover have "parent (h2 y) = p1" "p1 \<noteq> 0 \<Longrightarrow> left (h2 p1) = x \<or> right (h2 p1) = x"
    using ne px(3) assms(5) by (auto simp: h2_def h1_def p1_def m1_def m2_def)
  ultimately have "exchange_right t x y = Some ?t"
    using exchange_top_eq [of y "t\<lparr>nodes := h2\<rparr>" p1 x] ne assms(5) by (simp add: h3_def)
  moreover have "exchanged x y ?h (nodes ?t) A"
    using ne assms(5) unfolding m1_def [symmetric] m2_def [symmetric]
    by (intro exchangedI [OF assms(1-3,5)])
      (auto simp: m1_def [symmetric] m2_def [symmetric] p1_def [symmetric] node_is_def h3_def h2_def h1_def swp_def)
  moreover have "root ?t = swp x y (root t)"
  proof -
    have "root t \<noteq> y" using py(2) ne(3,5) m2_def by metis
    then show ?thesis using px(2) unfolding p1_def m1_def by (cases "root t = x") auto
  qed
  ultimately show ?thesis by blast
qed

lemma root_nodes_commute: "t\<lparr>root := r, nodes := h\<rparr> = t\<lparr>nodes := h, root := r\<rparr>"
  by simp

lemma exchange_far_exchanged:
  assumes "linked (nodes t) 0 (root t) A" "x \<in> A" "y \<in> A" "x \<noteq> y" "parent (nodes t x) \<noteq> parent (nodes t y)"
    and "parent (nodes t x) \<noteq> x" "parent (nodes t x) \<noteq> y" "parent (nodes t y) \<noteq> x" "parent (nodes t y) \<noteq> y" "parent (nodes t y) \<noteq> 0"
  shows "\<exists>t'. exchange_far t x y = Some t' \<and> exchanged x y (nodes t) (nodes t') A \<and> root t' = swp x y (root t)"
proof -
  let ?h = "nodes t"
  note px = linked_pointers [OF assms(1,2)] and py = linked_pointers [OF assms(1,3)]
  define m1 m2 p1 p2 where "m1 = ?h x" and "m2 = ?h y" and "p1 = parent m1" and "p2 = parent m2"
  have ne: "p1 \<noteq> x" "p1 \<noteq> y" "p2 \<noteq> x" "p2 \<noteq> y" "p2 \<noteq> 0" "p1 \<noteq> p2" "x \<noteq> 0" "y \<noteq> 0" "x \<noteq> y"
    "left m1 \<noteq> x" "right m1 \<noteq> x" "left m1 \<noteq> y" "right m1 \<noteq> y" "left m2 \<noteq> x" "right m2 \<noteq> x" "left m2 \<noteq> y" "right m2 \<noteq> y"
    using assms px(1,4,5) py(1,4,5) by (auto simp: m1_def m2_def p1_def p2_def)
  define h1 where "h1 = rechild (rechild ?h p1 x y) p2 y x"
  define h2 where "h2 = h1(y := m2\<lparr>parent := p1, left := left m1, right := right m1\<rparr>, x := m1\<lparr>parent := p2, left := left m2, right := right m2\<rparr>)"
  define h3 where "h3 = reparent (reparent (reparent (reparent h2 (left m2) x) (right m2) x) (left m1) y) (right m1) y"
  let ?t = "t\<lparr>nodes := h3(x := (h3 x)\<lparr>tag := tag m2\<rparr>, y := (h3 y)\<lparr>tag := tag m1\<rparr>), root := if p1 = 0 then y else root t\<rparr>"
  have h1: "h1 x = m1" "h1 y = m2" using ne by (simp_all add: h1_def rechild_def m1_def m2_def)
  have "exchange_child t p1 x y = Some (t\<lparr>nodes := rechild ?h p1 x y\<rparr>)"
    using px(3) by (intro exchange_child_eq) (simp add: p1_def m1_def)
  moreover have "exchange_child (t\<lparr>nodes := rechild ?h p1 x y\<rparr>) p2 y x = Some (t\<lparr>nodes := h1\<rparr>)"
    using py(3) ne(6) unfolding h1_def by (subst exchange_child_eq) (auto simp: p2_def m2_def)
  ultimately have "exchange_far t x y = Some ?t"
    using ne h1 root_nodes_commute
    by (cases "p1 = 0")
      (simp_all add: exchange_far_def m1_def [symmetric] m2_def [symmetric] p1_def [symmetric] p2_def [symmetric] h2_def h3_def)
  moreover have "exchanged x y ?h (nodes ?t) A"
  proof (rule exchangedI [OF assms(1-5)])
    show "node_is (nodes ?t y) (tag (?h x)) (swp x y (left (?h x))) (swp x y (right (?h x))) (swp x y (parent (?h x)))"
      using ne unfolding m1_def [symmetric] m2_def [symmetric] p1_def [symmetric] by (simp add: node_is_def h3_def h2_def)
    show "node_is (nodes ?t x) (tag (?h y)) (swp x y (left (?h y))) (swp x y (right (?h y))) (swp x y (parent (?h y)))"
      using ne unfolding m1_def [symmetric] m2_def [symmetric] p2_def [symmetric] by (simp add: node_is_def h3_def h2_def)
    fix z :: ptr assume z: "z \<noteq> x" "z \<noteq> y" "z \<noteq> 0"
    have "left (h1 z) = (if z = p1 \<and> left (?h z) = x then y else if z = p2 \<and> left (?h z) = y then x else left (?h z))"
      "right (h1 z) = (if z = p1 \<and> left (?h z) \<noteq> x then y else if z = p2 \<and> left (?h z) \<noteq> y then x else right (?h z))"
      "parent (h1 z) = parent (?h z)" "tag (h1 z) = tag (?h z)"
      using ne(5,6) z(3) by (auto simp: h1_def)
    moreover have "left (h3 z) = left (h1 z)" "right (h3 z) = right (h1 z)" "tag (h3 z) = tag (h1 z)"
      "parent (h3 z) = (if z = left m1 \<or> z = right m1 then y else if z = left m2 \<or> z = right m2 then x else parent (h1 z))"
      using z by (auto simp: h3_def h2_def)
    ultimately show "tag (nodes ?t z) = tag (?h z) \<and>
       left (nodes ?t z) = (if z = parent (?h x) \<and> left (?h z) = x then y else if z = parent (?h y) \<and> left (?h z) = y then x else left (?h z)) \<and>
       right (nodes ?t z) = (if z = parent (?h x) \<and> left (?h z) \<noteq> x then y else if z = parent (?h y) \<and> left (?h z) \<noteq> y then x else right (?h z)) \<and>
       parent (nodes ?t z) = (if z = left (?h x) \<or> z = right (?h x) then y else if z = left (?h y) \<or> z = right (?h y) then x else parent (?h z))"
      using z unfolding m1_def [symmetric] m2_def [symmetric] p1_def [symmetric] p2_def [symmetric] by simp
  qed
  moreover have "root ?t = swp x y (root t)"
  proof -
    have "root t \<noteq> y" using py(2) assms(10) by metis
    then show ?thesis using px(2) unfolding p1_def m1_def by (cases "root t = x") auto
  qed
  ultimately show ?thesis by blast
qed

fun readdr :: "ptr \<Rightarrow> 'b crumb \<Rightarrow> 'b crumb" where
  "readdr y (InL b x r) = InL b y r"
| "readdr y (InR l b x) = InR l b y"

lemma exchange_exchanged:
  assumes "at t (N yl by y yr) (D @ c # C)"
  shows "\<exists>t'. tree_exchange t (crumb_addr c) y = Some t' \<and>
           exchanged (crumb_addr c) y (nodes t) (nodes t') (set (addrs (plug (N yl by y yr) (D @ c # C)))) \<and>
           root t' = swp (crumb_addr c) y (root t)"
proof -
  let ?s = "plug (N yl by y yr) (D @ c # C)" and ?x = "crumb_addr c"
  have rep: "tree_rep t ?s" using assms by (simp only: at_iff_plug)
  have di: "distinct (addrs (N yl by y yr) @ path_addrs D @ crumb_addrs c @ path_addrs C)" using assms by (simp add: at_def)
  have cx: "?x \<in> set (crumb_addrs c)" by (cases c) auto
  have xy: "?x \<noteq> y" "?x \<in> set (addrs ?s)" "y \<in> set (addrs ?s)" using di cx by (auto simp: set_addrs_plug)
  have li: "linked (nodes t) 0 (root t) (set (addrs ?s))"
    using rep subt_linked [of "nodes t" 0 ?s] by (simp add: tree_rep_def at_def)
  have atx: "at t (plug (N yl by y yr) D) (c # C)" using assms by (simp add: at_iff_plug plug_append)
  note nx = at_crumb [OF atx] and ny = at_node [OF assms]
  have px: "parent (nodes t ?x) \<noteq> ?x" "parent (nodes t ?x) \<noteq> y"
    using nx(1,3) ny(1) par_of_in [of C] di cx by auto
  show ?thesis
  proof (cases D)
    case Nil
    have "c = InR l b x \<Longrightarrow> left (nodes t x) \<noteq> y" for l b x
      using atx di ny(1) Nil addr_of_neq [of y l] by (auto simp: at_def node_is_def)
    then show ?thesis
      using exchange_left_exchanged [OF li xy(2,3) _ xy(1) px] exchange_right_exchanged [OF li xy(2,3) _ xy(1) px] nx ny atx Nil
      by (subst tree_exchange.simps) (cases c; auto simp: at_def node_is_def)
  next
    case (Cons e D')
    have e: "parent (nodes t y) = crumb_addr e" using ny(5) Cons by simp
    have "at t (N yl by y yr) (e # D' @ c # C)" using assms Cons by simp
    then have "crumb_addr e \<noteq> 0" using at_crumb(1) by blast
    moreover have "crumb_addr e \<in> set (path_addrs D)" using Cons by (cases e) auto
    ultimately have p2: "crumb_addr e \<noteq> ?x" "crumb_addr e \<noteq> y" "crumb_addr e \<noteq> 0" "parent (nodes t ?x) \<noteq> crumb_addr e"
      using di nx(3) cx par_of_in [of C] by auto
    then show ?thesis using exchange_far_exchanged [OF li xy(2,3,1) _ px] nx(1) ny(1) e px
      by (subst tree_exchange.simps) simp
  qed
qed

lemma exchange_at:
  assumes "at t (N yl by y yr) (D @ c # C)"
  shows "\<exists>t'. tree_exchange t (crumb_addr c) y = Some t' \<and> at t' (N yl by (crumb_addr c) yr) (D @ readdr y c # C) \<and>
           plug (N yl by (crumb_addr c) yr) (D @ readdr y c # C) = swap_tree (crumb_addr c) y (plug (N yl by y yr) (D @ c # C))"
proof -
  let ?s = "plug (N yl by y yr) (D @ c # C)"
  have rep: "tree_rep t ?s" using assms by (simp only: at_iff_plug)
  have atx: "at t (plug (N yl by y yr) D) (c # C)" using assms by (simp add: at_iff_plug plug_append)
  obtain t' where t': "tree_exchange t (crumb_addr c) y = Some t'" "tree_rep t' (swap_tree (crumb_addr c) y ?s)"
    using rep tree_rep_exchanged [OF rep at_crumb(1) [OF atx] at_node(1) [OF assms]] exchange_exchanged [OF assms] by blast
  have "distinct (addrs (N yl by y yr) @ path_addrs D @ crumb_addrs c @ path_addrs C)" using assms by (simp add: at_def)
  then have "swap_tree (crumb_addr c) y ?s = plug (N yl by (crumb_addr c) yr) (D @ readdr y c # C)"
    by (cases c) (auto simp: swap_plug swap_tree_id swap_crumbs_id)
  then show ?thesis using t' by (simp add: at_iff_plug)
qed

end
