(* ===== verification/RbDelete.thy ===== *)
theory RbDelete
  imports RbSearch TreeSwap
begin

text \<open>
  Deletion from the red-black tree: the six cases of the rebalancing, the exchange of a node
  with its predecessor and the removal of a node with at most one child.
\<close>

section \<open>Rotations towards a side\<close>

fun rotate_to :: "bool \<Rightarrow> rb_tree_nocmp \<Rightarrow> ptr \<Rightarrow> rb_tree_nocmp option" where
  "rotate_to True t p = rotate_left t p"
| "rotate_to False t p = rotate_right t p"

lemma rotate_towards:
  assumes "at t s (mk d bp p (plug1 (mk d bw w far) near) # C)"
  shows "\<exists>t'. rotate_to d t p = Some t' \<and> at t' s (mk d bp p near # mk d bw w far # C)"
  using assms rotate_left_at [of t s bp p near bw w far C] rotate_right_at [of t far bw w near bp p s C]
  by (cases d) (simp_all add: at_up)

lemma rotate_away:
  assumes "at t (plug1 (mk d bw w far) (plug1 (mk d bn x b) a)) C"
  shows "\<exists>t'. rotate_to (\<not> d) t w = Some t' \<and> at t' (plug1 (mk d bn x (plug1 (mk d bw w far) b)) a) C"
  using assms rotate_right_at [of t a bn x b bw w far C] rotate_left_at [of t far bw w b bn x a C]
  by (cases d) simp_all

lemma at_red: "at t u D \<Longrightarrow> null_or_black t (addr_of u) = black_root u" "at t u D \<Longrightarrow> is_red t (addr_of u) = (\<not> black_root u)"
  by (cases u; auto simp: null_or_black_def is_red_def at_def node_is_def)+

lemma at_mk:
  assumes "at t s (mk d b p w # C)" "w \<noteq> E"
  shows "p \<noteq> 0" "tag (nodes t p) = b" "parent (nodes t p) = par_of C"
    "left (nodes t p) = (if d then addr_of s else addr_of w)" "right (nodes t p) = (if d then addr_of w else addr_of s)"
    "addr_of w \<noteq> 0" "addr_of s \<noteq> addr_of w" "addr_of w \<noteq> p"
    "sibling_parent t (addr_of s) p = Some (addr_of w)"
proof -
  have n: "at t (plug1 (mk d b p w) s) C" using assms(1) by (simp add: at_up)
  note w = at_addr_0 [OF iffD1 [OF at_sibling assms(1)]]
  show 1: "p \<noteq> 0" "tag (nodes t p) = b" "parent (nodes t p) = par_of C"
    "left (nodes t p) = (if d then addr_of s else addr_of w)" "right (nodes t p) = (if d then addr_of w else addr_of s)"
    using at_node [of t s b p w C] at_node [of t w b p s C] n by (cases d; simp)+
  have di: "p \<notin> set (addrs w)" "set (addrs w) \<inter> set (addrs s) = {}" using n by (cases d; auto simp: at_def)+
  show 2: "addr_of w \<noteq> 0" "addr_of s \<noteq> addr_of w" "addr_of w \<noteq> p"
    using w assms(2) di 1(1) addr_of_neq [of p w] addr_of_disjoint [of w s] by auto
  show "sibling_parent t (addr_of s) p = Some (addr_of w)"
    using 1 2 by (cases d) (auto simp: sibling_parent_def)
qed

text \<open>The children of the sibling, the near one and the far one.\<close>

lemma at_nephews:
  assumes "at t s (mk d b p (plug1 (mk d bw w far) near) # C)"
  shows "w \<noteq> 0" "tag (nodes t w) = bw"
    "left (nodes t w) = (if d then addr_of near else addr_of far)" "right (nodes t w) = (if d then addr_of far else addr_of near)"
    "null_or_black t (addr_of near) = black_root near" "is_red t (addr_of near) = (\<not> black_root near)"
    "null_or_black t (addr_of far) = black_root far" "is_red t (addr_of far) = (\<not> black_root far)"
proof -
  have n: "at t near (mk d bw w far # mk (\<not> d) b p s # C)" using assms by (simp only: at_near)
  then have w: "at t (plug1 (mk d bw w far) near) (mk (\<not> d) b p s # C)" by (simp add: at_up)
  show "w \<noteq> 0" "tag (nodes t w) = bw"
    "left (nodes t w) = (if d then addr_of near else addr_of far)" "right (nodes t w) = (if d then addr_of far else addr_of near)"
    using at_node [of t near bw w far] at_node [of t far bw w near] w by (cases d; simp)+
  show "null_or_black t (addr_of near) = black_root near" "is_red t (addr_of near) = (\<not> black_root near)"
    "null_or_black t (addr_of far) = black_root far" "is_red t (addr_of far) = (\<not> black_root far)"
    using at_red [OF n] at_red [OF iffD1 [OF at_sibling n]] by simp_all
qed

lemma set_black_nephew:
  assumes "at t s (mk d b p (plug1 (mk d bw w far) near) # C)"
  shows "\<exists>t'. set_tag t w b' = Some t' \<and> at t' s (mk d b p (plug1 (mk d b' w far) near) # C)"
    and "far = N fl fb fx fr \<Longrightarrow>
           \<exists>t'. set_tag t fx b' = Some t' \<and> at t' s (mk d b p (plug1 (mk d bw w (N fl b' fx fr)) near) # C)"
    and "near = plug1 (mk d bn x u) v \<Longrightarrow>
           \<exists>t'. set_tag t x b' = Some t' \<and> at t' s (mk d b p (plug1 (mk d bw w far) (plug1 (mk d b' x u) v)) # C)"
proof -
  have n: "at t near (mk d bw w far # mk (\<not> d) b p s # C)" using assms by (simp only: at_near)
  show "\<exists>t'. set_tag t w b' = Some t' \<and> at t' s (mk d b p (plug1 (mk d b' w far) near) # C)"
    using set_tag_crumb [OF n, of b'] by (simp add: at_near)
  show "far = N fl fb fx fr \<Longrightarrow>
           \<exists>t'. set_tag t fx b' = Some t' \<and> at t' s (mk d b p (plug1 (mk d bw w (N fl b' fx fr)) near) # C)"
    using set_tag_sibling [OF n, of fl fb fx fr b'] by (simp add: at_near)
  assume "near = plug1 (mk d bn x u) v"
  then have "at t v (mk d bn x u # mk d bw w far # mk (\<not> d) b p s # C)" using n by (simp add: at_up)
  from set_tag_crumb [OF this, of b']
  show "\<exists>t'. set_tag t x b' = Some t' \<and> at t' s (mk d b p (plug1 (mk d bw w far) (plug1 (mk d b' x u) v)) # C)"
    by (simp add: at_near) (simp add: at_up)
qed

section \<open>The cases\<close>

lemma delete_case6_at:
  assumes "at t s (mk d b p (plug1 (mk d True w (N fl False fx fr)) near) # C)"
  shows "\<exists>t'. rb_tree_delete_case6 t (addr_of s) p = Some t' \<and>
           at t' (plug1 (mk d b w (N fl True fx fr)) (plug1 (mk d True p near) s)) C"
proof -
  obtain t1 where t1: "set_tag t w b = Some t1" "at t1 s (mk d b p (plug1 (mk d b w (N fl False fx fr)) near) # C)"
    using set_black_nephew(1) [OF assms] by blast
  obtain t2 where t2: "set_tag t1 p True = Some t2" "at t2 s (mk d True p (plug1 (mk d b w (N fl False fx fr)) near) # C)"
    using set_tag_crumb [OF t1(2), of True] by auto
  obtain t3 where t3: "set_tag t2 fx True = Some t3" "at t3 s (mk d True p (plug1 (mk d b w (N fl True fx fr)) near) # C)"
    using set_black_nephew(2) [OF t2(2) refl] by blast
  obtain t4 where t4: "rotate_to d t3 p = Some t4" "at t4 s (mk d True p near # mk d b w (N fl True fx fr) # C)"
    using rotate_towards [OF t3(2)] by blast
  have "rb_tree_delete_case6 t (addr_of s) p = Some t4"
    using at_mk [OF assms] at_mk [OF t2(2)] at_nephews [OF t2(2)] t1(1) t2(1) t3(1) t4(1)
    by (cases d) (simp_all add: rb_tree_delete_case6_def del: set_simps)
  then show ?thesis using t4(2) by (simp add: at_up)
qed

text \<open>
  A rebalancing step that ends the deletion: the subtree below the parent, of colour \<open>b\<close>, becomes a
  subtree with the same nodes and the black height that the path above it needs.
\<close>

definition balances :: "rb_tree_nocmp option \<Rightarrow> rbt \<Rightarrow> bool \<Rightarrow> nat \<Rightarrow> bool crumb list \<Rightarrow> bool" where
  "balances res s b k C \<longleftrightarrow>
     (\<exists>t' s'. res = Some t' \<and> at t' s' C \<and> addrs s' = addrs s \<and> rbt_ok (if b then Suc k else k) s' \<and>
        (black_root s' \<or> \<not> b))"

lemma balances_addrs: "balances res s b k C \<Longrightarrow> addrs s = addrs s' \<Longrightarrow> balances res s' b k C"
  by (simp add: balances_def)

lemma balances_yields:
  assumes "balances res (plug1 c s) (ctag c) k C" "path_ok k (c # C)"
  shows "yields res (addrs (plug s (c # C)))"
proof -
  obtain t' s' where s': "res = Some t'" "at t' s' C" "addrs s' = addrs (plug1 c s)"
    "rbt_ok (if ctag c then Suc k else k) s'" "black_root s' \<or> \<not> ctag c"
    using assms(1) by (auto simp: balances_def)
  have "rbt_inv (plug s' C)"
    using rbt_inv_plug [OF s'(4)] s'(5) assms(2) by (auto split: if_splits)
  then show ?thesis using s'(1,3) at_plug [OF s'(2)] by (auto simp: yields_def addrs_plug)
qed

lemma rbt_ok_mk:
  "rbt_ok n (plug1 (mk d b x u) s) \<longleftrightarrow>
     (if b then \<exists>m. n = Suc m \<and> rbt_ok m u \<and> rbt_ok m s
      else black_root u \<and> black_root s \<and> rbt_ok n u \<and> rbt_ok n s)"
  by (cases d) auto

lemma delete_case6_balances:
  assumes "at t s (mk d b p (plug1 (mk d True w far) near) # C)" "\<not> black_root far"
    and "rbt_ok k s" "rbt_ok k near" "rbt_ok k far"
  shows "balances (rb_tree_delete_case6 t (addr_of s) p) (plug1 (mk d b p (plug1 (mk d True w far) near)) s) b (Suc k) C"
proof -
  obtain fl fx fr where far: "far = N fl False fx fr" using assms(2) by (cases far) auto
  let ?s' = "plug1 (mk d b w (N fl True fx fr)) (plug1 (mk d True p near) s)"
  have "rbt_ok (if b then Suc (Suc k) else Suc k) ?s'" using assms(3-5) far by (simp add: rbt_ok_mk)
  moreover have "addrs ?s' = addrs (plug1 (mk d b p (plug1 (mk d True w far) near)) s)" using far by (simp add: addrs_mk)
  ultimately show ?thesis using delete_case6_at [OF assms(1) [unfolded far]] unfolding balances_def by fastforce
qed

text \<open>The rotation of case 5 makes the far child of the sibling red.\<close>

lemma delete_case5_near:
  assumes "at t s (mk d b p (plug1 (mk d True w far) (plug1 (mk d False x u) v)) # C)" "black_root far"
  shows "\<exists>t'. rb_tree_delete_case5 t (addr_of s) p = rb_tree_delete_case6 t' (addr_of s) p \<and>
           at t' s (mk d b p (plug1 (mk d True x (plug1 (mk d False w far) u)) v) # C)"
proof -
  obtain t1 where t1: "set_tag t w False = Some t1" "at t1 s (mk d b p (plug1 (mk d False w far) (plug1 (mk d False x u) v)) # C)"
    using set_black_nephew(1) [OF assms(1)] by blast
  obtain t2 where t2: "set_tag t1 x True = Some t2" "at t2 s (mk d b p (plug1 (mk d False w far) (plug1 (mk d True x u) v)) # C)"
    using set_black_nephew(3) [OF t1(2) refl] by blast
  obtain t3 where t3: "rotate_to (\<not> d) t2 w = Some t3"
    "at t3 (plug1 (mk d True x (plug1 (mk d False w far) u)) v) (mk (\<not> d) b p s # C)"
    using rotate_away [OF iffD1 [OF at_sibling t2(2)]] by blast
  have "rb_tree_delete_case5 t (addr_of s) p = rb_tree_delete_case6 t3 (addr_of s) p"
    using at_mk [OF assms(1)] at_nephews [OF assms(1)] assms(2) t1(1) t2(1) t3(1)
    by (cases d) (simp_all add: rb_tree_delete_case5_def del: set_simps)
  then show ?thesis using iffD2 [OF at_sibling t3(2)] by blast
qed

lemma delete_case5_far:
  assumes "at t s (mk d b p (plug1 (mk d True w far) near) # C)" "\<not> black_root far"
  shows "rb_tree_delete_case5 t (addr_of s) p = rb_tree_delete_case6 t (addr_of s) p"
  using at_mk [OF assms(1)] at_nephews [OF assms(1)] assms(2)
  by (cases d) (simp_all add: rb_tree_delete_case5_def)

lemma delete_case5_balances:
  assumes "at t s (mk d b p (plug1 (mk d True w far) near) # C)" "\<not> (black_root near \<and> black_root far)"
    and "rbt_ok k s" "rbt_ok k near" "rbt_ok k far"
  shows "balances (rb_tree_delete_case5 t (addr_of s) p) (plug1 (mk d b p (plug1 (mk d True w far) near)) s) b (Suc k) C"
proof (cases "black_root far")
  case True
  obtain x u v where near: "near = plug1 (mk d False x u) v"
    using assms(2) True node_ex [of near d] by (metis black_root.simps(1) black_root_plug1 mk_simps(3))
  obtain t' where t': "rb_tree_delete_case5 t (addr_of s) p = rb_tree_delete_case6 t' (addr_of s) p"
    "at t' s (mk d b p (plug1 (mk d True x (plug1 (mk d False w far) u)) v) # C)"
    using delete_case5_near [OF assms(1) [unfolded near] True] by blast
  have "balances (rb_tree_delete_case6 t' (addr_of s) p)
          (plug1 (mk d b p (plug1 (mk d True x (plug1 (mk d False w far) u)) v)) s) b (Suc k) C"
    using delete_case6_balances [OF t'(2)] assms(3-5) near True by (simp add: rbt_ok_mk)
  then show ?thesis unfolding t'(1) near by (rule balances_addrs) (simp add: addrs_mk)
next
  case False
  then show ?thesis using delete_case6_balances [OF assms(1) False assms(3-5)] delete_case5_far [OF assms(1) False] by simp
qed

lemma sibling_all_black_at:
  assumes "at t s (mk d b p (plug1 (mk d bw w far) near) # C)"
  shows "sibling_all_black t w = Some (bw \<and> black_root near \<and> black_root far)"
  using at_nephews [OF assms] by (cases d; cases bw) (auto simp: sibling_all_black_def null_or_black_def)

lemma delete_case4_balances:
  assumes "at t s (mk d b p (plug1 (mk d True w far) near) # C)" "b \<Longrightarrow> \<not> (black_root near \<and> black_root far)"
    and "black_root s" "rbt_ok k s" "rbt_ok k near" "rbt_ok k far"
  shows "balances (rb_tree_delete_case4 t (addr_of s) p) (plug1 (mk d b p (plug1 (mk d True w far) near)) s) b (Suc k) C"
proof (cases "black_root near \<and> black_root far")
  case True
  have b: "\<not> b" using assms(2) True by blast
  obtain t1 where t1: "set_tag t w False = Some t1" "at t1 s (mk d b p (plug1 (mk d False w far) near) # C)"
    using set_black_nephew(1) [OF assms(1)] by blast
  obtain t2 where t2: "set_tag t1 p True = Some t2" "at t2 s (mk d True p (plug1 (mk d False w far) near) # C)"
    using set_tag_crumb [OF t1(2), of True] by auto
  let ?s' = "plug1 (mk d True p (plug1 (mk d False w far) near)) s"
  have "rb_tree_delete_case4 t (addr_of s) p = Some t2"
    using at_mk [OF assms(1)] sibling_all_black_at [OF assms(1)] True b t1(1) t2(1)
    by (simp add: rb_tree_delete_case4_def del: set_simps)
  moreover have "at t2 ?s' C" using t2(2) by (simp add: at_up)
  moreover have "rbt_ok (Suc k) ?s'" using assms(3-6) True by (simp add: rbt_ok_mk)
  moreover have "addrs ?s' = addrs (plug1 (mk d b p (plug1 (mk d True w far) near)) s)" by (simp add: addrs_mk)
  ultimately show ?thesis using b by (auto simp: balances_def simp del: plug1.simps)
next
  case False
  have "rb_tree_delete_case4 t (addr_of s) p = rb_tree_delete_case5 t (addr_of s) p"
    using at_mk [OF assms(1)] sibling_all_black_at [OF assms(1)] False by (simp add: rb_tree_delete_case4_def)
  then show ?thesis using delete_case5_balances [OF assms(1) False assms(4-6)] by simp
qed

lemma delete_case3_next:
  assumes "at t s (mk d b p (plug1 (mk d True w far) near) # C)" "b \<Longrightarrow> \<not> (black_root near \<and> black_root far)"
  shows "rb_tree_delete_case3 f t (addr_of s) p = rb_tree_delete_case4 t (addr_of s) p"
  using at_mk [OF assms(1)] sibling_all_black_at [OF assms(1)] assms(2)
  by (cases b) (simp_all add: rb_tree_delete_case3_def null_or_black_def)

lemma delete_case3_up:
  assumes "at t s (mk d True p (plug1 (mk d True w far) near) # C)" "black_root near" "black_root far"
  shows "\<exists>t'. rb_tree_delete_case3 f t (addr_of s) p = f t' p (par_of C) \<and>
           at t' (plug1 (mk d True p (plug1 (mk d False w far) near)) s) C"
proof -
  obtain t1 where t1: "set_tag t w False = Some t1" "at t1 s (mk d True p (plug1 (mk d False w far) near) # C)"
    using set_black_nephew(1) [OF assms(1)] by blast
  have "rb_tree_delete_case3 f t (addr_of s) p = f t1 p (par_of C)"
    using at_mk [OF assms(1)] at_mk [OF t1(2)] sibling_all_black_at [OF assms(1)] assms(2,3) t1(1)
    by (simp add: rb_tree_delete_case3_def null_or_black_def del: set_simps)
  then show ?thesis using t1(2) by (auto simp: at_up)
qed

lemma delete_case2_red:
  assumes "at t s (mk d b p (plug1 (mk d False w far) near) # C)"
  shows "\<exists>t'. rb_tree_delete_case2 f t (addr_of s) p = rb_tree_delete_case3 f t' (addr_of s) p \<and>
           at t' s (mk d False p near # mk d True w far # C)"
proof -
  obtain t1 where t1: "set_tag t p False = Some t1" "at t1 s (mk d False p (plug1 (mk d False w far) near) # C)"
    using set_tag_crumb [OF assms, of False] by auto
  obtain t2 where t2: "set_tag t1 w True = Some t2" "at t2 s (mk d False p (plug1 (mk d True w far) near) # C)"
    using set_black_nephew(1) [OF t1(2)] by blast
  obtain t3 where t3: "rotate_to d t2 p = Some t3" "at t3 s (mk d False p near # mk d True w far # C)"
    using rotate_towards [OF t2(2)] by blast
  have "rb_tree_delete_case2 f t (addr_of s) p = rb_tree_delete_case3 f t3 (addr_of s) p"
    using at_mk [OF assms] at_mk [OF t2(2)] at_nephews(1,2) [OF assms] t1(1) t2(1) t3(1)
    by (cases d) (simp_all add: rb_tree_delete_case2_def is_red_def del: set_simps)
  then show ?thesis using t3(2) by blast
qed

lemma delete_case2_black:
  assumes "at t s (mk d b p (plug1 (mk d True w far) near) # C)"
  shows "rb_tree_delete_case2 f t (addr_of s) p = rb_tree_delete_case3 f t (addr_of s) p"
  using at_mk [OF assms] at_nephews(1,2) [OF assms] by (simp add: rb_tree_delete_case2_def is_red_def)

text \<open>The branch of cases 2 to 4 that the colours of the sibling and its children select.\<close>

lemma delete_red_sibling:
  assumes "at t s (mk d b p (plug1 (mk d False w far) near) # C)" "path_ok (Suc k) (mk d b p (plug1 (mk d False w far) near) # C)"
    and "black_root s" "rbt_ok k s"
  shows "yields (rb_tree_delete_case2 f t (addr_of s) p) (addrs (plug s (mk d b p (plug1 (mk d False w far) near) # C)))"
proof -
  have ok: "b" "black_root near" "rbt_ok (Suc k) near" "rbt_ok (Suc k) far" "path_ok (Suc (Suc k)) C"
    using assms(2) by (auto simp: rbt_ok_mk split: if_splits)
  have "near \<noteq> E" using ok(3) by auto
  then obtain b2 w2 far2 near2 where near: "near = plug1 (mk d b2 w2 far2) near2" by (rule node_ex)
  have b2: "b2" "rbt_ok k far2" "rbt_ok k near2" using ok(2,3) near by (auto simp: rbt_ok_mk)
  obtain t' where t': "rb_tree_delete_case2 f t (addr_of s) p = rb_tree_delete_case3 f t' (addr_of s) p"
    "at t' s (mk d False p (plug1 (mk d True w2 far2) near2) # mk d True w far # C)"
    using delete_case2_red [OF assms(1)] near b2(1) by auto
  have "balances (rb_tree_delete_case2 f t (addr_of s) p)
      (plug1 (mk d False p near) s) False (Suc k) (mk d True w far # C)"
    using delete_case4_balances [OF t'(2) _ assms(3,4) b2(3,2)] delete_case3_next [OF t'(2)] t'(1) near b2(1) by simp
  then have "yields (rb_tree_delete_case2 f t (addr_of s) p) (addrs (plug s (mk d False p near # mk d True w far # C)))"
    by (intro balances_yields [where k = "Suc k"]) (use ok in simp_all)
  then show ?thesis by (cases d) (simp_all add: addrs_plug)
qed

lemma delete_black_sibling:
  assumes "at t s (mk d b p (plug1 (mk d True w far) near) # C)" "path_ok (Suc k) (mk d b p (plug1 (mk d True w far) near) # C)"
    and "black_root s" "rbt_ok k s" "b \<Longrightarrow> \<not> (black_root near \<and> black_root far)"
  shows "yields (rb_tree_delete_case2 f t (addr_of s) p) (addrs (plug s (mk d b p (plug1 (mk d True w far) near) # C)))"
proof -
  have ok: "rbt_ok k near" "rbt_ok k far" using assms(2) by (auto simp: rbt_ok_mk split: if_splits)
  have "rb_tree_delete_case2 f t (addr_of s) p = rb_tree_delete_case4 t (addr_of s) p"
    using delete_case2_black [OF assms(1)] delete_case3_next [OF assms(1,5)] by simp
  then show ?thesis
    using balances_yields [OF _ assms(2)] delete_case4_balances [OF assms(1,5,3,4) ok] by simp
qed

theorem delete_case1_ok:
  assumes "at t s C" "black_root s" "rbt_ok k s" "path_ok (Suc k) C"
  shows "yields (rb_tree_delete_case1 t (addr_of s) (par_of C)) (addrs (plug s C))"
  using assms
proof (induction C arbitrary: t s k)
  case Nil
  then show ?case
    by (subst rb_tree_delete_case1.simps) (auto simp: yields_def tree_rep_def rbt_inv_def)
next
  case (Cons c C)
  obtain d b p u where c: "c = mk d b p u" by (rule mk_ex)
  have u: "rbt_ok (Suc k) u" using Cons.prems(4) c by simp
  then have "u \<noteq> E" by auto
  then obtain bw w far near where "u = plug1 (mk d bw w far) near" by (rule node_ex)
  note c = c [unfolded this] and prems = Cons.prems [unfolded c this]
  have p: "rb_tree_delete_case1 t (addr_of s) (par_of (c # C)) = rb_tree_delete_case2 rb_tree_delete_case1 t (addr_of s) p"
    using at_mk(1) [OF prems(1)] c by (subst rb_tree_delete_case1.simps) simp
  consider "\<not> bw" | "bw" "b" "black_root near" "black_root far" | "bw" "b \<longrightarrow> \<not> (black_root near \<and> black_root far)" by blast
  then show ?case
  proof cases
    case 1
    then have "bw = False" by simp
    from delete_red_sibling [OF prems(1,4,2,3) [unfolded this]] this show ?thesis unfolding p unfolding c by simp
  next
    case 2
    obtain t' where t': "rb_tree_delete_case3 rb_tree_delete_case1 t (addr_of s) p = rb_tree_delete_case1 t' p (par_of C)"
      "at t' (plug1 (mk d True p (plug1 (mk d False w far) near)) s) C"
      using delete_case3_up [of t s d p w far near C rb_tree_delete_case1] prems(1) 2 by auto
    have ok: "rbt_ok (Suc k) (plug1 (mk d True p (plug1 (mk d False w far) near)) s)" "path_ok (Suc (Suc k)) C"
      using prems(2-4) 2 by (auto simp: rbt_ok_mk)
    have "yields (rb_tree_delete_case1 t' p (par_of C)) (addrs (plug (plug1 (mk d True p (plug1 (mk d False w far) near)) s) C))"
      using Cons.IH [OF t'(2) _ ok] by simp
    then show ?thesis
      using t'(1) delete_case2_black [of t s d b p w far near C] prems(1) 2 p c by (cases d) (simp_all add: addrs_plug)
  next
    case 3
    then have "bw = True" by simp
    from delete_black_sibling [OF prems(1,4,2,3) [unfolded this]] this 3(2) show ?thesis unfolding p unfolding c by simp
  qed
qed

lemma delete_one_child_put:
  assumes "at t (N l b x r) C" "l = E \<or> r = E"
  shows "\<exists>t'. at t' (if r = E then l else r) C \<and> rb_tree_delete_one_child t x =
           (let ch = (if r = E then l else r)
            in if b then (if black_root ch then rb_tree_delete_case1 t' (addr_of ch) (par_of C) else set_tag t' (addr_of ch) True)
               else Some t')"
proof -
  obtain t' where t': "put_child t (par_of C) x (addr_of (if r = E then l else r)) = Some t'" "at t' (if r = E then l else r) C"
    using put_child_at [OF assms] by blast
  have "at t r (InR l b x # C)" using assms(1) by (simp add: at_up)
  note r = at_addr_0 [OF this]
  have "rb_tree_delete_one_child t x =
      do { t \<leftarrow> put_child t (par_of C) x (addr_of (if r = E then l else r));
           if b then (if is_red t (addr_of (if r = E then l else r)) then set_tag t (addr_of (if r = E then l else r)) True
                      else rb_tree_delete_case1 t (addr_of (if r = E then l else r)) (par_of C))
           else Some t }"
    using at_node [OF assms(1)] r by (cases "r = E") (simp_all add: rb_tree_delete_one_child_def put_child_def Let_def)
  then show ?thesis using t' at_red(2) [OF t'(2)] by (auto simp: Let_def)
qed

lemma delete_one_child_ok:
  assumes "at t (N l b x r) C" "rbt_inv (plug (N l b x r) C)" "l = E \<or> r = E"
  shows "yields (rb_tree_delete_one_child t x) (inorder_path_l C @ addrs l @ addrs r @ inorder_path_r C)"
proof -
  define ch where "ch = (if r = E then l else r)"
  obtain t' where t': "at t' ch C" "rb_tree_delete_one_child t x =
      (if b then (if black_root ch then rb_tree_delete_case1 t' (addr_of ch) (par_of C) else set_tag t' (addr_of ch) True)
       else Some t')"
    using delete_one_child_put [OF assms(1,3)] unfolding ch_def Let_def by blast
  obtain n where n: "rbt_ok n (N l b x r)" "path_ok n C" by (rule rbt_inv_split [OF assms(2)])
  have ad: "addrs ch = addrs l @ addrs r" using assms(3) by (auto simp: ch_def)
  show ?thesis
  proof (cases b)
    case True
    then obtain k where k: "n = Suc k" "rbt_ok k ch" using n(1) by (auto simp: ch_def)
    show ?thesis
    proof (cases "black_root ch")
      case True
      then show ?thesis using delete_case1_ok [OF t'(1) True k(2)] n(2) k(1) t'(2) \<open>b\<close> ad by (simp add: addrs_plug)
    next
      case False
      then obtain cl cx cr where ch: "ch = N cl False cx cr" by (cases ch) auto
      obtain t2 where t2: "set_tag t' cx True = Some t2" "at t2 (N cl True cx cr) C"
        using set_tag_at [of t' cl False cx cr C True] t'(1) ch by blast
      have "rbt_inv (plug (N cl True cx cr) C)" using rbt_inv_plug [of n _ C] k n(2) ch by simp
      then show ?thesis
        using at_plug [OF t2(2)] t2(1) t'(2) \<open>b\<close> ch ad by (auto simp: yields_def addrs_plug simp del: set_simps)
    qed
  next
    case False
    then have "rbt_ok n ch" "black_root ch" using n(1) by (auto simp: ch_def)
    then have "rbt_inv (plug ch C)" using rbt_inv_plug n(2) by blast
    then show ?thesis using False t'(2) at_plug [OF t'(1)] ad by (auto simp: yields_def addrs_plug)
  qed
qed

lemma swap_inv [simp]: "black_root (swap_tree x y s) = black_root s" "rbt_ok n (swap_tree x y s) = rbt_ok n s"
    "rbt_inv (swap_tree x y s) = rbt_inv s"
proof -
  show 1: "black_root (swap_tree x y s) = black_root s" for s by (cases s) simp_all
  then show 2: "rbt_ok n (swap_tree x y s) = rbt_ok n s" for n by (induction s arbitrary: n) simp_all
  show "rbt_inv (swap_tree x y s) = rbt_inv s" using 1 2 by (simp add: rbt_inv_def)
qed

lemma rb_tree_delete_yields:
  assumes "tree_rep t s" "rbt_inv s" "x \<in> set (addrs s)"
  shows "yields (rb_tree_nocmp_delete t x) (remove1 x (addrs s))"
proof -
  obtain l b r C where s: "s = plug (N l b x r) C" using node_position [OF assms(3)] by blast
  have at: "at t (N l b x r) C" using assms(1) s by (simp add: at_iff_plug)
  have atl: "at t l (InL b x r # C)" and atr: "at t r (InR l b x # C)" using at by (simp_all add: at_up)
  note nx = at_node [OF at] at_addr_0 [OF atl] at_addr_0 [OF atr]
  have "x \<notin> set (addrs l)" "x \<notin> set (inorder_path_l C)"
    using tree_rep_root(4) [OF assms(1)] by (auto simp: s addrs_plug)
  then have rm: "remove1 x (addrs s) = inorder_path_l C @ addrs l @ addrs r @ inorder_path_r C"
    by (simp add: s addrs_plug remove1_append)
  show ?thesis
  proof (cases "l = E \<or> r = E")
    case True
    then show ?thesis using delete_one_child_ok [OF at _ True] nx assms(2) s rm by (auto simp: rb_tree_nocmp_delete_def)
  next
    case False
    obtain yl yb D where D: "l = plug (N yl yb (last (addrs l)) E) D" "inorder_path_r D = []"
      using rightmost_position [of l] False by blast
    define y where "y = last (addrs l)"
    have aty: "at t (N yl yb y E) (D @ InL b x r # C)"
      using at D(1) unfolding y_def [symmetric] by (simp add: at_iff_plug plug_append)
    obtain t' where t': "tree_exchange t x y = Some t'" "at t' (N yl yb x E) (D @ InL b y r # C)"
      "rbt_inv (plug (N yl yb x E) (D @ InL b y r # C)) = rbt_inv (plug (N yl yb y E) (D @ InL b x r # C))"
      using exchange_at [OF aty] by auto
    have inv: "rbt_inv (plug (N yl yb x E) (D @ InL b y r # C))"
      using t'(3) assms(2) s D(1) unfolding y_def [symmetric] by (simp add: plug_append)
    have "rb_tree_nocmp_delete t x = rb_tree_delete_one_child t' x"
      using nx False rightmost_from_last [OF atl] t'(1) by (simp add: rb_tree_nocmp_delete_def y_def)
    moreover have "addrs l = inorder_path_l D @ addrs yl @ [y]"
      using D unfolding y_def [symmetric] by (simp add: addrs_plug)
    ultimately show ?thesis
      using delete_one_child_ok [OF t'(2) inv] rm D(2) by (simp add: inorder_path_append)
  qed
qed

end
