(* ===== verification/RbOrder.thy ===== *)
theory RbOrder
  imports RbDelete TreeOrder
begin

text \<open>
  The red-black tree meets the contract of a sorted tree, and what its operations do for a
  comparison function that orders the nodes by a key.
\<close>

section \<open>The contract\<close>

text \<open>The tree is well formed, satisfies the red-black invariant, and has the nodes \<open>xs\<close> in order.\<close>

definition rb_holds :: "rb_tree_nocmp \<Rightarrow> ptr list \<Rightarrow> bool" where
  "rb_holds t xs \<longleftrightarrow> (\<exists>s. tree_rep t s \<and> rbt_inv s \<and> addrs s = xs)"

lemma yields_holds: "yields res xs \<longleftrightarrow> (\<exists>t'. res = Some t' \<and> rb_holds t' xs)"
  by (auto simp: yields_def rb_holds_def)

lemma rb_holds_init [simp]: "rb_holds (rb_tree_nocmp_init t) []"
  by (auto simp: rb_holds_def rb_tree_nocmp_init_def tree_rep_def at_def rbt_inv_def intro!: exI [of _ E])

lemma rb_holds_checks:
  assumes "rb_holds t xs"
  shows "rb_tree_nocmp_valid t = Some True" "rb_tree_nocmp_ptrs_valid t = Some True"
    "rb_tree_nocmp_rightmost t = Some (if xs = [] then 0 else last xs)"
  using assms rb_tree_checks rb_tree_ends(2) by (auto simp: rb_holds_def)

interpretation rb: sorted_tree rb_holds rb_tree_insert rb_tree_nocmp_delete rb_tree_nocmp_leftmost
proof
  fix t :: rb_tree_nocmp and xs x and cmp :: "ptr \<Rightarrow> ptr \<Rightarrow> int"
  assume h: "rb_holds t xs"
  then obtain s where s: "tree_rep t s" "rbt_inv s" "addrs s = xs" by (auto simp: rb_holds_def)
  show "\<exists>t'. rb_tree_insert cmp t x = Some t' \<and> rb_holds t' (inserted (\<lambda>y. cmp x y < 0) x xs)"
    if "x \<noteq> 0" "x \<notin> set xs" "cmp_sorted (cmp x) xs"
    using rb_tree_insert_yields [OF s(1,2) that(1), of cmp] cmp_sorted_less [OF that(3)] that(2) s(3) by (simp add: yields_holds)
  show "\<exists>t'. rb_tree_nocmp_delete t x = Some t' \<and> rb_holds t' (remove1 x xs)" if "x \<in> set xs"
    using rb_tree_delete_yields [OF s(1,2)] that s(3) by (simp add: yields_holds)
  show "rb_tree_nocmp_leftmost t = Some (if xs = [] then 0 else hd xs)"
    using rb_tree_ends(1) [OF s(1)] s(3) by simp
  show "distinct xs" "0 \<notin> set xs" using tree_rep_root(3,4) [OF s(1)] s(3) by auto
qed

text \<open>A key order for the comparison function gives the keyed tree.\<close>

lemma rb_keyed: "key_order cmp key \<Longrightarrow> keyed_tree rb_holds rb_tree_insert rb_tree_nocmp_delete rb_tree_nocmp_leftmost cmp key"
  by (intro keyed_tree.intro rb.sorted_tree_axioms)

section \<open>Search and conditional insertion\<close>

lemma rb_find_key:
  assumes "key_order cmp key" "rb_holds t xs" "sorted (map key xs)"
  shows "\<exists>y. rb_tree_nocmp_find cmp t x = Some y \<and>
           (if y = 0 then \<forall>z\<in>set xs. key z \<noteq> key x else y \<in> set xs \<and> key y = key x)"
proof -
  obtain s where s: "tree_rep t s" "addrs s = xs" using assms(2) by (auto simp: rb_holds_def)
  have so: "cmp_sorted (cmp x) (addrs s)" using key_order.sorted_keys [OF assms(1,3)] s(2) by simp
  show ?thesis
    using rb_tree_find_hits [OF s(1), of cmp x] hits_sorted [OF so tree_rep_root(3) [OF s(1)]] s(2)
      key_order.cmp_equal [OF assms(1)] by fastforce
qed

lemma rb_insert_nonexist_key:
  assumes "key_order cmp key" "rb_holds t xs" "sorted (map key xs)" "x \<noteq> 0" "x \<notin> set xs"
  shows "\<exists>t'. rb_tree_nocmp_insert_nonexist cmp t x = Some (t', \<forall>z\<in>set xs. key z \<noteq> key x) \<and>
           rb_holds t' (if \<forall>z\<in>set xs. key z \<noteq> key x then insert_key key x xs else xs)"
proof -
  obtain s where s: "tree_rep t s" "rbt_inv s" "addrs s = xs" using assms(2) by (auto simp: rb_holds_def)
  have so: "cmp_sorted (cmp x) (addrs s)" using key_order.sorted_keys [OF assms(1,3)] s(3) by simp
  have ex: "(\<exists>y\<in>set (addrs s). cmp x y = 0) \<longleftrightarrow> \<not> (\<forall>z\<in>set xs. key z \<noteq> key x)"
    using s(3) key_order.cmp_equal [OF assms(1)] by metis
  show ?thesis
    using insert_nonexist_result [OF s(1,2) assms(4), of cmp] so assms(5) s(2,3)
    unfolding ex by (auto simp: key_order.inserted_key [OF assms(1)] rb_holds_def yields_def split: if_splits)
qed

section \<open>Properties\<close>

text \<open>
  C36: Inserting a node into a well-formed red-black tree, with a comparison function that orders the
  nodes by a key, returns; the result is a red-black tree with the same nodes and the new one, which
  stands after the nodes with the same key, and it passes the checks of the library.
\<close>

theorem rb_tree_insert_correct:
  assumes "\<forall>a b. (cmp a b < 0 \<longleftrightarrow> key a < key b) \<and> (cmp a b > 0 \<longleftrightarrow> key b < (key a :: 'k::linorder))"
    and "rb_holds t xs" "sorted (map key xs)" "x \<noteq> 0" "x \<notin> set xs"
  shows "\<exists>t'. rb_tree_insert cmp t x = Some t' \<and> rb_holds t' (insert_key key x xs) \<and>
           sorted (map key (insert_key key x xs)) \<and>
           rb_tree_nocmp_valid t' = Some True \<and> rb_tree_nocmp_ptrs_valid t' = Some True"
proof -
  have "key_order cmp key" using assms(1) by unfold_locales blast+
  from keyed_tree.ins_keyed [OF rb_keyed [OF this] assms(2-5)] show ?thesis using rb_holds_checks by blast
qed

text \<open>Two nodes at the addresses 10 and 20, of which the first is the black root.\<close>

definition two_nodes :: rb_tree_nocmp where
  "two_nodes = \<lparr>nodes = (\<lambda>_. \<lparr>tag = False, left = 0, right = 0, parent = 10\<rparr>)
     (10 := \<lparr>tag = True, left = 0, right = 20, parent = 0\<rparr>), root = 10\<rparr>"

lemma two_nodes_holds: "rb_holds two_nodes [10, 20]"
  unfolding rb_holds_def
  by (intro exI [of _ "N E True 10 (N E False 20 E)"])
    (simp add: two_nodes_def tree_rep_def at_def node_is_def rbt_inv_def)

theorem rb_tree_insert_correct_witness:
  "\<exists>t'. rb_tree_insert (\<lambda>a b. int a - int b) two_nodes 15 = Some t' \<and> rb_holds t' [10, 15, 20] \<and>
     rb_tree_nocmp_valid t' = Some True"
  using rb_tree_insert_correct [where cmp = "\<lambda>a b. int a - int b" and key = "\<lambda>a. a" and x = 15, OF _ two_nodes_holds]
  by (auto simp: insert_key_def)

text \<open>
  C37: Deleting a node of a red-black tree returns a red-black tree with the other nodes in the same
  order; no comparison is made, so this holds even if the keys of the nodes have changed.
\<close>

theorem rb_tree_delete_correct:
  assumes "rb_holds t xs" "x \<in> set xs"
  shows "\<exists>t'. rb_tree_nocmp_delete t x = Some t' \<and> rb_holds t' (remove1 x xs) \<and> x \<notin> set (remove1 x xs) \<and>
           rb_tree_nocmp_valid t' = Some True \<and> rb_tree_nocmp_ptrs_valid t' = Some True"
  using rb.del_holds [OF assms] rb_holds_checks rb.holds_distinct [OF assms(1)] by fastforce

theorem rb_tree_delete_correct_witness:
  "\<exists>t'. rb_tree_nocmp_delete two_nodes 10 = Some t' \<and> rb_holds t' [20] \<and> rb_tree_nocmp_valid t' = Some True"
  using rb_tree_delete_correct [OF two_nodes_holds, of 10] by auto

text \<open>
  C38: The search finds a node with the key that is sought exactly if there is one, and the
  conditional insertion reports an existing key and leaves a red-black tree with the same nodes in the
  same order, or inserts the node.
\<close>

theorem rb_tree_find_insert_nonexist:
  assumes "\<forall>a b. (cmp a b < 0 \<longleftrightarrow> key a < key b) \<and> (cmp a b > 0 \<longleftrightarrow> key b < (key a :: 'k::linorder))"
    and "rb_holds t xs" "sorted (map key xs)" "x \<noteq> 0" "x \<notin> set xs"
  shows "(\<exists>y. rb_tree_nocmp_find cmp t x = Some y \<and>
            (if y = 0 then \<forall>z\<in>set xs. key z \<noteq> key x else y \<in> set xs \<and> key y = key x)) \<and>
         (\<exists>t'. rb_tree_nocmp_insert_nonexist cmp t x = Some (t', \<forall>z\<in>set xs. key z \<noteq> key x) \<and>
            rb_holds t' (if \<forall>z\<in>set xs. key z \<noteq> key x then insert_key key x xs else xs))"
proof -
  have "key_order cmp key" using assms(1) by unfold_locales blast+
  from rb_find_key [OF this assms(2,3)] rb_insert_nonexist_key [OF this assms(2-5)] show ?thesis by blast
qed

theorem rb_tree_find_insert_nonexist_witness:
  "rb_tree_nocmp_find (\<lambda>a b. int (a mod 8) - int (b mod 8)) two_nodes 4 = Some 20 \<and>
   (\<exists>t'. rb_tree_nocmp_insert_nonexist (\<lambda>a b. int (a mod 8) - int (b mod 8)) two_nodes 4 = Some (t', False) \<and>
      rb_holds t' [10, 20])"
  using rb_tree_find_insert_nonexist [where cmp = "\<lambda>a b. int (a mod 8) - int (b mod 8)" and key = "\<lambda>a. a mod 8" and x = 4,
      OF _ two_nodes_holds]
  by (auto split: if_splits)

end
