(* ===== verification/AvlTree.thy ===== *)
theory AvlTree
  imports TreeStore
begin

text \<open>
  The AVL tree of \<^verbatim>\<open>src/avltree\<close>.  The tag of a node is its balance, the height of the right
  subtree minus the height of the left one; it stays between -1 and 1, so an unbounded integer stands
  for the C \<^verbatim>\<open>int\<close>.
\<close>

type_synonym avl_tree = "int tree_store"

section \<open>Queries\<close>

definition avl_tree_init :: "avl_tree \<Rightarrow> avl_tree" where
  "avl_tree_init t = t\<lparr>root := 0\<rparr>"

partial_function (option) avl_subtree_height :: "avl_tree \<Rightarrow> ptr \<Rightarrow> int option" where
  "avl_subtree_height t node =
     do { l \<leftarrow> get_left t node;
          resultl \<leftarrow> (if l \<noteq> 0
                      then do { p \<leftarrow> get_parent t l;
                                if p \<noteq> node then Some (- 1) else avl_subtree_height t l }
                      else Some 0);
          if resultl < 0 then Some (- 1)
          else do { r \<leftarrow> get_right t node;
                    resultr \<leftarrow> (if r \<noteq> 0
                                then do { p \<leftarrow> get_parent t r;
                                          if p \<noteq> node then Some (- 1) else avl_subtree_height t r }
                                else Some 0);
                    if resultr < 0 then Some (- 1)
                    else do { b \<leftarrow> get_tag t node;
                              if b < - 1 \<or> b > 1 then Some (- 1)
                              else if resultl < resultr - 1 \<or> resultl - 1 > resultr then Some (- 1)
                              else if resultr - resultl \<noteq> b then Some (- 1)
                              else Some (if resultr > resultl then 1 + resultr else 1 + resultl) } } }"

definition avl_tree_ptrs_valid :: "avl_tree \<Rightarrow> bool option" where
  "avl_tree_ptrs_valid t =
     (if root t = 0 then Some True
      else do { p \<leftarrow> get_parent t (root t);
                if p \<noteq> 0 then Some False else subtree_ptrs_valid t (root t) })"

definition avl_tree_valid :: "avl_tree \<Rightarrow> bool option" where
  "avl_tree_valid t =
     (if root t = 0 then Some True
      else do { p \<leftarrow> get_parent t (root t);
                if p \<noteq> 0 then Some False
                else do { h \<leftarrow> avl_subtree_height t (root t); Some (\<not> h < 0) } })"

definition avl_tree_leftmost :: "avl_tree \<Rightarrow> ptr option" where
  "avl_tree_leftmost t = (if root t = 0 then Some 0 else leftmost_from t (root t))"

definition avl_tree_rightmost :: "avl_tree \<Rightarrow> ptr option" where
  "avl_tree_rightmost t = (if root t = 0 then Some 0 else rightmost_from t (root t))"

section \<open>Rotations\<close>

text \<open>A rotation returns the new root of the subtree, which the caller puts below its parent.\<close>

definition avl_rotate_left :: "avl_tree \<Rightarrow> ptr \<Rightarrow> ptr \<Rightarrow> (avl_tree \<times> ptr) option" where
  "avl_rotate_left t x z =
     do { t23 \<leftarrow> get_left t z;
          t \<leftarrow> set_right t x t23;
          t \<leftarrow> set_parent_if t t23 x;
          t \<leftarrow> set_left t z x;
          t \<leftarrow> set_parent t x z;
          b \<leftarrow> get_tag t z;
          if b = 0
          then do { t \<leftarrow> set_tag t x 1; t \<leftarrow> set_tag t z (- 1); Some (t, z) }
          else do { t \<leftarrow> set_tag t x 0; t \<leftarrow> set_tag t z 0; Some (t, z) } }"

definition avl_rotate_right :: "avl_tree \<Rightarrow> ptr \<Rightarrow> ptr \<Rightarrow> (avl_tree \<times> ptr) option" where
  "avl_rotate_right t x z =
     do { t23 \<leftarrow> get_right t z;
          t \<leftarrow> set_left t x t23;
          t \<leftarrow> set_parent_if t t23 x;
          t \<leftarrow> set_right t z x;
          t \<leftarrow> set_parent t x z;
          b \<leftarrow> get_tag t z;
          if b = 0
          then do { t \<leftarrow> set_tag t x (- 1); t \<leftarrow> set_tag t z 1; Some (t, z) }
          else do { t \<leftarrow> set_tag t x 0; t \<leftarrow> set_tag t z 0; Some (t, z) } }"

definition avl_rotate_rightleft :: "avl_tree \<Rightarrow> ptr \<Rightarrow> ptr \<Rightarrow> (avl_tree \<times> ptr) option" where
  "avl_rotate_rightleft t x z =
     do { y \<leftarrow> get_left t z;
          t3 \<leftarrow> get_right t y;
          t \<leftarrow> set_left t z t3;
          t \<leftarrow> set_parent_if t t3 z;
          t \<leftarrow> set_right t y z;
          t \<leftarrow> set_parent t z y;
          t2 \<leftarrow> get_left t y;
          t \<leftarrow> set_right t x t2;
          t \<leftarrow> set_parent_if t t2 x;
          t \<leftarrow> set_left t y x;
          t \<leftarrow> set_parent t x y;
          b \<leftarrow> get_tag t y;
          t \<leftarrow> (if b > 0 then do { t \<leftarrow> set_tag t x (- 1); set_tag t z 0 }
                else if b = 0 then do { t \<leftarrow> set_tag t x 0; set_tag t z 0 }
                else do { t \<leftarrow> set_tag t x 0; set_tag t z 1 });
          t \<leftarrow> set_tag t y 0;
          Some (t, y) }"

definition avl_rotate_leftright :: "avl_tree \<Rightarrow> ptr \<Rightarrow> ptr \<Rightarrow> (avl_tree \<times> ptr) option" where
  "avl_rotate_leftright t x z =
     do { y \<leftarrow> get_right t z;
          t3 \<leftarrow> get_left t y;
          t \<leftarrow> set_right t z t3;
          t \<leftarrow> set_parent_if t t3 z;
          t \<leftarrow> set_left t y z;
          t \<leftarrow> set_parent t z y;
          t2 \<leftarrow> get_right t y;
          t \<leftarrow> set_left t x t2;
          t \<leftarrow> set_parent_if t t2 x;
          t \<leftarrow> set_right t y x;
          t \<leftarrow> set_parent t x y;
          b \<leftarrow> get_tag t y;
          t \<leftarrow> (if b < 0 then do { t \<leftarrow> set_tag t x 1; set_tag t z 0 }
                else if b = 0 then do { t \<leftarrow> set_tag t x 0; set_tag t z 0 }
                else do { t \<leftarrow> set_tag t x 0; set_tag t z (- 1) });
          t \<leftarrow> set_tag t y 0;
          Some (t, y) }"

text \<open>The statements after a rotation: \<open>n\<close> takes the place of \<open>x\<close> below \<open>g\<close>.\<close>

definition avl_attach :: "avl_tree \<Rightarrow> ptr \<Rightarrow> ptr \<Rightarrow> ptr \<Rightarrow> avl_tree option" where
  "avl_attach t g x n =
     do { t \<leftarrow> set_parent t n g;
          if g \<noteq> 0
          then do { l \<leftarrow> get_left t g; if x = l then set_left t g n else set_right t g n }
          else Some (t\<lparr>root := n\<rparr>) }"

section \<open>Insertion\<close>

partial_function (option) avl_tree_insert_repair :: "avl_tree \<Rightarrow> ptr \<Rightarrow> avl_tree option" where
  "avl_tree_insert_repair t z =
     do { x \<leftarrow> get_parent t z;
          if x = 0 then Some t
          else do { m \<leftarrow> node_of t x;
                    if z = right m
                    then (if tag m > 0
                          then do { b \<leftarrow> get_tag t z;
                                    (t, n) \<leftarrow> (if b < 0 then avl_rotate_rightleft t x z else avl_rotate_left t x z);
                                    avl_attach t (parent m) x n }
                          else if tag m < 0 then set_tag t x 0
                          else do { t \<leftarrow> set_tag t x 1; avl_tree_insert_repair t x })
                    else (if tag m < 0
                          then do { b \<leftarrow> get_tag t z;
                                    (t, n) \<leftarrow> (if b > 0 then avl_rotate_leftright t x z else avl_rotate_right t x z);
                                    avl_attach t (parent m) x n }
                          else if tag m > 0 then set_tag t x 0
                          else do { t \<leftarrow> set_tag t x (- 1); avl_tree_insert_repair t x }) } }"

definition avl_tree_insert :: "(ptr \<Rightarrow> ptr \<Rightarrow> int) \<Rightarrow> avl_tree \<Rightarrow> ptr \<Rightarrow> avl_tree option" where
  "avl_tree_insert cmp t node =
     do { t \<leftarrow> fresh_node t 0 node;
          if root t = 0 then set_parent (t\<lparr>root := node\<rparr>) node 0
          else insert_from avl_tree_insert_repair cmp t node (root t) }"

section \<open>Deletion\<close>

text \<open>The exchange is, balance for colour, the code of the red-black tree.\<close>

definition avl_tree_exchange :: "avl_tree \<Rightarrow> ptr \<Rightarrow> ptr \<Rightarrow> avl_tree option" where
  "avl_tree_exchange t n1 n2 = tree_exchange t n1 n2"

text \<open>The loop, at the node \<open>n\<close> below \<open>x\<close>.\<close>

partial_function (option) avl_delete_repair_from :: "avl_tree \<Rightarrow> ptr \<Rightarrow> ptr \<Rightarrow> avl_tree option" where
  "avl_delete_repair_from t n x =
     (if x = 0 then Some t
      else do { m \<leftarrow> node_of t x;
                if n = left m
                then (if tag m > 0
                      then do { b \<leftarrow> get_tag t (right m);
                                (t, n) \<leftarrow> (if b < 0 then avl_rotate_rightleft t x (right m) else avl_rotate_left t x (right m));
                                t \<leftarrow> avl_attach t (parent m) x n;
                                if parent m \<noteq> 0 \<and> b = 0 then Some t else avl_delete_repair_from t n (parent m) }
                      else if tag m = 0 then set_tag t x 1
                      else do { t \<leftarrow> set_tag t x 0; avl_delete_repair_from t x (parent m) })
                else (if tag m < 0
                      then do { b \<leftarrow> get_tag t (left m);
                                (t, n) \<leftarrow> (if b > 0 then avl_rotate_leftright t x (left m) else avl_rotate_right t x (left m));
                                t \<leftarrow> avl_attach t (parent m) x n;
                                if parent m \<noteq> 0 \<and> b = 0 then Some t else avl_delete_repair_from t n (parent m) }
                      else if tag m = 0 then set_tag t x (- 1)
                      else do { t \<leftarrow> set_tag t x 0; avl_delete_repair_from t x (parent m) }) })"

definition avl_tree_delete_repair :: "avl_tree \<Rightarrow> ptr \<Rightarrow> avl_tree option" where
  "avl_tree_delete_repair t n = do { x \<leftarrow> get_parent t n; avl_delete_repair_from t n x }"

definition avl_tree_delete_one_child :: "avl_tree \<Rightarrow> ptr \<Rightarrow> avl_tree option" where
  "avl_tree_delete_one_child t node =
     do { t \<leftarrow> avl_tree_delete_repair t node;
          m \<leftarrow> node_of t node;
          put_child t (parent m) node (if right m = 0 then left m else right m) }"

definition avl_tree_delete :: "avl_tree \<Rightarrow> ptr \<Rightarrow> avl_tree option" where
  "avl_tree_delete t node =
     do { m \<leftarrow> node_of t node;
          if left m \<noteq> 0 \<and> right m \<noteq> 0
          then do { node2 \<leftarrow> leftmost_from t (right m);
                    t \<leftarrow> avl_tree_exchange t node node2;
                    avl_tree_delete_one_child t node }
          else avl_tree_delete_one_child t node }"

end
