(* ===== verification/AvlRep.thy ===== *)
theory AvlRep
  imports AvlTree TreeSwap TreeOrder
begin

text \<open>
  The rotations of the AVL tree.  A rotation leaves the new subtree floating: its root is not yet
  linked to the parent, which still points to the old root.
\<close>

section \<open>Attaching a subtree\<close>

definition floating :: "avl_tree \<Rightarrow> int ptree \<Rightarrow> ptr \<Rightarrow> int crumb list \<Rightarrow> bool" where
  "floating t s x C \<longleftrightarrow>
     (\<exists>pp. subt (nodes t) pp s) \<and> path (nodes t) (root t) x C \<and> distinct (addrs s @ path_addrs C) \<and>
     x \<in> set (addrs s) \<and> s \<noteq> E"

lemma attach_at:
  assumes "floating t s x C"
  shows "\<exists>t'. avl_attach t (par_of C) x (addr_of s) = Some t' \<and> at t' s C"
proof -
  let ?h = "nodes t" and ?n = "addr_of s"
  obtain pp where st: "subt ?h pp s" and pa: "path ?h (root t) x C" and di: "distinct (addrs s @ path_addrs C)"
    and x: "x \<in> set (addrs s)" and ne: "s \<noteq> E"
    using assms by (auto simp: floating_def)
  have n: "?n \<noteq> 0" "?n \<in> set (addrs s)" using st ne by (cases s; auto)+
  define rt where "rt = (if C = [] then ?n else root t)"
  define h where "h = ?h(?n := (?h ?n)\<lparr>parent := par_of C\<rparr>)"
  define h' where "h' = (case C of [] \<Rightarrow> h
     | InL _ p _ # _ \<Rightarrow> h(p := (?h p)\<lparr>left := ?n\<rparr>)
     | InR _ _ p # _ \<Rightarrow> h(p := (?h p)\<lparr>right := ?n\<rparr>))"
  have "avl_attach t (par_of C) x ?n = Some (t\<lparr>nodes := h', root := rt\<rparr>)"
  proof (cases C)
    case Nil
    then show ?thesis using n by (simp add: avl_attach_def h'_def h_def rt_def)
  next
    case (Cons c C')
    show ?thesis
    proof (cases c)
      case (InL b p u)
      then show ?thesis using n pa di Cons by (auto simp: avl_attach_def h'_def h_def rt_def node_is_def)
    next
      case (InR u b p)
      have "x \<noteq> addr_of u" using x di pa Cons InR addr_of_in [of u] st subt_nonzero by fastforce
      then show ?thesis using n pa di Cons InR by (auto simp: avl_attach_def h'_def h_def rt_def node_is_def)
    qed
  qed
  moreover have "path h' rt ?n C"
    by (rule path_moved [OF pa]) (use di n in \<open>auto simp: h'_def h_def rt_def split: list.splits crumb.splits\<close>)
  moreover have h's: "h' z = h z" if "z \<in> set (addrs s)" for z
    using that di by (auto simp: h'_def split: list.splits crumb.splits)
  have "subt h' (par_of C) s"
    by (rule subt_moved [OF st]) (use di h's n in \<open>auto simp: h_def\<close>)
  ultimately show ?thesis using di by (auto simp: at_def)
qed

section \<open>Rotations\<close>

lemma subt_kept: "subt h0 p s \<Longrightarrow> (\<And>w. w \<notin> X \<Longrightarrow> h w = h0 w) \<Longrightarrow> set (addrs s) \<inter> X = {} \<Longrightarrow> subt h p s"
  by (erule subt_cong) blast

lemma path_kept: "path h0 rt p C \<Longrightarrow> (\<And>w. w \<notin> X \<Longrightarrow> h w = h0 w) \<Longrightarrow> set (path_addrs C) \<inter> X = {} \<Longrightarrow> path h rt p C"
  by (erule path_cong) blast

lemma subt_reparented:
  assumes "subt h0 p s" "distinct (addrs s)" "\<And>w. w \<notin> X \<Longrightarrow> h w = h0 w" "set (addrs s) \<inter> X \<subseteq> {addr_of s}"
    and "addr_of s \<noteq> 0 \<Longrightarrow> h (addr_of s) = (h0 (addr_of s))\<lparr>parent := p'\<rparr>"
  shows "subt h p' s"
  by (rule subt_moved [OF assms(1,2)]) (use assms(3-5) in auto)

lemma addr_of_outside: "set ws \<inter> set (addrs b) = {} \<Longrightarrow> 0 \<notin> set ws \<Longrightarrow> addr_of b \<notin> set ws"
  by (cases b) auto

lemma rotate_left_floats:
  assumes "at t (N a bx x (N b bz z c)) C"
  shows "\<exists>t'. avl_rotate_left t x z = Some (t', z) \<and>
    floating t' (N (N a (if bz = 0 then 1 else 0) x b) (if bz = 0 then - 1 else 0) z c) x C"
proof -
  let ?h = "nodes t" and ?X = "{x, z, addr_of b}"
  have ad: "x \<noteq> 0" "z \<noteq> 0" "node_is (?h x) bx (addr_of a) z (par_of C)" "node_is (?h z) bz (addr_of b) (addr_of c) x"
    "subt ?h x a" "subt ?h z b" "subt ?h z c" "path ?h (root t) x C"
    and di: "distinct (addrs a @ x # addrs b @ z # addrs c @ path_addrs C)"
    using assms by (auto simp: at_def)
  have ne: "addr_of b \<noteq> x" "addr_of b \<noteq> z" "x \<noteq> z" using di ad(1,2) addr_of_neq [of x b] addr_of_neq [of z b] by auto
  have out: "set (addrs a) \<inter> ?X = {}" "set (addrs c) \<inter> ?X = {}" "set (path_addrs C) \<inter> ?X = {}" "set (addrs b) \<inter> ?X \<subseteq> {addr_of b}"
    using di addr_of_outside [of "addrs a" b] addr_of_outside [of "addrs c" b] addr_of_outside [of "path_addrs C" b]
      ad(5-7)[THEN subt_nonzero] path_nonzero [OF ad(8)] by auto
  define h where "h = (reparent (?h(x := (?h x)\<lparr>right := addr_of b\<rparr>)) (addr_of b) x)
    (x := (?h x)\<lparr>right := addr_of b, parent := z, tag := if bz = 0 then 1 else 0\<rparr>,
     z := (?h z)\<lparr>left := x, tag := if bz = 0 then - 1 else 0\<rparr>)"
  have "avl_rotate_left t x z = Some (t\<lparr>nodes := h\<rparr>, z)"
    using ad(1-4) ne by (auto simp: avl_rotate_left_def node_is_def h_def fun_upd_twist)
  moreover have h: "h w = ?h w" if "w \<notin> ?X" for w using that by (simp add: h_def)
  have hb: "addr_of b \<noteq> 0 \<Longrightarrow> h (addr_of b) = (?h (addr_of b))\<lparr>parent := x\<rparr>" using ne by (simp add: h_def)
  have "subt h x a" "subt h z c" "path h (root t) x C" "subt h x b"
    using subt_kept [OF ad(5) h out(1)] subt_kept [OF ad(7) h out(2)] path_kept [OF ad(8) h out(3)]
      subt_reparented [OF ad(6) _ h out(4) hb] di by simp_all
  moreover have "node_is (h x) (if bz = 0 then 1 else 0) (addr_of a) (addr_of b) z"
    "node_is (h z) (if bz = 0 then - 1 else 0) x (addr_of c) (parent (h z))"
    using ad(3,4) ne by (auto simp: h_def node_is_def)
  ultimately show ?thesis using ad(1,2) di by (auto simp: floating_def intro!: exI [of _ "parent (h z)"])
qed

lemma rotate_right_floats:
  assumes "at t (N (N c bz z b) bx x a) C"
  shows "\<exists>t'. avl_rotate_right t x z = Some (t', z) \<and>
    floating t' (N c (if bz = 0 then 1 else 0) z (N b (if bz = 0 then - 1 else 0) x a)) x C"
proof -
  let ?h = "nodes t" and ?X = "{x, z, addr_of b}"
  have ad: "x \<noteq> 0" "z \<noteq> 0" "node_is (?h x) bx z (addr_of a) (par_of C)" "node_is (?h z) bz (addr_of c) (addr_of b) x"
    "subt ?h x a" "subt ?h z b" "subt ?h z c" "path ?h (root t) x C"
    and di: "distinct (addrs c @ z # addrs b @ x # addrs a @ path_addrs C)"
    using assms by (auto simp: at_def)
  have ne: "addr_of b \<noteq> x" "addr_of b \<noteq> z" "x \<noteq> z" using di ad(1,2) addr_of_neq [of x b] addr_of_neq [of z b] by auto
  have out: "set (addrs a) \<inter> ?X = {}" "set (addrs c) \<inter> ?X = {}" "set (path_addrs C) \<inter> ?X = {}" "set (addrs b) \<inter> ?X \<subseteq> {addr_of b}"
    using di addr_of_outside [of "addrs a" b] addr_of_outside [of "addrs c" b] addr_of_outside [of "path_addrs C" b]
      ad(5-7)[THEN subt_nonzero] path_nonzero [OF ad(8)] by auto
  define h where "h = (reparent (?h(x := (?h x)\<lparr>left := addr_of b\<rparr>)) (addr_of b) x)
    (x := (?h x)\<lparr>left := addr_of b, parent := z, tag := if bz = 0 then - 1 else 0\<rparr>,
     z := (?h z)\<lparr>right := x, tag := if bz = 0 then 1 else 0\<rparr>)"
  have "avl_rotate_right t x z = Some (t\<lparr>nodes := h\<rparr>, z)"
    using ad(1-4) ne by (auto simp: avl_rotate_right_def node_is_def h_def fun_upd_twist)
  moreover have h: "h w = ?h w" if "w \<notin> ?X" for w using that by (simp add: h_def)
  have hb: "addr_of b \<noteq> 0 \<Longrightarrow> h (addr_of b) = (?h (addr_of b))\<lparr>parent := x\<rparr>" using ne by (simp add: h_def)
  have "subt h x a" "subt h z c" "path h (root t) x C" "subt h x b"
    using subt_kept [OF ad(5) h out(1)] subt_kept [OF ad(7) h out(2)] path_kept [OF ad(8) h out(3)]
      subt_reparented [OF ad(6) _ h out(4) hb] di by simp_all
  moreover have "node_is (h x) (if bz = 0 then - 1 else 0) (addr_of b) (addr_of a) z"
    "node_is (h z) (if bz = 0 then 1 else 0) (addr_of c) x (parent (h z))"
    using ad(3,4) ne by (auto simp: h_def node_is_def)
  ultimately show ?thesis using ad(1,2) di by (auto simp: floating_def intro!: exI [of _ "parent (h z)"])
qed

text \<open>The double rotations: three nodes and four subtrees, of which two get another parent.\<close>

lemma four_subtrees_apart:
  assumes "distinct (addrs a @ x # addrs b @ y # addrs c @ z # addrs d @ path_addrs C)" "x \<noteq> 0" "y \<noteq> 0" "z \<noteq> 0"
    and "0 \<notin> set (addrs a)" "0 \<notin> set (addrs b)" "0 \<notin> set (addrs c)" "0 \<notin> set (addrs d)" "0 \<notin> set (path_addrs C)"
  shows "set (addrs a) \<inter> {x, y, z, addr_of b, addr_of c} = {}" "set (addrs d) \<inter> {x, y, z, addr_of b, addr_of c} = {}"
    "set (path_addrs C) \<inter> {x, y, z, addr_of b, addr_of c} = {}" "set (addrs b) \<inter> {x, y, z, addr_of b, addr_of c} \<subseteq> {addr_of b}"
    "set (addrs c) \<inter> {x, y, z, addr_of b, addr_of c} \<subseteq> {addr_of c}"
    "addr_of b \<notin> {x, y, z}" "addr_of c \<notin> {x, y, z}" "addr_of b \<noteq> 0 \<Longrightarrow> addr_of b \<noteq> addr_of c" "x \<noteq> y" "y \<noteq> z" "x \<noteq> z"
proof -
  have d: "set (addrs a) \<inter> set (addrs b) = {}" "set (addrs a) \<inter> set (addrs c) = {}" "set (addrs d) \<inter> set (addrs b) = {}"
    "set (addrs d) \<inter> set (addrs c) = {}" "set (path_addrs C) \<inter> set (addrs b) = {}" "set (path_addrs C) \<inter> set (addrs c) = {}"
    "set (addrs b) \<inter> set (addrs c) = {}" "set (addrs c) \<inter> set (addrs b) = {}"
    using assms(1) by auto
  note o = d(1-6)[THEN addr_of_outside] d(7,8)[THEN addr_of_outside]
  show "set (addrs a) \<inter> {x, y, z, addr_of b, addr_of c} = {}" "set (addrs d) \<inter> {x, y, z, addr_of b, addr_of c} = {}"
    "set (path_addrs C) \<inter> {x, y, z, addr_of b, addr_of c} = {}" "set (addrs b) \<inter> {x, y, z, addr_of b, addr_of c} \<subseteq> {addr_of b}"
    "set (addrs c) \<inter> {x, y, z, addr_of b, addr_of c} \<subseteq> {addr_of c}"
    using assms o by (simp_all) blast+
  show "addr_of b \<notin> {x, y, z}" "addr_of c \<notin> {x, y, z}" "addr_of b \<noteq> 0 \<Longrightarrow> addr_of b \<noteq> addr_of c" "x \<noteq> y" "y \<noteq> z" "x \<noteq> z"
    using assms(1-4) addr_of_neq [of x b] addr_of_neq [of y b] addr_of_neq [of z b] addr_of_neq [of x c] addr_of_neq [of y c] addr_of_neq [of z c]
      addr_of_disjoint [OF d(7)] by auto
qed

lemma rotate_rightleft_floats:
  assumes "at t (N a bx x (N (N b by' y c) bz z d)) C"
  shows "\<exists>t'. avl_rotate_rightleft t x z = Some (t', y) \<and>
    floating t' (N (N a (if by' > 0 then - 1 else 0) x b) 0 y (N c (if by' < 0 then 1 else 0) z d)) x C"
proof -
  let ?h = "nodes t" and ?X = "{x, y, z, addr_of b, addr_of c}"
  have ad: "x \<noteq> 0" "y \<noteq> 0" "z \<noteq> 0" "node_is (?h x) bx (addr_of a) z (par_of C)" "node_is (?h z) bz y (addr_of d) x"
    "node_is (?h y) by' (addr_of b) (addr_of c) z" "subt ?h x a" "subt ?h y b" "subt ?h y c" "subt ?h z d" "path ?h (root t) x C"
    and di: "distinct (addrs a @ x # addrs b @ y # addrs c @ z # addrs d @ path_addrs C)"
    using assms by (auto simp: at_def)
  note ap = four_subtrees_apart [OF di ad(1-3) subt_nonzero [OF ad(7)] subt_nonzero [OF ad(8)] subt_nonzero [OF ad(9)]
      subt_nonzero [OF ad(10)] path_nonzero [OF ad(11)]]
  have ne: "addr_of b \<noteq> x" "addr_of b \<noteq> y" "addr_of b \<noteq> z" "addr_of c \<noteq> x" "addr_of c \<noteq> y" "addr_of c \<noteq> z"
    using ap(6,7) by auto
  note ns = ad(1-3) ne ne [symmetric] ap(9-11) ap(9-11) [symmetric]
  have nd: "right (?h x) = z" "left (?h z) = y" "left (?h y) = addr_of b" "right (?h y) = addr_of c" "tag (?h y) = by'"
    using ad(4-6) by (auto simp: node_is_def)
  define h where "h = (reparent ((reparent (?h(z := (?h z)\<lparr>left := addr_of c\<rparr>)) (addr_of c) z)
      (y := (?h y)\<lparr>right := z\<rparr>, z := (?h z)\<lparr>left := addr_of c, parent := y\<rparr>, x := (?h x)\<lparr>right := addr_of b\<rparr>)) (addr_of b) x)
    (x := (?h x)\<lparr>right := addr_of b, parent := y, tag := if by' > 0 then - 1 else 0\<rparr>,
     z := (?h z)\<lparr>left := addr_of c, parent := y, tag := if by' < 0 then 1 else 0\<rparr>,
     y := (?h y)\<lparr>right := z, left := x, tag := 0\<rparr>)"
  have "avl_rotate_rightleft t x z = Some (t\<lparr>nodes := h\<rparr>, y)"
    by (cases by' "0::int" rule: linorder_cases) (simp_all add: avl_rotate_rightleft_def nd ns h_def)
  moreover have h: "h w = ?h w" if "w \<notin> ?X" for w using that by (simp add: h_def)
  have hb: "addr_of b \<noteq> 0 \<Longrightarrow> h (addr_of b) = (?h (addr_of b))\<lparr>parent := x\<rparr>"
    "addr_of c \<noteq> 0 \<Longrightarrow> h (addr_of c) = (?h (addr_of c))\<lparr>parent := z\<rparr>"
    using ne ap(8) by (auto simp: h_def reparent_def)
  have "subt h x a" "subt h z d" "path h (root t) x C" "subt h x b" "subt h z c"
    using subt_kept [OF ad(7) h ap(1)] subt_kept [OF ad(10) h ap(2)] path_kept [OF ad(11) h ap(3)]
      subt_reparented [OF ad(8) _ h ap(4) hb(1)] subt_reparented [OF ad(9) _ h ap(5) hb(2)] di by simp_all
  moreover have "node_is (h x) (if by' > 0 then - 1 else 0) (addr_of a) (addr_of b) y"
    "node_is (h z) (if by' < 0 then 1 else 0) (addr_of c) (addr_of d) y" "node_is (h y) 0 x z (parent (h y))"
    using ad(4-6) ap(9-11) by (auto simp: h_def node_is_def)
  ultimately show ?thesis using ad(1-3) di by (auto simp: floating_def intro!: exI [of _ "parent (h y)"])
qed

lemma rotate_leftright_floats:
  assumes "at t (N (N d bz z (N c by' y b)) bx x a) C"
  shows "\<exists>t'. avl_rotate_leftright t x z = Some (t', y) \<and>
    floating t' (N (N d (if by' > 0 then - 1 else 0) z c) 0 y (N b (if by' < 0 then 1 else 0) x a)) x C"
proof -
  let ?h = "nodes t" and ?X = "{x, y, z, addr_of b, addr_of c}"
  have ad: "x \<noteq> 0" "y \<noteq> 0" "z \<noteq> 0" "node_is (?h x) bx z (addr_of a) (par_of C)" "node_is (?h z) bz (addr_of d) y x"
    "node_is (?h y) by' (addr_of c) (addr_of b) z" "subt ?h x a" "subt ?h y b" "subt ?h y c" "subt ?h z d" "path ?h (root t) x C"
    and "distinct (addrs d @ z # addrs c @ y # addrs b @ x # addrs a @ path_addrs C)"
    using assms by (auto simp: at_def)
  then have di: "distinct (addrs a @ x # addrs b @ y # addrs c @ z # addrs d @ path_addrs C)" by auto
  note ap = four_subtrees_apart [OF di ad(1-3) subt_nonzero [OF ad(7)] subt_nonzero [OF ad(8)] subt_nonzero [OF ad(9)]
      subt_nonzero [OF ad(10)] path_nonzero [OF ad(11)]]
  have ne: "addr_of b \<noteq> x" "addr_of b \<noteq> y" "addr_of b \<noteq> z" "addr_of c \<noteq> x" "addr_of c \<noteq> y" "addr_of c \<noteq> z"
    using ap(6,7) by auto
  note ns = ad(1-3) ne ne [symmetric] ap(9-11) ap(9-11) [symmetric]
  have nd: "left (?h x) = z" "right (?h z) = y" "right (?h y) = addr_of b" "left (?h y) = addr_of c" "tag (?h y) = by'"
    using ad(4-6) by (auto simp: node_is_def)
  define h where "h = (reparent ((reparent (?h(z := (?h z)\<lparr>right := addr_of c\<rparr>)) (addr_of c) z)
      (y := (?h y)\<lparr>left := z\<rparr>, z := (?h z)\<lparr>right := addr_of c, parent := y\<rparr>, x := (?h x)\<lparr>left := addr_of b\<rparr>)) (addr_of b) x)
    (x := (?h x)\<lparr>left := addr_of b, parent := y, tag := if by' < 0 then 1 else 0\<rparr>,
     z := (?h z)\<lparr>right := addr_of c, parent := y, tag := if by' > 0 then - 1 else 0\<rparr>,
     y := (?h y)\<lparr>left := z, right := x, tag := 0\<rparr>)"
  have "avl_rotate_leftright t x z = Some (t\<lparr>nodes := h\<rparr>, y)"
    by (cases by' "0::int" rule: linorder_cases) (simp_all add: avl_rotate_leftright_def nd ns h_def)
  moreover have h: "h w = ?h w" if "w \<notin> ?X" for w using that by (simp add: h_def)
  have hb: "addr_of b \<noteq> 0 \<Longrightarrow> h (addr_of b) = (?h (addr_of b))\<lparr>parent := x\<rparr>"
    "addr_of c \<noteq> 0 \<Longrightarrow> h (addr_of c) = (?h (addr_of c))\<lparr>parent := z\<rparr>"
    using ne ap(8) by (auto simp: h_def reparent_def)
  have "subt h x a" "subt h z d" "path h (root t) x C" "subt h x b" "subt h z c"
    using subt_kept [OF ad(7) h ap(1)] subt_kept [OF ad(10) h ap(2)] path_kept [OF ad(11) h ap(3)]
      subt_reparented [OF ad(8) _ h ap(4) hb(1)] subt_reparented [OF ad(9) _ h ap(5) hb(2)] di by simp_all
  moreover have "node_is (h x) (if by' < 0 then 1 else 0) (addr_of b) (addr_of a) y"
    "node_is (h z) (if by' > 0 then - 1 else 0) (addr_of d) (addr_of c) y" "node_is (h y) 0 z x (parent (h y))"
    using ad(4-6) ap(9-11) by (auto simp: h_def node_is_def)
  ultimately show ?thesis using ad(1-3) di by (auto simp: floating_def intro!: exI [of _ "parent (h y)"])
qed

end
