(* ===== verification/AvlBal.thy ===== *)
theory AvlBal
  imports AvlRep
begin

text \<open>
  Insertion and deletion keep the AVL invariant: the stored balance of every node is the difference
  of the heights of its subtrees and at most 1 in size.
\<close>

section \<open>Balance\<close>

fun ht :: "'b ptree \<Rightarrow> nat" where
  "ht E = 0"
| "ht (N l b x r) = Suc (max (ht l) (ht r))"

fun avl_ok :: "int ptree \<Rightarrow> bool" where
  "avl_ok E = True"
| "avl_ok (N l b x r) = (b = int (ht r) - int (ht l) \<and> \<bar>b\<bar> \<le> 1 \<and> avl_ok l \<and> avl_ok r)"

text \<open>The sign of the balance when the side \<open>d\<close> is the lower one.\<close>

definition sg :: "bool \<Rightarrow> int" where
  "sg d = (if d then 1 else - 1)"

lemma sg_simps [simp]: "sg True = 1" "sg False = - 1" "sg (\<not> d) = - sg d" "sg d \<noteq> 0" "sg d * sg d = 1" "\<bar>sg d\<bar> = 1"
  by (simp_all add: sg_def)

text \<open>The path is balanced for a subtree of height \<open>h\<close> at its end.\<close>

fun apath :: "nat \<Rightarrow> int crumb list \<Rightarrow> bool" where
  "apath h [] = True"
| "apath h (InL b x u # C) = (b = int (ht u) - int h \<and> \<bar>b\<bar> \<le> 1 \<and> avl_ok u \<and> apath (Suc (max h (ht u))) C)"
| "apath h (InR u b x # C) = (b = int h - int (ht u) \<and> \<bar>b\<bar> \<le> 1 \<and> avl_ok u \<and> apath (Suc (max h (ht u))) C)"

lemma apath_mk:
  "apath h (mk d b x u # C) \<longleftrightarrow> b = sg d * (int (ht u) - int h) \<and> \<bar>b\<bar> \<le> 1 \<and> avl_ok u \<and> apath (Suc (max h (ht u))) C"
  by (cases d) auto

lemma avl_mk: "avl_ok (plug1 (mk d b x u) s) \<longleftrightarrow> b = sg d * (int (ht u) - int (ht s)) \<and> \<bar>b\<bar> \<le> 1 \<and> avl_ok u \<and> avl_ok s"
  by (cases d) auto

lemma ht_mk: "ht (plug1 (mk d b x u) s) = Suc (max (ht s) (ht u))"
  by (cases d) auto

lemma avl_plug: "avl_ok (plug s C) \<longleftrightarrow> avl_ok s \<and> apath (ht s) C"
proof (induction C arbitrary: s)
  case (Cons c C)
  obtain d b x u where c: "c = mk d b x u" by (rule mk_ex)
  show ?case using Cons [of "plug1 c s"] unfolding c by (auto simp: apath_mk avl_mk ht_mk)
qed simp

section \<open>Rotations on a path\<close>

definition avl_rot :: "bool \<Rightarrow> avl_tree \<Rightarrow> ptr \<Rightarrow> ptr \<Rightarrow> (avl_tree \<times> ptr) option" where
  "avl_rot d t x z = (if d then avl_rotate_left t x z else avl_rotate_right t x z)"

definition avl_rot2 :: "bool \<Rightarrow> avl_tree \<Rightarrow> ptr \<Rightarrow> ptr \<Rightarrow> (avl_tree \<times> ptr) option" where
  "avl_rot2 d t x z = (if d then avl_rotate_rightleft t x z else avl_rotate_leftright t x z)"

lemma avl_rot_at:
  assumes "at t q (mk d bx x (plug1 (mk d bz z far) near) # C)"
  shows "\<exists>t1 t'. avl_rot d t x z = Some (t1, z) \<and> avl_attach t1 (par_of C) x z = Some t' \<and>
    at t' q (mk d (if bz = 0 then sg d else 0) x near # mk d (if bz = 0 then - sg d else 0) z far # C)"
proof (cases d)
  case True
  then have "at t (N q bx x (N near bz z far)) C" using assms by (simp add: at_up)
  from rotate_left_floats [OF this] obtain t1 where t1: "avl_rot d t x z = Some (t1, z)"
    "floating t1 (N (N q (if bz = 0 then 1 else 0) x near) (if bz = 0 then - 1 else 0) z far) x C"
    using True by (auto simp: avl_rot_def)
  show ?thesis using attach_at [OF t1(2)] t1(1) True by (auto simp: at_up split: if_splits)
next
  case False
  then have "at t (N (N far bz z near) bx x q) C" using assms by (simp add: at_up)
  from rotate_right_floats [OF this] obtain t1 where t1: "avl_rot d t x z = Some (t1, z)"
    "floating t1 (N far (if bz = 0 then 1 else 0) z (N near (if bz = 0 then - 1 else 0) x q)) x C"
    using False by (auto simp: avl_rot_def)
  show ?thesis using attach_at [OF t1(2)] t1(1) False by (auto simp: at_up split: if_splits)
qed

lemma avl_rot2_at:
  assumes "at t q (mk d bx x (plug1 (mk d bz z far) (plug1 (mk d b y p2) p1)) # C)"
  shows "\<exists>t1 t'. avl_rot2 d t x z = Some (t1, y) \<and> avl_attach t1 (par_of C) x y = Some t' \<and>
    at t' q (mk d (if sg d * b > 0 then - sg d else 0) x p1 # mk d 0 y (plug1 (mk d (if sg d * b < 0 then sg d else 0) z far) p2) # C)"
proof (cases d)
  case True
  then have "at t (N q bx x (N (N p1 b y p2) bz z far)) C" using assms by (simp add: at_up)
  from rotate_rightleft_floats [OF this] obtain t1 where t1: "avl_rot2 d t x z = Some (t1, y)"
    "floating t1 (N (N q (if b > 0 then - 1 else 0) x p1) 0 y (N p2 (if b < 0 then 1 else 0) z far)) x C"
    using True by (auto simp: avl_rot2_def)
  show ?thesis using attach_at [OF t1(2)] t1(1) True by (auto simp: at_up split: if_splits)
next
  case False
  then have "at t (N (N far bz z (N p2 b y p1)) bx x q) C" using assms by (simp add: at_up)
  from rotate_leftright_floats [OF this] obtain t1 where t1: "avl_rot2 d t x z = Some (t1, y)"
    "floating t1 (N (N far (if b > 0 then - 1 else 0) z p2) 0 y (N p1 (if b < 0 then 1 else 0) x q)) x C"
    using False by (auto simp: avl_rot2_def)
  show ?thesis using attach_at [OF t1(2)] t1(1) False by (auto simp: at_up split: if_splits)
qed

text \<open>The node above a position that is not empty.\<close>

lemma at_above:
  assumes "at t s (mk d b p u # C)" "s \<noteq> E"
  shows "p \<noteq> 0" "tag (nodes t p) = b" "parent (nodes t p) = par_of C" "addr_of s \<noteq> 0"
    "left (nodes t p) = (if d then addr_of s else addr_of u)" "right (nodes t p) = (if d then addr_of u else addr_of s)"
    "addr_of s \<noteq> addr_of u" "parent (nodes t (addr_of s)) = p" "addr_of u \<noteq> addr_of s"
proof -
  have n: "at t (plug1 (mk d b p u) s) C" using assms(1) by (simp add: at_up)
  show "p \<noteq> 0" "tag (nodes t p) = b" "parent (nodes t p) = par_of C"
    "left (nodes t p) = (if d then addr_of s else addr_of u)" "right (nodes t p) = (if d then addr_of u else addr_of s)"
    using at_node [of t s b p u C] at_node [of t u b p s C] n by (cases d; simp)+
  show nz: "addr_of s \<noteq> 0" using at_addr_0 [OF assms(1)] assms(2) by simp
  have "set (addrs s) \<inter> set (addrs u) = {}" using n by (cases d) (auto simp: at_def)
  then show "addr_of s \<noteq> addr_of u" "addr_of u \<noteq> addr_of s" using addr_of_disjoint nz by metis+
  show "parent (nodes t (addr_of s)) = p" using assms by (cases s) (auto simp: at_def node_is_def)
qed

section \<open>Insertion\<close>

lemma insert_repair_step:
  assumes "at t s (mk d b p u # C)" "s \<noteq> E"
  shows "avl_tree_insert_repair t (addr_of s) =
    (if sg d * b < 0
     then do { bz \<leftarrow> get_tag t (addr_of s);
               (t, n) \<leftarrow> (if sg d * bz > 0 then avl_rot2 (\<not> d) t p (addr_of s) else avl_rot (\<not> d) t p (addr_of s));
               avl_attach t (par_of C) p n }
     else if sg d * b > 0 then set_tag t p 0
     else do { t \<leftarrow> set_tag t p (- sg d); avl_tree_insert_repair t p })"
  using at_above [OF assms]
  by (subst avl_tree_insert_repair.simps) (cases d; simp add: avl_rot_def avl_rot2_def)

definition avl_yields :: "avl_tree option \<Rightarrow> ptr list \<Rightarrow> bool" where
  "avl_yields res ys \<longleftrightarrow> (\<exists>t' s'. res = Some t' \<and> tree_rep t' s' \<and> avl_ok s' \<and> addrs s' = ys)"

lemma avl_yieldsI: "at t' s' C \<Longrightarrow> avl_ok s' \<Longrightarrow> apath (ht s') C \<Longrightarrow> avl_yields (Some t') (addrs (plug s' C))"
  using at_plug [of t' s' C] by (auto simp: avl_yields_def avl_plug)

text \<open>The subtree \<open>s\<close> has grown to two levels more than its sibling \<open>u\<close>.\<close>

lemma insert_repair_rotates:
  assumes "at t s (mk d b p u # C)" "avl_ok s" "ht s = Suc (Suc (ht u))" "avl_ok u" "apath (Suc (Suc (ht u))) C"
    and "s = plug1 (mk (\<not> d) bz z far) near" "bz \<noteq> 0"
  shows "avl_yields (do { (t, n) \<leftarrow> (if sg d * bz > 0 then avl_rot2 (\<not> d) t p z else avl_rot (\<not> d) t p z);
               avl_attach t (par_of C) p n }) (addrs (plug s (mk d b p u # C)))"
proof -
  let ?e = "\<not> d"
  have at: "at t u (mk ?e b p (plug1 (mk ?e bz z far) near) # C)" using iffD1 [OF at_sibling assms(1)] assms(6) by simp
  have bal: "bz = - sg d * (int (ht far) - int (ht near))" "\<bar>bz\<bar> \<le> 1" "avl_ok far" "avl_ok near"
    "Suc (max (ht near) (ht far)) = Suc (Suc (ht u))"
    using assms(2,3,6) by (auto simp: avl_mk ht_mk)
  show ?thesis
  proof (cases "sg d * bz > 0")
    case False
    then have h: "bz = - sg d" "ht far = Suc (ht u)" "ht near = ht u"
      using bal assms(7) by (auto simp: sg_def max_def split: if_splits)
    obtain t1 t' where t': "avl_rot ?e t p z = Some (t1, z)" "avl_attach t1 (par_of C) p z = Some t'"
      "at t' (plug1 (mk ?e 0 z far) (plug1 (mk ?e 0 p near) u)) C"
      using avl_rot_at [OF at] assms(7) by (auto simp: at_up)
    have "avl_yields (Some t') (addrs (plug (plug1 (mk ?e 0 z far) (plug1 (mk ?e 0 p near) u)) C))"
      by (rule avl_yieldsI [OF t'(3)]) (use bal h assms(4,5) in \<open>simp_all add: avl_mk ht_mk\<close>)
    then show ?thesis using t'(1,2) False assms(6) by (cases d) (simp_all add: addrs_plug)
  next
    case True
    then have h: "ht near = Suc (ht u)" "ht far = ht u"
      using bal by (auto simp: sg_def max_def split: if_splits)
    then have "near \<noteq> E" by auto
    then obtain b' y p2 p1 where near: "near = plug1 (mk ?e b' y p2) p1" by (rule node_ex)
    let ?bx = "if sg ?e * b' > 0 then - sg ?e else 0" and ?bz = "if sg ?e * b' < 0 then sg ?e else 0"
    let ?r = "plug1 (mk ?e 0 y (plug1 (mk ?e ?bz z far) p2)) (plug1 (mk ?e ?bx p p1) u)"
    obtain t1 t' where t': "avl_rot2 ?e t p z = Some (t1, y)" "avl_attach t1 (par_of C) p y = Some t'" "at t' ?r C"
      using avl_rot2_at [OF at [unfolded near]] by (auto simp: at_up)
    have b': "b' = - sg d * (int (ht p2) - int (ht p1))" "\<bar>b'\<bar> \<le> 1" "avl_ok p1" "avl_ok p2" "max (ht p1) (ht p2) = ht u"
      using bal(4) h(1) near by (auto simp: avl_mk ht_mk)
    have "avl_ok ?r" "ht ?r = Suc (Suc (ht u))"
      using b' bal(3) h assms(4) by (cases d; auto simp: avl_mk ht_mk max_def split: if_splits)+
    then have "avl_yields (Some t') (addrs (plug ?r C))" using avl_yieldsI [OF t'(3)] assms(5) by simp
    then show ?thesis using t'(1,2) True assms(6) near by (cases d) (simp_all add: addrs_plug)
  qed
qed

lemma set_tag_mk:
  assumes "at t s (mk d b p u # C)"
  shows "\<exists>t'. set_tag t p b' = Some t' \<and> at t' s (mk d b' p u # C)"
  using set_tag_crumb [OF assms, of b'] by simp

lemma near_heights: "\<bar>sg d * (int a - int h)\<bar> \<le> 1 \<Longrightarrow> a = h \<or> a = Suc h \<or> h = Suc a"
  by (cases d) (simp_all, arith+)

lemma insert_repair_yields:
  assumes "at t s C" "s = N l b x r" "avl_ok s" "ht s = Suc h" "apath h C" "b \<noteq> 0 \<or> l = E \<and> r = E"
  shows "avl_yields (avl_tree_insert_repair t x) (addrs (plug s C))"
  using assms
proof (induction C arbitrary: t s l b x r h)
  case Nil
  have "avl_tree_insert_repair t x = Some t"
    using at_node [of t l b x r "[]"] Nil by (subst avl_tree_insert_repair.simps) auto
  then show ?case using Nil by (auto simp: avl_yields_def tree_rep_def)
next
  case (Cons c C)
  obtain d bp p u where c: "c = mk d bp p u" by (rule mk_ex)
  have s: "s \<noteq> E" "addr_of s = x" using Cons.prems(2) by simp_all
  note at = Cons.prems(1) [unfolded c]
  have bp: "bp = sg d * (int (ht u) - int h)" "\<bar>bp\<bar> \<le> 1" "avl_ok u" "apath (Suc (max h (ht u))) C"
    using Cons.prems(5) unfolding c by (auto simp: apath_mk)
  note step = insert_repair_step [OF at s(1), unfolded s(2)] and na = at_above [OF at s(1)]
  consider "ht u = h" | "ht u = Suc h" | "h = Suc (ht u)" using near_heights [of d "ht u" h] bp(1,2) by blast
  then show ?case
  proof cases
    case 1
    let ?s' = "plug1 (mk d (- sg d) p u) s"
    obtain t' where t': "set_tag t p (- sg d) = Some t'" "at t' ?s' C"
      using set_tag_mk [OF at, of "- sg d"] by (auto simp: at_up)
    obtain l' r' where s': "?s' = N l' (- sg d) p r'" by (cases d) auto
    have "avl_yields (avl_tree_insert_repair t' p) (addrs (plug ?s' C))"
      by (rule Cons.IH [OF t'(2) s', where h = "Suc h"])
        (use bp Cons.prems(3,4) 1 in \<open>auto simp: avl_mk ht_mk\<close>)
    then show ?thesis using step t'(1) bp(1) 1 unfolding c by (cases d) (simp_all add: addrs_plug)
  next
    case 2
    obtain t' where t': "set_tag t p 0 = Some t'" "at t' s (mk d 0 p u # C)" using set_tag_mk [OF at, of 0] by blast
    have "avl_yields (Some t') (addrs (plug s (mk d 0 p u # C)))"
      by (rule avl_yieldsI [OF t'(2) Cons.prems(3)]) (use bp Cons.prems(4) 2 in \<open>auto simp: apath_mk\<close>)
    moreover have "sg d * bp > 0" using bp(1) 2 by (cases d) auto
    ultimately show ?thesis using step t'(1) unfolding c by (cases d) (simp_all add: addrs_plug)
  next
    case 3
    obtain bz z far near where z: "s = plug1 (mk (\<not> d) bz z far) near" using node_ex [OF s(1)] .
    have zx: "z = x" "bz = b" using z Cons.prems(2) by (cases d; simp)+
    have "ht s \<noteq> 1" using Cons.prems(4) 3 by simp
    then have b: "b \<noteq> 0" using Cons.prems(2,6) by auto
    have "avl_yields (do { (t, n) \<leftarrow> (if sg d * b > 0 then avl_rot2 (\<not> d) t p x else avl_rot (\<not> d) t p x);
        avl_attach t (par_of C) p n }) (addrs (plug s (mk d bp p u # C)))"
      by (rule insert_repair_rotates [OF at Cons.prems(3) _ bp(3) _ z, unfolded zx]) (use Cons.prems(4) bp(4) 3 b in simp_all)
    moreover have "sg d * bp < 0" using bp(1) 3 by (cases d) auto
    moreover have "x \<noteq> 0" "tag (nodes t x) = b" using at_node [OF Cons.prems(1) [unfolded Cons.prems(2)]] by simp_all
    ultimately show ?thesis using step unfolding c by simp
  qed
qed

lemma avl_tree_insert_yields:
  assumes "tree_rep t s" "avl_ok s" "x \<noteq> 0" "x \<notin> set (addrs s)"
    and "sorted_wrt (\<lambda>a b. cmp x a < 0 \<longrightarrow> cmp x b < 0) (addrs s)"
  shows "avl_yields (avl_tree_insert cmp t x) (inserted (\<lambda>y. cmp x y < 0) x (addrs s))"
proof -
  obtain t' where t': "fresh_node t 0 x = Some t'" "new_leaf t' 0 x" "tree_rep t' s"
    using fresh_node_at [OF assms(1,3,4)] by blast
  note rt = tree_rep_root [OF t'(3)]
  show ?thesis
  proof (cases "s = E")
    case True
    let ?t = "t'\<lparr>root := x, nodes := (nodes t')(x := (nodes t' x)\<lparr>parent := 0\<rparr>)\<rparr>"
    have "tree_rep ?t (N E 0 x E)" using t'(2) by (simp add: tree_rep_def at_def new_leaf_def node_is_def)
    then show ?thesis using t'(1) rt(1) True assms(3)
      by (auto simp: avl_tree_insert_def avl_yields_def inserted_def intro!: exI [of _ "N E 0 x E"])
  next
    case False
    obtain t2 C where t2: "link_leaf t' x (hd (descend (\<lambda>y. cmp x y < 0) s [])) = Some t2" "at t2 (N E 0 x E) C" "plug E C = s"
      "addrs (plug (N E 0 x E) C) = inserted (\<lambda>y. cmp x y < 0) x (addrs s)"
      using link_leaf_position [OF t'(3,2) assms(4) False assms(5)] by blast
    have "apath 0 C" using assms(2) t2(3) avl_plug [of E C] by auto
    then have "avl_yields (avl_tree_insert_repair t2 x) (addrs (plug (N E 0 x E) C))"
      by (intro insert_repair_yields [OF t2(2) refl, where h = 0]) auto
    then show ?thesis using t'(1,3) rt(1,2) False t2(1,4) insert_from_links [of t' s "[]" avl_tree_insert_repair cmp x]
      by (simp add: avl_tree_insert_def tree_rep_def)
  qed
qed

section \<open>Deletion\<close>

lemma delete_repair_step:
  assumes "at t s (mk d b p u # C)" "s \<noteq> E"
  shows "avl_delete_repair_from t (addr_of s) p =
    (if sg d * b > 0
     then do { bz \<leftarrow> get_tag t (addr_of u);
               (t, n) \<leftarrow> (if sg d * bz < 0 then avl_rot2 d t p (addr_of u) else avl_rot d t p (addr_of u));
               t \<leftarrow> avl_attach t (par_of C) p n;
               if par_of C \<noteq> 0 \<and> bz = 0 then Some t else avl_delete_repair_from t n (par_of C) }
     else if b = 0 then set_tag t p (sg d)
     else do { t \<leftarrow> set_tag t p 0; avl_delete_repair_from t p (par_of C) })"
  using at_above [OF assms]
  by (subst avl_delete_repair_from.simps) (cases d; simp add: avl_rot_def avl_rot2_def cong: if_cong)

text \<open>
  The repair leaves the subtree at the position alone and changes the path to it so that a subtree of
  height \<open>h\<close> fits there.
\<close>

definition shrinks :: "avl_tree option \<Rightarrow> int ptree \<Rightarrow> int crumb list \<Rightarrow> nat \<Rightarrow> bool" where
  "shrinks res s C h \<longleftrightarrow>
     (\<exists>t' C'. res = Some t' \<and> at t' s C' \<and> apath h C' \<and>
        inorder_path_l C' = inorder_path_l C \<and> inorder_path_r C' = inorder_path_r C)"

lemma shrinks_up:
  assumes "shrinks res (plug s D) C h'" "\<And>C'. apath h' C' \<Longrightarrow> apath h (D @ C')"
    and "inorder_path_l D = inorder_path_l [c]" "inorder_path_r D = inorder_path_r [c]"
  shows "shrinks res s (c # C) h"
proof -
  obtain t' C' where t': "res = Some t'" "at t' (plug s D) C'" "apath h' C'"
    "inorder_path_l C' = inorder_path_l C" "inorder_path_r C' = inorder_path_r C"
    using assms(1) by (auto simp: shrinks_def)
  have "at t' s (D @ C')" using t'(2) by (simp add: at_iff_plug plug_append)
  moreover have "inorder_path_l (D @ C') = inorder_path_l (c # C)" "inorder_path_r (D @ C') = inorder_path_r (c # C)"
    using t'(4,5) assms(3,4) inorder_path_append [of "[c]" C] inorder_path_append [of D C'] by simp_all
  ultimately show ?thesis using t'(1,3) assms(2) unfolding shrinks_def by blast
qed

lemma shrinks_here: "at t' (plug s D) C \<Longrightarrow> apath h' C \<Longrightarrow> shrinks (Some t') (plug s D) C h'"
  by (auto simp: shrinks_def)

lemma inorder_mk:
  "inorder_path_l [mk d b p u] = (if d then [] else addrs u @ [p])" "inorder_path_r [mk d b p u] = (if d then p # addrs u else [])"
  "inorder_path_l [mk d b p u, c] = inorder_path_l [c] @ inorder_path_l [mk d b p u]"
  "inorder_path_r [mk d b p u, c] = inorder_path_r [mk d b p u] @ inorder_path_r [c]"
  using inorder_path_append [of "[mk d b p u]" "[c]"] by (cases d; simp)+

text \<open>The sibling \<open>u\<close> is two levels higher than the subtree will be.\<close>

lemma delete_rotates:
  assumes "at t s (mk d b p (plug1 (mk d bz z far) near) # C)" "s \<noteq> E" "avl_ok (plug1 (mk d bz z far) near)"
    and "ht (plug1 (mk d bz z far) near) = Suc (Suc h)"
  obtains t1 t' D where "(if sg d * bz < 0 then avl_rot2 d t p z else avl_rot d t p z) = Some (t1, addr_of (plug s D))"
    "avl_attach t1 (par_of C) p (addr_of (plug s D)) = Some t'" "at t' (plug s D) C" "plug s D \<noteq> E"
    "inorder_path_l D = inorder_path_l [mk d b p (plug1 (mk d bz z far) near)]"
    "inorder_path_r D = inorder_path_r [mk d b p (plug1 (mk d bz z far) near)]"
    "\<And>C'. apath (if bz = 0 then Suc (Suc (Suc h)) else Suc (Suc h)) C' \<Longrightarrow> apath h (D @ C')"
proof -
  have bal: "bz = sg d * (int (ht far) - int (ht near))" "\<bar>bz\<bar> \<le> 1" "avl_ok far" "avl_ok near" "max (ht near) (ht far) = Suc h"
    using assms(3,4) by (auto simp: avl_mk ht_mk)
  show ?thesis
  proof (cases "sg d * bz < 0")
    case False
    let ?D = "[mk d (if bz = 0 then sg d else 0) p near, mk d (if bz = 0 then - sg d else 0) z far]"
    obtain t1 t' where t': "avl_rot d t p z = Some (t1, z)" "avl_attach t1 (par_of C) p z = Some t'" "at t' (plug s ?D) C"
      using avl_rot_at [OF assms(1)] by (auto simp: at_up)
    have h: "ht far = Suc h" "ht near = (if bz = 0 then Suc h else h)"
      using bal False by (cases d; auto simp: max_def split: if_splits)+
    have "apath h (?D @ C')" if "apath (if bz = 0 then Suc (Suc (Suc h)) else Suc (Suc h)) C'" for C'
      using that bal(3,4) h by (cases "bz = 0") (simp_all add: apath_mk)
    then show ?thesis using t' False by (intro that [of t1 ?D t']) (simp_all add: inorder_mk addrs_mk)
  next
    case True
    have h: "ht near = Suc h" "ht far = h" using bal True by (cases d; auto simp: max_def split: if_splits)+
    then have "near \<noteq> E" by auto
    then obtain b' y p2 p1 where near: "near = plug1 (mk d b' y p2) p1" by (rule node_ex)
    have b': "b' = sg d * (int (ht p2) - int (ht p1))" "\<bar>b'\<bar> \<le> 1" "avl_ok p1" "avl_ok p2" "max (ht p1) (ht p2) = h"
      using bal(4) h(1) near by (auto simp: avl_mk ht_mk)
    let ?bx = "if sg d * b' > 0 then - sg d else 0" and ?bz = "if sg d * b' < 0 then sg d else 0"
    let ?D = "[mk d ?bx p p1, mk d 0 y (plug1 (mk d ?bz z far) p2)]"
    obtain t1 t' where t': "avl_rot2 d t p z = Some (t1, y)" "avl_attach t1 (par_of C) p y = Some t'" "at t' (plug s ?D) C"
      using avl_rot2_at [OF assms(1) [unfolded near]] by (auto simp: at_up)
    have "ht (plug1 (mk d ?bz z far) p2) = Suc h" "avl_ok (plug1 (mk d ?bz z far) p2)"
      "?bx = sg d * (int (ht p1) - int h)" "\<bar>sg d * (int (ht p1) - int h)\<bar> \<le> 1"
      using b' bal(3) h by (cases d; auto simp: avl_mk ht_mk max_def split: if_splits)+
    moreover have "bz \<noteq> 0" using True by auto
    ultimately have "apath h (?D @ C')" if "apath (if bz = 0 then Suc (Suc (Suc h)) else Suc (Suc h)) C'" for C'
      using that b'(3,5) by (simp add: apath_mk)
    then show ?thesis using t' True near by (intro that [of t1 ?D t']) (simp_all add: inorder_mk addrs_mk)
  qed
qed

lemma at_nephew:
  assumes "at t s (mk d b p (plug1 (mk d bz z far) near) # C)"
  shows "z \<noteq> 0" "tag (nodes t z) = bz"
proof -
  have "at t near (mk d bz z far # mk (\<not> d) b p s # C)" using assms by (simp only: at_near)
  from at_crumb [OF this] show "z \<noteq> 0" "tag (nodes t z) = bz" by simp_all
qed

lemma delete_repair_shrinks:
  assumes "at t s C" "s \<noteq> E" "apath (Suc h) C"
  shows "shrinks (avl_delete_repair_from t (addr_of s) (par_of C)) s C h"
  using assms
proof (induction C arbitrary: t s h)
  case Nil
  then show ?case by (subst avl_delete_repair_from.simps) (auto simp: shrinks_def)
next
  case (Cons c C)
  obtain d b p u where c: "c = mk d b p u" by (rule mk_ex)
  note at = Cons.prems(1) [unfolded c]
  have b: "b = sg d * (int (ht u) - int (Suc h))" "\<bar>b\<bar> \<le> 1" "avl_ok u" "apath (Suc (max (Suc h) (ht u))) C"
    using Cons.prems(3) unfolding c by (auto simp: apath_mk)
  note step = delete_repair_step [OF at Cons.prems(2)]
  consider "ht u = Suc h" | "ht u = h" | "ht u = Suc (Suc h)" using near_heights [of d "ht u" "Suc h"] b(1,2) by auto
  then show ?case
  proof cases
    case 1
    obtain t' where t': "set_tag t p (sg d) = Some t'" "at t' (plug s [mk d (sg d) p u]) C"
      using set_tag_mk [OF at, of "sg d"] by (auto simp: at_up)
    have "shrinks (Some t') s (c # C) h"
      by (rule shrinks_up [OF shrinks_here [OF t'(2) b(4)]]) (use 1 b(3) c in \<open>simp_all add: apath_mk inorder_mk\<close>)
    then show ?thesis using step t'(1) 1 b(1) c by simp
  next
    case 2
    obtain t' where t': "set_tag t p 0 = Some t'" "at t' (plug s [mk d 0 p u]) C"
      using set_tag_mk [OF at, of 0] by (auto simp: at_up)
    have "shrinks (avl_delete_repair_from t' (addr_of (plug s [mk d 0 p u])) (par_of C)) (plug s [mk d 0 p u]) C (Suc h)"
      by (rule Cons.IH [OF t'(2)]) (use b(4) 2 in simp_all)
    then have "shrinks (avl_delete_repair_from t' (addr_of (plug s [mk d 0 p u])) (par_of C)) s (c # C) h"
      by (rule shrinks_up) (use 2 b(3) c in \<open>simp_all add: apath_mk inorder_mk\<close>)
    then show ?thesis using step t'(1) 2 b(1) c by simp
  next
    case 3
    then have "u \<noteq> E" by auto
    then obtain bz z far near where u: "u = plug1 (mk d bz z far) near" by (rule node_ex)
    obtain t1 t' D where t': "(if sg d * bz < 0 then avl_rot2 d t p z else avl_rot d t p z) = Some (t1, addr_of (plug s D))"
      "avl_attach t1 (par_of C) p (addr_of (plug s D)) = Some t'" "at t' (plug s D) C" "plug s D \<noteq> E"
      "inorder_path_l D = inorder_path_l [c]" "inorder_path_r D = inorder_path_r [c]"
      "\<And>C'. apath (if bz = 0 then Suc (Suc (Suc h)) else Suc (Suc h)) C' \<Longrightarrow> apath h (D @ C')"
      using delete_rotates [OF at [unfolded u] Cons.prems(2)] b(3) 3 unfolding u c by metis
    let ?n = "addr_of (plug s D)"
    define res where "res = (if par_of C \<noteq> 0 \<and> bz = 0 then Some t' else avl_delete_repair_from t' ?n (par_of C))"
    have C: "apath (Suc (Suc (Suc h))) C" using b(4) 3 by simp
    have "shrinks res (plug s D) C (if bz = 0 then Suc (Suc (Suc h)) else Suc (Suc h))"
    proof (cases "bz = 0")
      case True
      have "res = Some t'" using True by (cases "par_of C = 0") (simp_all add: res_def avl_delete_repair_from.simps)
      then show ?thesis using shrinks_here [OF t'(3) C] True by simp
    next
      case False
      then show ?thesis using Cons.IH [OF t'(3,4) C] by (simp add: res_def)
    qed
    then have "shrinks res s (c # C) h" by (rule shrinks_up) (use t'(5-7) in simp_all)
    moreover have "z \<noteq> 0" "tag (nodes t z) = bz" using at_nephew [OF at [unfolded u]] by simp_all
    moreover have "sg d * b > 0" using b(1) 3 by (cases d) auto
    moreover have "addr_of u = z" using u by simp
    note step [unfolded this]
    ultimately show ?thesis using t'(1,2) c u by (simp add: res_def split del: if_split)
  qed
qed

lemma avl_delete_one_child_yields:
  assumes "at t (N l b x r) C" "avl_ok (plug (N l b x r) C)" "l = E \<or> r = E"
  shows "avl_yields (avl_tree_delete_one_child t x) (inorder_path_l C @ addrs l @ addrs r @ inorder_path_r C)"
proof -
  define ch where "ch = (if r = E then l else r)"
  have ok: "avl_ok (N l b x r)" "apath (ht (N l b x r)) C" using assms(2) by (simp_all only: avl_plug)
  have ch: "avl_ok ch" "ht (N l b x r) = Suc (ht ch)" "addrs ch = addrs l @ addrs r" using ok(1) assms(3) by (auto simp: ch_def)
  obtain t' C' where t': "avl_delete_repair_from t x (par_of C) = Some t'" "at t' (N l b x r) C'" "apath (ht ch) C'"
    "inorder_path_l C' = inorder_path_l C" "inorder_path_r C' = inorder_path_r C"
    using delete_repair_shrinks [OF assms(1), of "ht ch"] ok(2) ch(2) by (auto simp: shrinks_def)
  obtain t2 where t2: "put_child t' (par_of C') x (addr_of ch) = Some t2" "at t2 ch C'"
    using put_child_at [OF t'(2) assms(3)] by (auto simp: ch_def)
  have atr: "at t' r (InR l b x # C')" using t'(2) by (simp add: at_up)
  have "avl_tree_delete_one_child t x = Some t2"
    using at_node [OF assms(1)] at_node [OF t'(2)] t'(1) t2(1) at_addr_0 [OF atr]
    by (cases "r = E") (simp_all add: avl_tree_delete_one_child_def avl_tree_delete_repair_def ch_def)
  then show ?thesis using avl_yieldsI [OF t2(2) ch(1) t'(3)] ch(3) t'(4,5) by (simp add: addrs_plug)
qed

lemma ht_swap [simp]: "ht (swap_tree x y s) = ht s"
  by (induction s) simp_all

lemma avl_swap [simp]: "avl_ok (swap_tree x y s) = avl_ok s"
  by (induction s) simp_all

lemma avl_tree_delete_yields:
  assumes "tree_rep t s" "avl_ok s" "x \<in> set (addrs s)"
  shows "avl_yields (avl_tree_delete t x) (remove1 x (addrs s))"
proof -
  obtain l b r C where s: "s = plug (N l b x r) C" using node_position [OF assms(3)] by blast
  have at: "at t (N l b x r) C" using assms(1) s by (simp add: at_iff_plug)
  have atl: "at t l (InL b x r # C)" and atr: "at t r (InR l b x # C)" using at by (simp_all add: at_up)
  note nx = at_node [OF at] at_addr_0 [OF atl] at_addr_0 [OF atr]
  have "x \<notin> set (addrs l)" "x \<notin> set (inorder_path_l C)"
    using tree_rep_root(4) [OF assms(1)] by (auto simp: s addrs_plug)
  then have rm: "remove1 x (addrs s) = inorder_path_l C @ addrs l @ addrs r @ inorder_path_r C"
    by (simp add: s addrs_plug remove1_append)
  show ?thesis
  proof (cases "l = E \<or> r = E")
    case True
    then show ?thesis using avl_delete_one_child_yields [OF at _ True] nx assms(2) s rm by (auto simp: avl_tree_delete_def)
  next
    case False
    obtain yr yb D where D: "r = plug (N E yb (hd (addrs r)) yr) D" "inorder_path_l D = []"
      using leftmost_position [of r] False by blast
    define y where "y = hd (addrs r)"
    have aty: "at t (N E yb y yr) (D @ InR l b x # C)"
      using at D(1) unfolding y_def [symmetric] by (simp add: at_iff_plug plug_append)
    obtain t' where t': "tree_exchange t x y = Some t'" "at t' (N E yb x yr) (D @ InR l b y # C)"
      "avl_ok (plug (N E yb x yr) (D @ InR l b y # C)) = avl_ok (plug (N E yb y yr) (D @ InR l b x # C))"
      using exchange_at [OF aty] by auto
    have inv: "avl_ok (plug (N E yb x yr) (D @ InR l b y # C))"
      using t'(3) assms(2) s D(1) unfolding y_def [symmetric] by (simp add: plug_append)
    have "avl_tree_delete t x = avl_tree_delete_one_child t' x"
      using nx False leftmost_from_hd [OF atr] t'(1) by (simp add: avl_tree_delete_def avl_tree_exchange_def y_def)
    moreover have "addrs r = y # addrs yr @ inorder_path_r D"
      using D unfolding y_def [symmetric] by (simp add: addrs_plug)
    ultimately show ?thesis
      using avl_delete_one_child_yields [OF t'(2) inv] rm D(2) by (simp add: inorder_path_append)
  qed
qed

section \<open>The checks of the library\<close>

lemma avl_height_at: "at t s C \<Longrightarrow> s \<noteq> E \<Longrightarrow> avl_ok s \<Longrightarrow> avl_subtree_height t (addr_of s) = Some (int (ht s))"
proof (induction s arbitrary: C)
  case (N l b y r)
  have atl: "at t l (InL b y r # C)" and atr: "at t r (InR l b y # C)" using N.prems by (simp_all add: at_up)
  have p: "l \<noteq> E \<Longrightarrow> parent (nodes t (addr_of l)) = y" "r \<noteq> E \<Longrightarrow> parent (nodes t (addr_of r)) = y"
    using N.prems by (cases l; cases r; auto simp: at_def node_is_def)+
  show ?case
    using at_node [OF N.prems(1)] at_addr_0 [OF atl] at_addr_0 [OF atr] N.IH(1) [OF atl] N.IH(2) [OF atr] p N.prems(3)
    by (subst avl_subtree_height.simps) (cases "l = E"; cases "r = E"; auto simp: max_def)
qed simp

lemma avl_tree_checks:
  assumes "tree_rep t s" "avl_ok s"
  shows "avl_tree_valid t = Some True" "avl_tree_ptrs_valid t = Some True"
proof -
  have "s \<noteq> E \<Longrightarrow> avl_subtree_height t (addr_of s) = Some (int (ht s))" "s \<noteq> E \<Longrightarrow> subtree_ptrs_valid t (addr_of s) = Some True"
    using avl_height_at [of t s "[]"] ptrs_valid_at [of t s "[]"] assms by (auto simp: tree_rep_def)
  moreover have "s \<noteq> E \<Longrightarrow> parent (nodes t (addr_of s)) = 0"
    using assms(1) by (cases s) (auto simp: tree_rep_def at_def node_is_def)
  ultimately show "avl_tree_valid t = Some True" "avl_tree_ptrs_valid t = Some True"
    using tree_rep_root(1,2) [OF assms(1)]
    by (cases "s = E"; simp add: avl_tree_valid_def avl_tree_ptrs_valid_def)+
qed

section \<open>The contract\<close>

definition avl_holds :: "avl_tree \<Rightarrow> ptr list \<Rightarrow> bool" where
  "avl_holds t xs \<longleftrightarrow> (\<exists>s. tree_rep t s \<and> avl_ok s \<and> addrs s = xs)"

lemma avl_yields_holds: "avl_yields res xs \<longleftrightarrow> (\<exists>t'. res = Some t' \<and> avl_holds t' xs)"
  by (auto simp: avl_yields_def avl_holds_def)

lemma avl_holds_init [simp]: "avl_holds (avl_tree_init t) []"
  by (auto simp: avl_holds_def avl_tree_init_def tree_rep_def at_def intro!: exI [of _ E])

lemma avl_holds_checks:
  assumes "avl_holds t xs"
  shows "avl_tree_valid t = Some True" "avl_tree_ptrs_valid t = Some True"
  using assms avl_tree_checks by (auto simp: avl_holds_def)

lemma avl_tree_ends:
  assumes "tree_rep t s"
  shows "avl_tree_leftmost t = Some (if addrs s = [] then 0 else hd (addrs s))"
    and "avl_tree_rightmost t = Some (if addrs s = [] then 0 else last (addrs s))"
  using leftmost_from_hd [of t s "[]"] rightmost_from_last [of t s "[]"] tree_rep_root(1,2) [OF assms] assms
  by (simp_all add: avl_tree_leftmost_def avl_tree_rightmost_def) (simp_all add: tree_rep_def)

interpretation avl: sorted_tree avl_holds avl_tree_insert avl_tree_delete avl_tree_leftmost
proof
  fix t :: avl_tree and xs x and cmp :: "ptr \<Rightarrow> ptr \<Rightarrow> int"
  assume h: "avl_holds t xs"
  then obtain s where s: "tree_rep t s" "avl_ok s" "addrs s = xs" by (auto simp: avl_holds_def)
  show "\<exists>t'. avl_tree_insert cmp t x = Some t' \<and> avl_holds t' (inserted (\<lambda>y. cmp x y < 0) x xs)"
    if "x \<noteq> 0" "x \<notin> set xs" "cmp_sorted (cmp x) xs"
    using avl_tree_insert_yields [OF s(1,2) that(1), of cmp] cmp_sorted_less [OF that(3)] that(2) s(3) by (simp add: avl_yields_holds)
  show "\<exists>t'. avl_tree_delete t x = Some t' \<and> avl_holds t' (remove1 x xs)" if "x \<in> set xs"
    using avl_tree_delete_yields [OF s(1,2)] that s(3) by (simp add: avl_yields_holds)
  show "avl_tree_leftmost t = Some (if xs = [] then 0 else hd xs)"
    using avl_tree_ends(1) [OF s(1)] s(3) by simp
  show "distinct xs" "0 \<notin> set xs" using tree_rep_root(3,4) [OF s(1)] s(3) by auto
qed

section \<open>Properties\<close>

text \<open>
  C39: Inserting a node into an AVL tree, with a comparison function that orders the nodes by a key,
  returns an AVL tree with the same nodes and the new one after the nodes with the same key; deleting
  a node returns an AVL tree with the other nodes in the same order.  Both pass the checks of the library.
\<close>

theorem avl_tree_correct:
  assumes "\<forall>a b. (cmp a b < 0 \<longleftrightarrow> key a < key b) \<and> (cmp a b > 0 \<longleftrightarrow> key b < (key a :: 'k::linorder))"
    and "avl_holds t xs" "sorted (map key xs)" "x \<noteq> 0"
  shows "if x \<in> set xs
         then \<exists>t'. avl_tree_delete t x = Some t' \<and> avl_holds t' (remove1 x xs) \<and>
                avl_tree_valid t' = Some True \<and> avl_tree_ptrs_valid t' = Some True
         else \<exists>t'. avl_tree_insert cmp t x = Some t' \<and> avl_holds t' (insert_key key x xs) \<and>
                sorted (map key (insert_key key x xs)) \<and>
                avl_tree_valid t' = Some True \<and> avl_tree_ptrs_valid t' = Some True"
proof -
  have "key_order cmp key" using assms(1) by unfold_locales blast+
  then have "keyed_tree avl_holds avl_tree_insert avl_tree_delete avl_tree_leftmost cmp key"
    by (intro keyed_tree.intro avl.sorted_tree_axioms)
  from keyed_tree.ins_keyed [OF this assms(2-4)] avl.del_holds [OF assms(2), of x] avl_holds_checks
  show ?thesis by (cases "x \<in> set xs") fastforce+
qed

definition avl_two_nodes :: avl_tree where
  "avl_two_nodes = \<lparr>nodes = (\<lambda>_. \<lparr>tag = 0, left = 0, right = 0, parent = 10\<rparr>)
     (10 := \<lparr>tag = 1, left = 0, right = 20, parent = 0\<rparr>), root = 10\<rparr>"

theorem avl_tree_correct_witness:
  "\<exists>t'. avl_tree_insert (\<lambda>a b. int a - int b) avl_two_nodes 15 = Some t' \<and> avl_holds t' [10, 15, 20] \<and>
     avl_tree_valid t' = Some True"
proof -
  have "avl_holds avl_two_nodes [10, 20]" unfolding avl_holds_def
    by (intro exI [of _ "N E 1 10 (N E 0 20 E)"]) (simp add: avl_two_nodes_def tree_rep_def at_def node_is_def)
  from avl_tree_correct [where cmp = "\<lambda>a b. int a - int b" and key = "\<lambda>a. a" and x = 15, OF _ this]
  show ?thesis by (auto simp: insert_key_def)
qed

end
