(* ===== verification/TimerTree.thy ===== *)
theory TimerTree
  imports Timers RbOrder AvlBal
begin

text \<open>
  Timers in a red-black tree, \<^verbatim>\<open>src/timerrb\<close>, and in an AVL tree, \<^verbatim>\<open>src/timeravl\<close>.  The node of a
  timer is a field of it at a fixed offset, so the address of the node stands for the timer; the
  null pointer stands for no timer, as the code tests for it before it computes the offset.
\<close>

section \<open>Red-black tree\<close>

record timerrb =
  rb_tree :: rb_tree_nocmp
  rb_next :: ptr

definition timerrb_cmp :: "(ptr \<Rightarrow> u64) \<Rightarrow> ptr \<Rightarrow> ptr \<Rightarrow> int" where
  "timerrb_cmp tm n1 n2 = (if tm n1 < tm n2 then - 1 else if tm n1 > tm n2 then 1 else 0)"

definition timerrb_verify :: "timerrb \<Rightarrow> bool option" where
  "timerrb_verify rb = rb_tree_valid (rb_tree rb)"

definition timerrb_next_expiry_time :: "(ptr \<Rightarrow> u64) \<Rightarrow> timerrb \<Rightarrow> u64" where
  "timerrb_next_expiry_time tm rb = (if rb_next rb = 0 then - 1 else tm (rb_next rb))"

text \<open>The field \<^verbatim>\<open>next\<close> keeps the value that the memory of the structure had.\<close>

definition timerrb_init :: "timerrb \<Rightarrow> timerrb" where
  "timerrb_init rb = rb\<lparr>rb_tree := rb_tree_init (rb_tree rb)\<rparr>"

definition timerrb_update_next :: "timerrb \<Rightarrow> timerrb option" where
  "timerrb_update_next rb = do { node \<leftarrow> rb_tree_leftmost (rb_tree rb); Some (rb\<lparr>rb_next := node\<rparr>) }"

definition timerrb_add :: "(ptr \<Rightarrow> u64) \<Rightarrow> timerrb \<Rightarrow> ptr \<Rightarrow> timerrb option" where
  "timerrb_add tm rb timer =
     do { t \<leftarrow> rb_tree_insert (timerrb_cmp tm) (rb_tree rb) timer;
          timerrb_update_next (rb\<lparr>rb_tree := t\<rparr>) }"

definition timerrb_remove :: "timerrb \<Rightarrow> ptr \<Rightarrow> timerrb option" where
  "timerrb_remove rb timer =
     do { t \<leftarrow> rb_tree_delete (rb_tree rb) timer;
          timerrb_update_next (rb\<lparr>rb_tree := t\<rparr>) }"

definition timerrb_modify :: "(ptr \<Rightarrow> u64) \<Rightarrow> timerrb \<Rightarrow> ptr \<Rightarrow> timerrb option" where
  "timerrb_modify tm rb timer =
     do { t \<leftarrow> rb_tree_delete (rb_tree rb) timer;
          t \<leftarrow> rb_tree_insert (timerrb_cmp tm) t timer;
          timerrb_update_next (rb\<lparr>rb_tree := t\<rparr>) }"

definition timerrb_next_expiry_timer :: "timerrb \<Rightarrow> ptr" where
  "timerrb_next_expiry_timer rb = rb_next rb"

section \<open>AVL tree\<close>

record timeravl =
  avl_tree :: avl_tree
  avl_next :: ptr

definition timeravl_cmp :: "(ptr \<Rightarrow> u64) \<Rightarrow> ptr \<Rightarrow> ptr \<Rightarrow> int" where
  "timeravl_cmp tm n1 n2 = (if tm n1 < tm n2 then - 1 else if tm n1 > tm n2 then 1 else 0)"

definition timeravl_verify :: "timeravl \<Rightarrow> bool option" where
  "timeravl_verify avl = avl_tree_valid (avl_tree avl)"

definition timeravl_next_expiry_time :: "(ptr \<Rightarrow> u64) \<Rightarrow> timeravl \<Rightarrow> u64" where
  "timeravl_next_expiry_time tm avl = (if avl_next avl = 0 then - 1 else tm (avl_next avl))"

definition timeravl_init :: "timeravl \<Rightarrow> timeravl" where
  "timeravl_init avl = avl\<lparr>avl_tree := avl_tree_init (avl_tree avl)\<rparr>"

definition timeravl_update_next :: "timeravl \<Rightarrow> timeravl option" where
  "timeravl_update_next avl = do { node \<leftarrow> avl_tree_leftmost (avl_tree avl); Some (avl\<lparr>avl_next := node\<rparr>) }"

definition timeravl_add :: "(ptr \<Rightarrow> u64) \<Rightarrow> timeravl \<Rightarrow> ptr \<Rightarrow> timeravl option" where
  "timeravl_add tm avl timer =
     do { t \<leftarrow> avl_tree_insert (timeravl_cmp tm) (avl_tree avl) timer;
          timeravl_update_next (avl\<lparr>avl_tree := t\<rparr>) }"

definition timeravl_remove :: "timeravl \<Rightarrow> ptr \<Rightarrow> timeravl option" where
  "timeravl_remove avl timer =
     do { t \<leftarrow> avl_tree_delete (avl_tree avl) timer;
          timeravl_update_next (avl\<lparr>avl_tree := t\<rparr>) }"

definition timeravl_modify :: "(ptr \<Rightarrow> u64) \<Rightarrow> timeravl \<Rightarrow> ptr \<Rightarrow> timeravl option" where
  "timeravl_modify tm avl timer =
     do { t \<leftarrow> avl_tree_delete (avl_tree avl) timer;
          t \<leftarrow> avl_tree_insert (timeravl_cmp tm) t timer;
          timeravl_update_next (avl\<lparr>avl_tree := t\<rparr>) }"

definition timeravl_next_expiry_timer :: "timeravl \<Rightarrow> ptr" where
  "timeravl_next_expiry_timer avl = avl_next avl"

section \<open>Contracts\<close>

interpretation rb_timers: keyed_tree rb_holds rb_tree_insert rb_tree_nocmp_delete rb_tree_nocmp_leftmost "timerrb_cmp tm" tm
  for tm :: "ptr \<Rightarrow> u64"
  by unfold_locales (auto simp: timerrb_cmp_def)

interpretation avl_timers: keyed_tree avl_holds avl_tree_insert avl_tree_delete avl_tree_leftmost "timeravl_cmp tm" tm
  for tm :: "ptr \<Rightarrow> u64"
  by unfold_locales (auto simp: timeravl_cmp_def)

text \<open>The timers in the order of the tree, and the cached first one.\<close>

definition timerrb_ok :: "(ptr \<Rightarrow> u64) \<Rightarrow> timerrb \<Rightarrow> ptr set \<Rightarrow> bool" where
  "timerrb_ok tm rb A \<longleftrightarrow>
     (\<exists>xs. rb_holds (rb_tree rb) xs \<and> sorted (map tm xs) \<and> A = set xs \<and> rb_next rb = (if xs = [] then 0 else hd xs))"

definition timeravl_ok :: "(ptr \<Rightarrow> u64) \<Rightarrow> timeravl \<Rightarrow> ptr set \<Rightarrow> bool" where
  "timeravl_ok tm avl A \<longleftrightarrow>
     (\<exists>xs. avl_holds (avl_tree avl) xs \<and> sorted (map tm xs) \<and> A = set xs \<and> avl_next avl = (if xs = [] then 0 else hd xs))"

lemma timerrb_update_next_ok:
  "rb_holds (rb_tree rb) xs \<Longrightarrow> sorted (map tm xs) \<Longrightarrow> \<exists>rb'. timerrb_update_next rb = Some rb' \<and> timerrb_ok tm rb' (set xs)"
  using rb.leftmost_holds [of "rb_tree rb" xs] by (auto simp: timerrb_update_next_def timerrb_ok_def rb_tree_wrappers)

lemma timeravl_update_next_ok:
  "avl_holds (avl_tree avl) xs \<Longrightarrow> sorted (map tm xs) \<Longrightarrow> \<exists>avl'. timeravl_update_next avl = Some avl' \<and> timeravl_ok tm avl' (set xs)"
  using avl.leftmost_holds [of "avl_tree avl" xs] by (auto simp: timeravl_update_next_def timeravl_ok_def)


interpretation timerrb_queue: timer_queue timerrb_ok timerrb_add "\<lambda>tm. timerrb_remove" timerrb_modify timerrb_next_expiry_timer
proof
  show "\<exists>q'. timerrb_add tm q x = Some q' \<and> timerrb_ok tm q' (insert x A)" if h: "timerrb_ok tm q A" "x \<noteq> 0" "x \<notin> A" "card A + 1 < 2 ^ 64" for tm q A x
  proof -
    from h(1) obtain xs where xs: "rb_holds (rb_tree q) xs" "sorted (map tm xs)" "A = set xs" unfolding timerrb_ok_def by blast
    obtain t ys where "rb_tree_insert (timerrb_cmp tm) (rb_tree q) x = Some t" "rb_holds t ys" "sorted (map tm ys)" "set ys = insert x A"
      using rb_timers.ins_set [OF xs(1,2) h(2)] h(3) unfolding xs(3) by metis
    then show ?thesis using timerrb_update_next_ok [of "q\<lparr>rb_tree := t\<rparr>" ys tm] by (simp add: timerrb_add_def)
  qed
  show "\<exists>q'. timerrb_remove q x = Some q' \<and> timerrb_ok tm' q' (A - {x})"
    if h: "timerrb_ok tm q A" "x \<in> A" "\<And>y. y \<noteq> x \<Longrightarrow> tm' y = tm y" for tm tm' q A x
  proof -
    from h(1) obtain xs where xs: "rb_holds (rb_tree q) xs" "sorted (map tm xs)" "A = set xs" unfolding timerrb_ok_def by blast
    obtain t ys where "rb_tree_nocmp_delete (rb_tree q) x = Some t" "rb_holds t ys" "sorted (map tm' ys)" "set ys = A - {x}"
      using rb_timers.del_set [OF xs(1,2) _ h(3)] h(2) unfolding xs(3) by metis
    then show ?thesis using timerrb_update_next_ok [of "q\<lparr>rb_tree := t\<rparr>" ys tm'] by (simp add: timerrb_remove_def rb_tree_wrappers)
  qed
  show "\<exists>q'. timerrb_modify tm' q x = Some q' \<and> timerrb_ok tm' q' A"
    if h: "timerrb_ok tm q A" "x \<in> A" "\<And>y. y \<noteq> x \<Longrightarrow> tm' y = tm y" for tm tm' q A x
  proof -
    from h(1) obtain xs where xs: "rb_holds (rb_tree q) xs" "sorted (map tm xs)" "A = set xs" unfolding timerrb_ok_def by blast
    obtain t t' ys where "rb_tree_nocmp_delete (rb_tree q) x = Some t" "rb_tree_insert (timerrb_cmp tm') t x = Some t'" "rb_holds t' ys" "sorted (map tm' ys)" "set ys = A"
      using rb_timers.del_ins_set [OF xs(1,2) _ h(3)] h(2) unfolding xs(3) by metis
    then show ?thesis using timerrb_update_next_ok [of "q\<lparr>rb_tree := t'\<rparr>" ys tm'] by (simp add: timerrb_modify_def rb_tree_wrappers)
  qed
  show "timerrb_next_expiry_timer q \<in> A \<and> (\<forall>y\<in>A. tm (timerrb_next_expiry_timer q) \<le> tm y)" if h: "timerrb_ok tm q A" "A \<noteq> {}" for tm q A
    using h by (auto simp: timerrb_ok_def timerrb_next_expiry_timer_def neq_Nil_conv)
  show "timerrb_ok tm' q A" if "timerrb_ok tm q A" "\<And>y. y \<in> A \<Longrightarrow> tm' y = tm y" for tm tm' q A
    using that map_cong [of _ _ tm' tm] unfolding timerrb_ok_def by metis
qed (auto simp: timerrb_ok_def timerrb_next_expiry_timer_def dest: rb.holds_nonzero)

interpretation timeravl_queue: timer_queue timeravl_ok timeravl_add "\<lambda>tm. timeravl_remove" timeravl_modify timeravl_next_expiry_timer
proof
  show "\<exists>q'. timeravl_add tm q x = Some q' \<and> timeravl_ok tm q' (insert x A)" if h: "timeravl_ok tm q A" "x \<noteq> 0" "x \<notin> A" "card A + 1 < 2 ^ 64" for tm q A x
  proof -
    from h(1) obtain xs where xs: "avl_holds (avl_tree q) xs" "sorted (map tm xs)" "A = set xs" unfolding timeravl_ok_def by blast
    obtain t ys where "avl_tree_insert (timeravl_cmp tm) (avl_tree q) x = Some t" "avl_holds t ys" "sorted (map tm ys)" "set ys = insert x A"
      using avl_timers.ins_set [OF xs(1,2) h(2)] h(3) unfolding xs(3) by metis
    then show ?thesis using timeravl_update_next_ok [of "q\<lparr>avl_tree := t\<rparr>" ys tm] by (simp add: timeravl_add_def)
  qed
  show "\<exists>q'. timeravl_remove q x = Some q' \<and> timeravl_ok tm' q' (A - {x})"
    if h: "timeravl_ok tm q A" "x \<in> A" "\<And>y. y \<noteq> x \<Longrightarrow> tm' y = tm y" for tm tm' q A x
  proof -
    from h(1) obtain xs where xs: "avl_holds (avl_tree q) xs" "sorted (map tm xs)" "A = set xs" unfolding timeravl_ok_def by blast
    obtain t ys where "avl_tree_delete (avl_tree q) x = Some t" "avl_holds t ys" "sorted (map tm' ys)" "set ys = A - {x}"
      using avl_timers.del_set [OF xs(1,2) _ h(3)] h(2) unfolding xs(3) by metis
    then show ?thesis using timeravl_update_next_ok [of "q\<lparr>avl_tree := t\<rparr>" ys tm'] by (simp add: timeravl_remove_def)
  qed
  show "\<exists>q'. timeravl_modify tm' q x = Some q' \<and> timeravl_ok tm' q' A"
    if h: "timeravl_ok tm q A" "x \<in> A" "\<And>y. y \<noteq> x \<Longrightarrow> tm' y = tm y" for tm tm' q A x
  proof -
    from h(1) obtain xs where xs: "avl_holds (avl_tree q) xs" "sorted (map tm xs)" "A = set xs" unfolding timeravl_ok_def by blast
    obtain t t' ys where "avl_tree_delete (avl_tree q) x = Some t" "avl_tree_insert (timeravl_cmp tm') t x = Some t'" "avl_holds t' ys" "sorted (map tm' ys)" "set ys = A"
      using avl_timers.del_ins_set [OF xs(1,2) _ h(3)] h(2) unfolding xs(3) by metis
    then show ?thesis using timeravl_update_next_ok [of "q\<lparr>avl_tree := t'\<rparr>" ys tm'] by (simp add: timeravl_modify_def)
  qed
  show "timeravl_next_expiry_timer q \<in> A \<and> (\<forall>y\<in>A. tm (timeravl_next_expiry_timer q) \<le> tm y)" if h: "timeravl_ok tm q A" "A \<noteq> {}" for tm q A
    using h by (auto simp: timeravl_ok_def timeravl_next_expiry_timer_def neq_Nil_conv)
  show "timeravl_ok tm' q A" if "timeravl_ok tm q A" "\<And>y. y \<in> A \<Longrightarrow> tm' y = tm y" for tm tm' q A
    using that map_cong [of _ _ tm' tm] unfolding timeravl_ok_def by metis
qed (auto simp: timeravl_ok_def timeravl_next_expiry_timer_def dest: avl.holds_nonzero)

end
