(* ===== verification/TimerLink.thy ===== *)
theory TimerLink
  imports TreeSwap
begin

text \<open>
  The heap of timers linked by pointers, \<^verbatim>\<open>src/timerlinkheap/timerlink.c\<close>: a binary tree without
  gaps, in which the place of the last timer is computed from the number of timers.
\<close>

section \<open>Heap\<close>

text \<open>
  A timer is a node of the tree; it has no tag, and its field \<^verbatim>\<open>time64\<close> is an argument \<open>tm\<close> of the
  operations that read it, because the heap never writes it.
\<close>

record timer_linkheap = "unit tree_store" +
  heap_size :: u64

definition timer_linkheap_init :: "timer_linkheap \<Rightarrow> timer_linkheap" where
  "timer_linkheap_init t = t\<lparr>root := 0, heap_size := 0\<rparr>"

definition timer_linkheap_free :: "timer_linkheap \<Rightarrow> timer_linkheap option" where
  "timer_linkheap_free t = (if root t \<noteq> 0 \<or> heap_size t \<noteq> 0 then None else Some t)"

definition timer_linkheap_next_expiry_time :: "(ptr \<Rightarrow> u64) \<Rightarrow> timer_linkheap \<Rightarrow> u64" where
  "timer_linkheap_next_expiry_time tm t = (if root t = 0 then - 1 else tm (root t))"

definition timer_linkheap_next_expiry_timer :: "timer_linkheap \<Rightarrow> ptr" where
  "timer_linkheap_next_expiry_timer t = (if root t = 0 then 0 else root t)"

section \<open>The n-th timer\<close>

definition timer_linkheap_parent :: "u64 \<Rightarrow> u64" where
  "timer_linkheap_parent i = (i - 1) div 2"

lemma unat_parent: "n \<noteq> 0 \<Longrightarrow> unat (timer_linkheap_parent n) = (unat n - 1) div 2"
  by (simp add: timer_linkheap_parent_def unat_div unat_minus_one)

lemma parent_less: "n \<noteq> 0 \<Longrightarrow> unat (timer_linkheap_parent n) < unat n"
  using unat_gt_0 [of n] by (simp add: unat_parent)

text \<open>The array \<^verbatim>\<open>path\<close>, from the timer up to the root: true at an even index, which is that of a right child.\<close>

function heap_path :: "u64 \<Rightarrow> bool list" where
  "heap_path n = (if n \<noteq> 0 then (n mod 2 = 0) # heap_path (timer_linkheap_parent n) else [])"
  by auto
termination by (relation "measure unat") (auto simp: parent_less)

declare heap_path.simps [simp del]

primrec heap_walk :: "timer_linkheap \<Rightarrow> bool list \<Rightarrow> ptr \<Rightarrow> ptr option" where
  "heap_walk t [] link = Some link"
| "heap_walk t (b # bs) link =
     do { m \<leftarrow> node_of t link;
          heap_walk t bs (if b then right m else left m) }"

definition timer_linkheap_nth :: "timer_linkheap \<Rightarrow> u64 \<Rightarrow> ptr option" where
  "timer_linkheap_nth t n = heap_walk t (rev (heap_path n)) (root t)"

definition timer_linkheap_last :: "timer_linkheap \<Rightarrow> ptr option" where
  "timer_linkheap_last t = timer_linkheap_nth t (heap_size t - 1)"

definition timer_linkheap_last_plus_one_parent :: "timer_linkheap \<Rightarrow> ptr option" where
  "timer_linkheap_last_plus_one_parent t = timer_linkheap_nth t (timer_linkheap_parent (heap_size t))"

section \<open>Swapping timers\<close>

definition timer_linkheap_swap_parentchild :: "timer_linkheap \<Rightarrow> ptr \<Rightarrow> ptr \<Rightarrow> timer_linkheap option" where
  "timer_linkheap_swap_parentchild t par child =
     do { c \<leftarrow> node_of t child;
          if parent c \<noteq> par then None
          else do { p \<leftarrow> node_of t par;
            if left p = child
            then do { t \<leftarrow> set_parent t child (parent p);
                      t \<leftarrow> set_left t child par;
                      t \<leftarrow> set_right t child (right p);
                      t \<leftarrow> set_left t par (left c);
                      t \<leftarrow> set_right t par (right c);
                      t \<leftarrow> set_parent t par child;
                      l \<leftarrow> get_left t par;
                      t \<leftarrow> set_parent_if t l par;
                      r \<leftarrow> get_right t par;
                      t \<leftarrow> set_parent_if t r par;
                      r \<leftarrow> get_right t child;
                      t \<leftarrow> set_parent_if t r child;
                      exchange_top t par child }
            else if right p = child
            then do { t \<leftarrow> set_parent t child (parent p);
                      t \<leftarrow> set_left t child (left p);
                      t \<leftarrow> set_right t child par;
                      t \<leftarrow> set_left t par (left c);
                      t \<leftarrow> set_right t par (right c);
                      t \<leftarrow> set_parent t par child;
                      l \<leftarrow> get_left t par;
                      t \<leftarrow> set_parent_if t l par;
                      r \<leftarrow> get_right t par;
                      t \<leftarrow> set_parent_if t r par;
                      l \<leftarrow> get_left t child;
                      t \<leftarrow> set_parent_if t l child;
                      exchange_top t par child }
            else None } }"

text \<open>The pointers to the two timers that are swapped.\<close>

definition heap_swap_children :: "timer_linkheap \<Rightarrow> ptr \<Rightarrow> ptr \<Rightarrow> ptr \<Rightarrow> ptr \<Rightarrow> timer_linkheap option" where
  "heap_swap_children t parent1 parent2 x1 x2 =
     (if parent1 = parent2
      then do { p \<leftarrow> node_of t parent1;
                t \<leftarrow> set_left t parent1 (right p);
                set_right t parent1 (left p) }
      else do { t \<leftarrow> exchange_top t x1 x2;
                exchange_top t x2 x1 })"

definition timer_linkheap_swap :: "timer_linkheap \<Rightarrow> ptr \<Rightarrow> ptr \<Rightarrow> timer_linkheap option" where
  "timer_linkheap_swap t x1 x2 =
     do { m1 \<leftarrow> node_of t x1;
          if parent m1 = x2 then timer_linkheap_swap_parentchild t x2 x1
          else do { m2 \<leftarrow> node_of t x2;
            if parent m2 = x1 then timer_linkheap_swap_parentchild t x1 x2
            else do { t \<leftarrow> set_left t x1 (left m2);
                      t \<leftarrow> set_right t x1 (right m2);
                      t \<leftarrow> set_parent t x1 (parent m2);
                      t \<leftarrow> set_left t x2 (left m1);
                      t \<leftarrow> set_right t x2 (right m1);
                      t \<leftarrow> set_parent t x2 (parent m1);
                      t \<leftarrow> heap_swap_children t (parent m1) (parent m2) x1 x2;
                      l \<leftarrow> get_left t x1;
                      t \<leftarrow> set_parent_if t l x1;
                      r \<leftarrow> get_right t x1;
                      t \<leftarrow> set_parent_if t r x1;
                      l \<leftarrow> get_left t x2;
                      t \<leftarrow> set_parent_if t l x2;
                      r \<leftarrow> get_right t x2;
                      set_parent_if t r x2 } } }"

section \<open>Restoring the order\<close>

partial_function (option) timer_linkheap_siftdown :: "(ptr \<Rightarrow> u64) \<Rightarrow> timer_linkheap \<Rightarrow> ptr \<Rightarrow> timer_linkheap option" where
  "timer_linkheap_siftdown tm t link =
     do { fc \<leftarrow> get_left t link;
          sc \<leftarrow> get_right t link;
          if fc = 0 then Some t
          else if sc = 0
          then if tm fc < tm link
               then do { t \<leftarrow> timer_linkheap_swap_parentchild t link fc;
                         timer_linkheap_siftdown tm t link }
               else Some t
          else let minlink = (if tm fc < tm sc then fc else sc)
               in if tm minlink < tm link
                  then do { t \<leftarrow> timer_linkheap_swap_parentchild t link minlink;
                            timer_linkheap_siftdown tm t link }
                  else Some t }"

partial_function (option) timer_linkheap_siftup :: "(ptr \<Rightarrow> u64) \<Rightarrow> timer_linkheap \<Rightarrow> ptr \<Rightarrow> timer_linkheap option" where
  "timer_linkheap_siftup tm t link =
     do { par \<leftarrow> get_parent t link;
          if par \<noteq> 0
          then if tm par > tm link
               then do { t \<leftarrow> timer_linkheap_swap_parentchild t par link;
                         timer_linkheap_siftup tm t link }
               else Some t
          else Some t }"

partial_function (option) timer_linkheap_verify_tree :: "(ptr \<Rightarrow> u64) \<Rightarrow> timer_linkheap \<Rightarrow> ptr \<Rightarrow> bool option" where
  "timer_linkheap_verify_tree tm t link =
     do { m \<leftarrow> node_of t link;
          if parent m \<noteq> 0 \<and> tm link < tm (parent m) then Some False
          else do { okl \<leftarrow> (if left m \<noteq> 0
                            then do { p \<leftarrow> get_parent t (left m);
                                      if p \<noteq> link then Some False else timer_linkheap_verify_tree tm t (left m) }
                            else Some True);
                    if \<not> okl then Some False
                    else if right m \<noteq> 0
                    then if left m = 0 then Some False
                         else do { p \<leftarrow> get_parent t (right m);
                                   if p \<noteq> link then Some False else timer_linkheap_verify_tree tm t (right m) }
                    else Some True } }"

definition timer_linkheap_verify :: "(ptr \<Rightarrow> u64) \<Rightarrow> timer_linkheap \<Rightarrow> bool option" where
  "timer_linkheap_verify tm t = (if root t \<noteq> 0 then timer_linkheap_verify_tree tm t (root t) else Some True)"

section \<open>Operations\<close>

definition timer_linkheap_modify :: "(ptr \<Rightarrow> u64) \<Rightarrow> timer_linkheap \<Rightarrow> ptr \<Rightarrow> timer_linkheap option" where
  "timer_linkheap_modify tm t timer =
     do { par \<leftarrow> get_parent t timer;
          if par = 0 then timer_linkheap_siftdown tm t timer
          else if tm timer < tm par then timer_linkheap_siftup tm t timer
          else timer_linkheap_siftdown tm t timer }"

text \<open>The statements that cut off the timer in the last place, which differ in a check.\<close>

definition heap_cut_last :: "timer_linkheap \<Rightarrow> ptr \<Rightarrow> timer_linkheap option" where
  "heap_cut_last t timer =
     do { par \<leftarrow> get_parent t timer;
          if par \<noteq> 0
          then do { l \<leftarrow> get_left t par;
                    if l = timer then set_left t par 0
                    else do { r \<leftarrow> get_right t par;
                              if r = timer then set_right t par 0 else None } }
          else Some (t\<lparr>root := 0\<rparr>) }"

definition heap_cut_swapped :: "timer_linkheap \<Rightarrow> ptr \<Rightarrow> timer_linkheap option" where
  "heap_cut_swapped t timer =
     do { par \<leftarrow> get_parent t timer;
          p \<leftarrow> node_of t par;
          t \<leftarrow> (if left p = timer
                then if right p \<noteq> 0 then None else set_left t par 0
                else if right p = timer then set_right t par 0 else None);
          t \<leftarrow> set_parent t timer 0;
          m \<leftarrow> node_of t timer;
          if left m \<noteq> 0 \<or> right m \<noteq> 0 then None else Some t }"

text \<open>The statements after the decrement are those of \<open>timer_linkheap_modify\<close>, for the timer \<open>last\<close>.\<close>

definition timer_linkheap_remove :: "(ptr \<Rightarrow> u64) \<Rightarrow> timer_linkheap \<Rightarrow> ptr \<Rightarrow> timer_linkheap option" where
  "timer_linkheap_remove tm t timer =
     do { last \<leftarrow> timer_linkheap_last t;
          if last = 0 then None
          else do { m \<leftarrow> node_of t last;
            if left m \<noteq> 0 \<or> right m \<noteq> 0 then None
            else if timer = last
            then do { t \<leftarrow> heap_cut_last t timer;
                      Some (t\<lparr>heap_size := heap_size t - 1\<rparr>) }
            else do { t \<leftarrow> timer_linkheap_swap t timer last;
                      t \<leftarrow> heap_cut_swapped t timer;
                      timer_linkheap_modify tm (t\<lparr>heap_size := heap_size t - 1\<rparr>) last } } }"

definition timer_linkheap_add :: "(ptr \<Rightarrow> u64) \<Rightarrow> timer_linkheap \<Rightarrow> ptr \<Rightarrow> timer_linkheap option" where
  "timer_linkheap_add tm t timer =
     do { t \<leftarrow> set_left t timer 0;
          t \<leftarrow> set_right t timer 0;
          if root t = 0
          then do { t \<leftarrow> set_parent (t\<lparr>heap_size := heap_size t + 1\<rparr>) timer 0;
                    Some (t\<lparr>root := timer\<rparr>) }
          else do { new_parent \<leftarrow> timer_linkheap_last_plus_one_parent t;
                    t \<leftarrow> set_parent t timer new_parent;
                    p \<leftarrow> node_of t new_parent;
                    t \<leftarrow> (if left p = 0
                          then do { t \<leftarrow> set_left t new_parent timer;
                                    r \<leftarrow> get_right t new_parent;
                                    if r \<noteq> 0 then None else Some t }
                          else if right p = 0 then set_right t new_parent timer
                          else None);
                    timer_linkheap_siftup tm (t\<lparr>heap_size := heap_size t + 1\<rparr>) timer } }"

end
