(* ===== verification/LinkSwap.thy ===== *)
theory LinkSwap
  imports TimerLink
begin

text \<open>The exchange of two timers of the heap: the store represents the tree with the two addresses swapped.\<close>

lemma rechild_other: "z \<noteq> p \<Longrightarrow> rechild h p n m z = h z"
  by (simp add: rechild_def)

lemma swap_parentchild_exchanged:
  assumes "linked (nodes t) 0 (root t) A" "x \<in> A" "y \<in> A" "parent (nodes t y) = x" "x \<noteq> y"
    and "parent (nodes t x) \<noteq> x" "parent (nodes t x) \<noteq> y"
  shows "\<exists>t'. timer_linkheap_swap_parentchild t x y = Some t' \<and> exchanged x y (nodes t) (nodes t') A \<and>
           root t' = swp x y (root t) \<and> heap_size t' = heap_size t"
proof -
  let ?h = "nodes t"
  note px = linked_pointers [OF assms(1,2)] and py = linked_pointers [OF assms(1,3)]
  define m1 m2 p1 where "m1 = ?h x" and "m2 = ?h y" and "p1 = parent m1"
  have ne: "p1 \<noteq> x" "p1 \<noteq> y" "x \<noteq> 0" "y \<noteq> 0" "parent m2 = x" "left m1 = y \<or> right m1 = y" "left m1 = y \<Longrightarrow> right m1 \<noteq> y"
    "left m2 \<noteq> x" "right m2 \<noteq> x" "left m2 \<noteq> y" "right m2 \<noteq> y" "right m1 \<noteq> x" "left m1 \<noteq> x"
    using assms px(1,4,5,6) py(1,3,4,5) by (auto simp: m1_def m2_def p1_def)
  define L where "L = (left m1 = y)"
  define h1 where "h1 = ?h(y := m2\<lparr>parent := p1, left := if L then x else left m1, right := if L then right m1 else x\<rparr>,
                           x := m1\<lparr>left := left m2, right := right m2, parent := y\<rparr>)"
  define h2 where "h2 = reparent (reparent (reparent h1 (left m2) x) (right m2) x) (if L then right m1 else left m1) y"
  define h3 where "h3 = rechild h2 p1 x y"
  let ?t = "t\<lparr>nodes := h3, root := if p1 = 0 then y else root t\<rparr>"
  have f: "left (h1 x) = left m2" "right (h1 x) = right m2" "right (h1 y) = (if L then right m1 else x)" "left (h1 y) = (if L then x else left m1)"
    using assms(5) by (simp_all add: h1_def)
  have "timer_linkheap_swap_parentchild t x y = exchange_top (t\<lparr>nodes := h2\<rparr>) x y"
  proof (cases L)
    case True
    then have "h1 = ?h(y := m2\<lparr>parent := p1, left := x, right := right m1\<rparr>, x := m1\<lparr>left := left m2, right := right m2, parent := y\<rparr>)"
      by (simp add: h1_def)
    then show ?thesis using True ne(3-5) assms(5) f
      by (simp add: timer_linkheap_swap_parentchild_def m1_def [symmetric] m2_def [symmetric] p1_def [symmetric] h2_def L_def fun_upd_twist)
  next
    case False
    then have "h1 = ?h(y := m2\<lparr>parent := p1, left := left m1, right := x\<rparr>, x := m1\<lparr>left := left m2, right := right m2, parent := y\<rparr>)"
      by (simp add: h1_def)
    then show ?thesis using False ne(3-6) assms(5) f
      by (simp add: timer_linkheap_swap_parentchild_def m1_def [symmetric] m2_def [symmetric] p1_def [symmetric] h2_def L_def fun_upd_twist)
  qed
  moreover have oy: "(if L then right m1 else left m1) \<noteq> y" "(if L then right m1 else left m1) \<noteq> x"
    using ne(7,12,13) by (auto simp: L_def)
  then have "parent (h2 y) = p1" using ne(10,11) assms(5) by (simp add: h2_def h1_def)
  moreover have "p1 \<noteq> 0 \<Longrightarrow> left (h2 p1) = x \<or> right (h2 p1) = x"
    using ne(1,2) px(3) by (simp add: h2_def h1_def p1_def m1_def)
  ultimately have "timer_linkheap_swap_parentchild t x y = Some ?t"
    using exchange_top_eq [of y "t\<lparr>nodes := h2\<rparr>" p1 x] ne by (simp add: h3_def)
  moreover have hy: "h3 y = m2\<lparr>parent := p1, left := if L then x else left m1, right := if L then right m1 else x\<rparr>"
    and hx: "h3 x = m1\<lparr>left := left m2, right := right m2, parent := y\<rparr>"
    using ne(1,2,8-11) oy assms(5) by (simp_all add: h3_def rechild_other h2_def h1_def)
  have "exchanged x y ?h (nodes ?t) A"
  proof (rule exchangedI [OF assms(1-3,5)])
    show "parent (?h x) \<noteq> parent (?h y)" using assms(4,6) by simp
    show "node_is (nodes ?t y) (tag (?h x)) (swp x y (left (?h x))) (swp x y (right (?h x))) (swp x y (parent (?h x)))"
      unfolding m1_def [symmetric] p1_def [symmetric] using ne hy by (cases L) (simp_all add: node_is_def L_def)
    show "node_is (nodes ?t x) (tag (?h y)) (swp x y (left (?h y))) (swp x y (right (?h y))) (swp x y (parent (?h y)))"
      unfolding m2_def [symmetric] using ne hx by (simp add: node_is_def)
    fix z :: ptr assume z: "z \<in> A" "z \<noteq> x" "z \<noteq> y" "z \<noteq> 0"
    have h1: "h1 z = ?h z" "h1 p1 = ?h p1" using z(2,3) ne(1,2) by (simp_all add: h1_def)
    have "left (h3 z) = (if z = p1 \<and> left (?h z) = x then y else left (?h z))"
      "right (h3 z) = (if z = p1 \<and> left (?h z) \<noteq> x then y else right (?h z))" "tag (h3 z) = tag (?h z)"
      using z(4) by (cases "z = p1"; simp add: h3_def h2_def h1)+
    moreover have "parent (h3 z) = (if z = left m1 \<or> z = right m1 then y else if z = left m2 \<or> z = right m2 then x else parent (?h z))"
      using z(3,4) ne(6) by (cases L) (simp_all add: h3_def h2_def h1 L_def)
    ultimately have f: "tag (h3 z) = tag (?h z)" "left (h3 z) = (if z = p1 \<and> left (?h z) = x then y else left (?h z))"
      "right (h3 z) = (if z = p1 \<and> left (?h z) \<noteq> x then y else right (?h z))"
      "parent (h3 z) = (if z = left m1 \<or> z = right m1 then y else if z = left m2 \<or> z = right m2 then x else parent (?h z))" by blast+
    show "tag (nodes ?t z) = tag (?h z) \<and>
       left (nodes ?t z) = (if z = parent (?h x) \<and> left (?h z) = x then y else if z = parent (?h y) \<and> left (?h z) = y then x else left (?h z)) \<and>
       right (nodes ?t z) = (if z = parent (?h x) \<and> left (?h z) \<noteq> x then y else if z = parent (?h y) \<and> left (?h z) \<noteq> y then x else right (?h z)) \<and>
       parent (nodes ?t z) = (if z = left (?h x) \<or> z = right (?h x) then y else if z = left (?h y) \<or> z = right (?h y) then x else parent (?h z))"
      unfolding m1_def [symmetric] m2_def [symmetric] p1_def [symmetric] ne(5) using z(2) by (simp add: f)
  qed
  moreover have "root ?t = swp x y (root t)"
  proof -
    have "root t \<noteq> y" using py(2) ne(3,5) m2_def by metis
    then show ?thesis using px(2) unfolding p1_def m1_def by (cases "root t = x") auto
  qed
  ultimately show ?thesis by (intro exI [of _ ?t]) simp
qed

text \<open>Two children of one node.\<close>

lemma exchangedI_siblings:
  assumes "linked h 0 rt A" "x \<in> A" "y \<in> A" "x \<noteq> y" "parent (h x) = p" "parent (h y) = p" "p \<noteq> x" "p \<noteq> y"
    and "node_is (h' y) (tag (h x)) (left (h x)) (right (h x)) p"
    and "node_is (h' x) (tag (h y)) (left (h y)) (right (h y)) p"
    and "\<And>z. z \<in> A \<Longrightarrow> z \<noteq> x \<Longrightarrow> z \<noteq> y \<Longrightarrow> z \<noteq> 0 \<Longrightarrow>
       tag (h' z) = tag (h z) \<and>
       left (h' z) = (if z = p then right (h z) else left (h z)) \<and>
       right (h' z) = (if z = p then left (h z) else right (h z)) \<and>
       parent (h' z) = (if z = left (h x) \<or> z = right (h x) then y else if z = left (h y) \<or> z = right (h y) then x else parent (h z))"
  shows "exchanged x y h h' A"
  unfolding exchanged_def
proof
  fix z assume z: "z \<in> A"
  note px = linked_pointers [OF assms(1,2)] and py = linked_pointers [OF assms(1,3)] and pz = linked_pointers [OF assms(1) z]
  have sx: "left (h x) \<noteq> x" "left (h x) \<noteq> y" "right (h x) \<noteq> x" "right (h x) \<noteq> y"
    using px(1,4,5) py(1) assms(5-8) by auto
  have sy: "left (h y) \<noteq> x" "left (h y) \<noteq> y" "right (h y) \<noteq> x" "right (h y) \<noteq> y"
    using py(1,4,5) px(1) assms(5-8) by auto
  consider "z = x" | "z = y" | "z \<noteq> x" "z \<noteq> y" by blast
  then show "node_is (h' (swp x y z)) (tag (h z)) (swp x y (left (h z))) (swp x y (right (h z))) (swp x y (parent (h z)))"
  proof cases
    case 3
    note f = assms(11) [OF z 3 pz(1)]
    have pa: "parent (h' z) = swp x y (parent (h z))"
    proof -
      have "w = x \<or> w = y \<Longrightarrow> (z = left (h w) \<or> z = right (h w)) \<longleftrightarrow> parent (h z) = w" for w
        using px(4,5,9) py(4,5,9) z pz(1) by blast
      then show ?thesis using f assms(4) by (simp add: swp_def)
    qed
    show ?thesis
    proof (cases "z = p")
      case True
      have "p \<noteq> 0" using pz(1) True by simp
      then have "left (h p) = x \<or> right (h p) = x" "left (h p) = y \<or> right (h p) = y" using px(3) py(3) assms(5,6) by auto
      then have "right (h p) = swp x y (left (h p))" "left (h p) = swp x y (right (h p))" using assms(4) by auto
      then show ?thesis unfolding swp_simps(3) [OF 3] using f pa True by (simp add: node_is_def)
    next
      case False
      then have "left (h z) \<noteq> x" "left (h z) \<noteq> y" "right (h z) \<noteq> x" "right (h z) \<noteq> y"
        using px(7,8) py(7,8) z assms(5,6) by auto
      then show ?thesis unfolding swp_simps(3) [OF 3] using f pa False by (simp add: node_is_def)
    qed
  qed (use assms(5-10) sx sy in simp_all)
qed

text \<open>Two timers of which neither is the parent of the other: first the fields of the two, then the pointers to them.\<close>

definition crossed :: "(ptr \<Rightarrow> unit tree_node) \<Rightarrow> ptr \<Rightarrow> ptr \<Rightarrow> ptr \<Rightarrow> unit tree_node" where
  "crossed h x y = h(x := (h x)\<lparr>left := left (h y), right := right (h y), parent := parent (h y)\<rparr>,
                     y := (h y)\<lparr>left := left (h x), right := right (h x), parent := parent (h x)\<rparr>)"

definition adopted :: "(ptr \<Rightarrow> unit tree_node) \<Rightarrow> ptr \<Rightarrow> ptr \<Rightarrow> (ptr \<Rightarrow> unit tree_node) \<Rightarrow> ptr \<Rightarrow> unit tree_node" where
  "adopted h x y h' = reparent (reparent (reparent (reparent h' (left (h y)) x) (right (h y)) x) (left (h x)) y) (right (h x)) y"

definition apart :: "(ptr \<Rightarrow> unit tree_node) \<Rightarrow> ptr \<Rightarrow> ptr \<Rightarrow> bool" where
  "apart h x y \<longleftrightarrow> x \<noteq> 0 \<and> y \<noteq> 0 \<and> x \<noteq> y \<and>
     (\<forall>z\<in>{x, y}. parent (h z) \<noteq> x \<and> parent (h z) \<noteq> y \<and> left (h z) \<noteq> x \<and> left (h z) \<noteq> y \<and> right (h z) \<noteq> x \<and> right (h z) \<noteq> y)"

lemma adopted_fields:
  assumes "apart h x y"
  shows "adopted h x y h' x = h' x" "adopted h x y h' y = h' y" "tag (adopted h x y h' z) = tag (h' z)"
    "left (adopted h x y h' z) = left (h' z)" "right (adopted h x y h' z) = right (h' z)"
    "z \<noteq> 0 \<Longrightarrow> parent (adopted h x y h' z) =
       (if z = left (h x) \<or> z = right (h x) then y else if z = left (h y) \<or> z = right (h y) then x else parent (h' z))"
proof -
  have "x \<noteq> left (h y)" "x \<noteq> right (h y)" "x \<noteq> left (h x)" "x \<noteq> right (h x)" "y \<noteq> left (h y)" "y \<noteq> right (h y)" "y \<noteq> left (h x)" "y \<noteq> right (h x)"
    using assms by (auto simp: apart_def)
  then show "adopted h x y h' x = h' x" "adopted h x y h' y = h' y" by (simp_all add: adopted_def)
qed (simp_all add: adopted_def)

lemma crossed_fields:
  assumes "apart h x y"
  shows "crossed h x y y = (h y)\<lparr>left := left (h x), right := right (h x), parent := parent (h x)\<rparr>"
    "crossed h x y x = (h x)\<lparr>left := left (h y), right := right (h y), parent := parent (h y)\<rparr>"
    "z \<noteq> x \<Longrightarrow> z \<noteq> y \<Longrightarrow> crossed h x y z = h z"
    "crossed h x y (parent (h x)) = h (parent (h x))" "crossed h x y (parent (h y)) = h (parent (h y))"
  using assms by (simp_all add: crossed_def apart_def)

lemma swap_apart:
  assumes "apart (nodes t) x y" "h' x = crossed (nodes t) x y x" "h' y = crossed (nodes t) x y y"
    and "heap_swap_children (t\<lparr>nodes := crossed (nodes t) x y\<rparr>) (parent (nodes t x)) (parent (nodes t y)) x y = Some (t\<lparr>nodes := h', root := rt\<rparr>)"
  shows "timer_linkheap_swap t x y = Some (t\<lparr>nodes := adopted (nodes t) x y h', root := rt\<rparr>)"
proof -
  have ne: "x \<noteq> 0" "y \<noteq> 0" "x \<noteq> y" "parent (nodes t x) \<noteq> y" "parent (nodes t y) \<noteq> x" using assms(1) by (simp_all add: apart_def)
  have f: "left (h' x) = left (nodes t y)" "right (h' x) = right (nodes t y)" "left (h' y) = left (nodes t x)" "right (h' y) = right (nodes t x)"
    using assms(2,3) crossed_fields(1,2) [OF assms(1)] by simp_all
  show ?thesis using ne f assms(4) by (simp add: timer_linkheap_swap_def crossed_def [symmetric] adopted_def)
qed

lemma swap_siblings_exchanged:
  assumes "linked (nodes t) 0 (root t) A" "x \<in> A" "y \<in> A" "apart (nodes t) x y" "parent (nodes t x) = parent (nodes t y)"
  shows "\<exists>t'. timer_linkheap_swap t x y = Some t' \<and> exchanged x y (nodes t) (nodes t') A \<and>
           root t' = swp x y (root t) \<and> heap_size t' = heap_size t"
proof -
  let ?h = "nodes t"
  define p h1 where "p = parent (?h x)" and "h1 = crossed ?h x y"
  define h2 where "h2 = h1(p := (?h p)\<lparr>left := right (?h p), right := left (?h p)\<rparr>)"
  note px = linked_pointers [OF assms(1,2)] and py = linked_pointers [OF assms(1,3)]
  note cr = crossed_fields [OF assms(4), folded h1_def] and ad = adopted_fields [OF assms(4)]
  have ne: "x \<noteq> y" "p \<noteq> x" "p \<noteq> y" using assms(4) by (simp_all add: apart_def p_def)
  have p: "parent (?h x) = p" "parent (?h y) = p" "p \<noteq> 0" using px(2) py(2) assms(5) ne(1) by (auto simp: p_def)
  have h2: "h2 x = h1 x" "h2 y = h1 y" using ne(2,3) by (simp_all add: h2_def)
  have "timer_linkheap_swap t x y = Some (t\<lparr>nodes := adopted ?h x y h2, root := root t\<rparr>)"
    using p cr(4) h2 by (intro swap_apart [OF assms(4)]) (simp_all add: heap_swap_children_def h2_def h1_def [symmetric])
  moreover have "exchanged x y ?h (adopted ?h x y h2) A"
  proof (rule exchangedI_siblings [OF assms(1-3) ne(1) p(1,2) ne(2,3)])
    show "node_is (adopted ?h x y h2 y) (tag (?h x)) (left (?h x)) (right (?h x)) p"
      "node_is (adopted ?h x y h2 x) (tag (?h y)) (left (?h y)) (right (?h y)) p"
      using p by (simp_all add: ad(1,2) h2 cr(1,2) node_is_def)
    fix z :: ptr assume z: "z \<noteq> x" "z \<noteq> y" "z \<noteq> 0"
    have "left (h2 z) = (if z = p then right (?h z) else left (?h z))" "right (h2 z) = (if z = p then left (?h z) else right (?h z))"
      "parent (h2 z) = parent (?h z)" using cr(3) [OF z(1,2)] by (simp_all add: h2_def)
    then show "tag (adopted ?h x y h2 z) = tag (?h z) \<and> left (adopted ?h x y h2 z) = (if z = p then right (?h z) else left (?h z)) \<and>
        right (adopted ?h x y h2 z) = (if z = p then left (?h z) else right (?h z)) \<and>
        parent (adopted ?h x y h2 z) = (if z = left (?h x) \<or> z = right (?h x) then y else if z = left (?h y) \<or> z = right (?h y) then x else parent (?h z))"
      by (simp add: ad(3-5) ad(6) [OF z(3)])
  qed
  moreover have "swp x y (root t) = root t" using p px(2) py(2) by (intro swp_simps(3)) auto
  ultimately show ?thesis by simp
qed

lemma swap_far_exchanged:
  assumes "linked (nodes t) 0 (root t) A" "x \<in> A" "y \<in> A" "apart (nodes t) x y" "parent (nodes t x) \<noteq> parent (nodes t y)"
  shows "\<exists>t'. timer_linkheap_swap t x y = Some t' \<and> exchanged x y (nodes t) (nodes t') A \<and>
           root t' = swp x y (root t) \<and> heap_size t' = heap_size t"
proof -
  let ?h = "nodes t" and ?p1 = "parent (nodes t x)" and ?p2 = "parent (nodes t y)"
  define h1 where "h1 = crossed ?h x y"
  define h2 where "h2 = rechild (rechild h1 ?p1 x y) ?p2 y x"
  define rt where "rt = (if ?p2 = 0 then x else if ?p1 = 0 then y else root t)"
  note px = linked_pointers [OF assms(1,2)] and py = linked_pointers [OF assms(1,3)]
  note cr = crossed_fields [OF assms(4), folded h1_def] and ad = adopted_fields [OF assms(4)]
  have ne: "x \<noteq> y" "?p1 \<noteq> x" "?p1 \<noteq> y" "?p2 \<noteq> x" "?p2 \<noteq> y" "x \<noteq> 0" "y \<noteq> 0" and sw: "\<And>z. z \<in> {x, y} \<Longrightarrow>
      swp x y (left (?h z)) = left (?h z) \<and> swp x y (right (?h z)) = right (?h z) \<and> swp x y (parent (?h z)) = parent (?h z)"
    using assms(4) by (auto simp: apart_def)
  have h2: "h2 x = h1 x" "h2 y = h1 y" using ne by (simp_all add: h2_def rechild_other)
  have top1: "exchange_top (t\<lparr>nodes := h1\<rparr>) x y = Some (t\<lparr>nodes := rechild h1 ?p1 x y, root := if ?p1 = 0 then y else root t\<rparr>)"
    using exchange_top_eq [of y "t\<lparr>nodes := h1\<rparr>" ?p1 x] ne(7) cr(1,4) px(3) by simp
  have top2: "exchange_top (t\<lparr>nodes := rechild h1 ?p1 x y, root := r\<rparr>) y x = Some (t\<lparr>nodes := h2, root := if ?p2 = 0 then x else r\<rparr>)" for r
    using exchange_top_eq [of x "t\<lparr>nodes := rechild h1 ?p1 x y, root := r\<rparr>" ?p2 y] ne cr(2,5) py(3) assms(5) root_nodes_commute
    by (simp add: h2_def rechild_other)
  have "timer_linkheap_swap t x y = Some (t\<lparr>nodes := adopted ?h x y h2, root := rt\<rparr>)"
    using assms(5) h2 top1 top2 by (intro swap_apart [OF assms(4)]) (simp_all add: heap_swap_children_def h1_def [symmetric] rt_def)
  moreover have "exchanged x y ?h (adopted ?h x y h2) A"
  proof (rule exchangedI [OF assms(1-3) ne(1) assms(5)])
    show "node_is (adopted ?h x y h2 y) (tag (?h x)) (swp x y (left (?h x))) (swp x y (right (?h x))) (swp x y (parent (?h x)))"
      "node_is (adopted ?h x y h2 x) (tag (?h y)) (swp x y (left (?h y))) (swp x y (right (?h y))) (swp x y (parent (?h y)))"
      using sw by (simp_all add: ad(1,2) h2 cr(1,2) node_is_def)
    fix z :: ptr assume z: "z \<noteq> x" "z \<noteq> y" "z \<noteq> 0"
    have f: "left (h2 z) = (if z = ?p1 \<and> left (?h z) = x then y else if z = ?p2 \<and> left (?h z) = y then x else left (?h z))"
      "right (h2 z) = (if z = ?p1 \<and> left (?h z) \<noteq> x then y else if z = ?p2 \<and> left (?h z) \<noteq> y then x else right (?h z))"
      "parent (h2 z) = parent (?h z)" "tag (h2 z) = tag (?h z)"
      using z(3) assms(5) cr(3) [OF z(1,2)] cr(4,5) by (cases "z = ?p1"; cases "z = ?p2"; simp add: h2_def)+
    show "tag (adopted ?h x y h2 z) = tag (?h z) \<and>
      left (adopted ?h x y h2 z) = (if z = ?p1 \<and> left (?h z) = x then y else if z = ?p2 \<and> left (?h z) = y then x else left (?h z)) \<and>
      right (adopted ?h x y h2 z) = (if z = ?p1 \<and> left (?h z) \<noteq> x then y else if z = ?p2 \<and> left (?h z) \<noteq> y then x else right (?h z)) \<and>
      parent (adopted ?h x y h2 z) = (if z = left (?h x) \<or> z = right (?h x) then y else if z = left (?h y) \<or> z = right (?h y) then x else parent (?h z))"
      by (simp add: ad(3-5) ad(6) [OF z(3)] f)
  qed
  moreover have "rt = swp x y (root t)" using px(2) py(2) ne(1) by (auto simp: rt_def swp_def)
  ultimately show ?thesis by simp
qed

section \<open>Positions\<close>

lemma swap_parentchild_at:
  assumes "at t (N l b x r) (c # C)"
  shows "\<exists>t'. timer_linkheap_swap_parentchild t (crumb_addr c) x = Some t' \<and>
           at t' (N l b (crumb_addr c) r) (readdr x c # C) \<and> heap_size t' = heap_size t"
proof -
  let ?s = "plug (N l b x r) (c # C)"
  have rep: "tree_rep t ?s" using assms by (simp only: at_iff_plug)
  have di: "distinct (addrs (N l b x r) @ crumb_addrs c @ path_addrs C)" using assms by (simp add: at_def)
  have cx: "crumb_addr c \<in> set (crumb_addrs c)" by (cases c) auto
  note nc = at_crumb [OF assms] and nx = at_node [OF assms]
  have li: "linked (nodes t) 0 (root t) (set (addrs ?s))"
    using rep subt_linked [of "nodes t" 0 ?s] by (simp add: tree_rep_def at_def)
  have ne: "crumb_addr c \<noteq> x" "crumb_addr c \<in> set (addrs ?s)" "x \<in> set (addrs ?s)"
    using di cx by (auto simp: set_addrs_plug simp del: plug.simps)
  have pc: "parent (nodes t (crumb_addr c)) \<noteq> crumb_addr c" "parent (nodes t (crumb_addr c)) \<noteq> x"
    using di cx nc(1,3) nx(1) par_of_in [of C] by auto
  have px: "parent (nodes t x) = crumb_addr c" using nx(5) by simp
  obtain t' where
    t': "timer_linkheap_swap_parentchild t (crumb_addr c) x = Some t'" "exchanged (crumb_addr c) x (nodes t) (nodes t') (set (addrs ?s))"
      "root t' = swp (crumb_addr c) x (root t)" "heap_size t' = heap_size t"
    using swap_parentchild_exchanged [OF li ne(2,3) px ne(1) pc] by blast
  have "tree_rep t' (swap_tree (crumb_addr c) x ?s)" using tree_rep_exchanged [OF rep nc(1) nx(1) t'(2,3)] .
  moreover have "swap_tree (crumb_addr c) x ?s = plug (N l b (crumb_addr c) r) (readdr x c # C)"
    using di by (cases c) (auto simp: swap_plug swap_tree_id swap_crumbs_id)
  ultimately show ?thesis using t' by (simp only: at_iff_plug) blast
qed

lemma parent_acyclic:
  assumes "tree_rep t s" "x \<in> set (addrs s)"
  shows "parent (nodes t x) \<noteq> x" "parent (nodes t x) \<noteq> 0 \<Longrightarrow> parent (nodes t (parent (nodes t x))) \<noteq> x"
proof -
  obtain l b r C where C: "s = plug (N l b x r) C" using node_position [OF assms(2)] by blast
  then have at: "at t (N l b x r) C" using assms(1) by (simp add: at_iff_plug)
  then have "x \<notin> set (path_addrs C)" by (simp add: at_def)
  then show "parent (nodes t x) \<noteq> x" using at_node(1,5) [OF at] par_of_in [of C] by auto
  assume "parent (nodes t x) \<noteq> 0"
  then obtain c D where D: "C = c # D" using at_node(5) [OF at] by (cases C) auto
  then show "parent (nodes t (parent (nodes t x))) \<noteq> x"
    using at_crumb(3) [of t _ c D] at at_node(1,5) [OF at] par_of_in [of D] \<open>x \<notin> set (path_addrs C)\<close> by auto
qed

lemma heap_swap_rep:
  assumes "tree_rep t s" "x \<in> set (addrs s)" "y \<in> set (addrs s)" "x \<noteq> y"
  shows "\<exists>t'. timer_linkheap_swap t x y = Some t' \<and> tree_rep t' (swap_tree x y s) \<and> heap_size t' = heap_size t"
proof -
  let ?p = "\<lambda>z. parent (nodes t z)"
  have li: "linked (nodes t) 0 (root t) (set (addrs s))"
    using assms(1) subt_linked [of "nodes t" 0 s] by (simp add: tree_rep_def at_def)
  note px = linked_pointers [OF li assms(2)] and py = linked_pointers [OF li assms(3)]
  note ax = parent_acyclic [OF assms(1,2)] and ay = parent_acyclic [OF assms(1,3)]
  have swp_sym: "swp y x = swp x y" using assms(4) by (auto simp: swp_def)
  have "\<exists>t'. timer_linkheap_swap t x y = Some t' \<and> exchanged x y (nodes t) (nodes t') (set (addrs s)) \<and>
           root t' = swp x y (root t) \<and> heap_size t' = heap_size t"
  proof -
    consider "?p x = y" | "?p y = x" "?p x \<noteq> y" | "?p x \<noteq> y" "?p y \<noteq> x" by blast
    then show ?thesis
    proof cases
      case 1
      then have "?p y \<noteq> x" using ax(2) py(1) by simp
      from swap_parentchild_exchanged [OF li assms(3,2) 1 _ ay(1) this] show ?thesis
        using 1 px(1) py(1) assms(4) by (simp add: timer_linkheap_swap_def swp_sym exchanged_def)
    next
      case 2
      from swap_parentchild_exchanged [OF li assms(2,3) 2(1) assms(4) ax(1) 2(2)] show ?thesis
        using 2 px(1) py(1) by (simp add: timer_linkheap_swap_def)
    next
      case 3
      have "apart (nodes t) x y" using 3 px(1,4,5) py(1,4,5) ax(1) ay(1) assms(4) by (auto simp: apart_def)
      then show ?thesis using swap_siblings_exchanged [OF li assms(2,3)] swap_far_exchanged [OF li assms(2,3)] by blast
    qed
  qed
  then show ?thesis using tree_rep_exchanged [OF assms(1) px(1) py(1)] by blast
qed

end
