(* ===== verification/LinkHeap.thy ===== *)
theory LinkHeap
  imports LinkSwap Timers
begin

text \<open>
  Correctness of the linked heap: the tree has no gaps, so that the place of the last timer can be
  computed, and no timer expires before the one above it.
\<close>

section \<open>Trees without gaps\<close>

text \<open>The subtree at the index \<open>i\<close> of a tree whose nodes are those with an index below \<open>n\<close>.\<close>

fun full :: "nat \<Rightarrow> nat \<Rightarrow> 'b ptree \<Rightarrow> bool" where
  "full n i E = (n \<le> i)"
| "full n i (N l b x r) = (i < n \<and> full n (2 * i + 1) l \<and> full n (2 * i + 2) r)"

fun hidx :: "'b crumb list \<Rightarrow> nat" where
  "hidx [] = 0"
| "hidx (InL b x r # C) = 2 * hidx C + 1"
| "hidx (InR l b x # C) = 2 * hidx C + 2"

fun full_path :: "nat \<Rightarrow> 'b crumb list \<Rightarrow> bool" where
  "full_path n [] = True"
| "full_path n (InL b x r # C) = (hidx C < n \<and> full n (2 * hidx C + 2) r \<and> full_path n C)"
| "full_path n (InR l b x # C) = (hidx C < n \<and> full n (2 * hidx C + 1) l \<and> full_path n C)"

lemma full_plug: "full n 0 (plug s C) \<longleftrightarrow> full n (hidx C) s \<and> full_path n C"
proof (induction C arbitrary: s)
  case (Cons c C)
  then show ?case by (cases c) auto
qed simp

lemma full_E: "full n i s \<Longrightarrow> s = E \<longleftrightarrow> n \<le> i"
  by (cases s) auto

text \<open>The indices in the subtree at the index \<open>j\<close>.\<close>

fun below :: "nat \<Rightarrow> nat \<Rightarrow> bool" where
  "below j k = (if j < k then below j ((k - 1) div 2) else k = j)"

declare below.simps [simp del]

lemma below_refl [simp]: "below j j"
  by (subst below.simps) simp

lemma below_le: "below j k \<Longrightarrow> j \<le> k"
  by (subst (asm) below.simps) (auto split: if_splits)

lemma below_left: "below (2 * j + 1) k \<Longrightarrow> below j k"
proof (induction k rule: less_induct)
  case (less k)
  then consider "k = 2 * j + 1" | "2 * j + 1 < k" "below (2 * j + 1) ((k - 1) div 2)"
    using below.simps [of "2 * j + 1" k] by (auto split: if_splits)
  then show ?case
  proof cases
    case 1
    then show ?thesis by (subst below.simps) simp
  next
    case 2
    then show ?thesis using less.IH [of "(k - 1) div 2"] by (subst below.simps) simp
  qed
qed

lemma below_right: "below (2 * j + 2) k \<Longrightarrow> below j k"
proof (induction k rule: less_induct)
  case (less k)
  then consider "k = 2 * j + 2" | "2 * j + 2 < k" "below (2 * j + 2) ((k - 1) div 2)"
    using below.simps [of "2 * j + 2" k] by (auto split: if_splits)
  then show ?case
  proof cases
    case 1
    then show ?thesis by (subst below.simps) simp
  next
    case 2
    then show ?thesis using less.IH [of "(k - 1) div 2"] by (subst below.simps) simp
  qed
qed

lemma below_sides: "below (2 * j + 1) k \<Longrightarrow> \<not> below (2 * j + 2) k"
proof (induction k rule: less_induct)
  case (less k)
  show ?case
  proof (cases "k \<le> 2 * j + 2")
    case True
    then have "k = 2 * j + 1 \<or> k = 2 * j + 2" using below_le [OF less.prems] by auto
    then show ?thesis
    proof
      assume "k = 2 * j + 2"
      then have "(k - 1) div 2 = j" by simp
      then show ?thesis using less.prems below_le [of "2 * j + 1" j] \<open>k = 2 * j + 2\<close> by (subst (asm) below.simps) simp
    qed (auto dest: below_le)
  next
    case False
    then have "below (2 * j + 1) ((k - 1) div 2)" using less.prems by (subst (asm) below.simps) auto
    then have "\<not> below (2 * j + 2) ((k - 1) div 2)" using False by (intro less.IH) auto
    then show ?thesis using False by (subst below.simps) simp
  qed
qed

lemma full_Suc: "\<not> below i n \<Longrightarrow> full (Suc n) i s \<longleftrightarrow> full n i s"
proof (induction s arbitrary: i)
  case E
  have "i \<noteq> n" using E by auto
  then show ?case by auto
next
  case (N l b x r)
  have "i \<noteq> n" using N.prems by auto
  then show ?case using N below_left [of i n] below_right [of i n] by (auto simp: less_Suc_eq)
qed

lemma full_path_Suc: "below (hidx C) n \<Longrightarrow> full_path (Suc n) C \<longleftrightarrow> full_path n C"
proof (induction C)
  case (Cons c C)
  show ?case
  proof (cases c)
    case (InL b x r)
    then have "\<not> below (2 * hidx C + 2) n" "below (hidx C) n" "hidx C < n"
      using Cons.prems below_sides [of "hidx C" n] below_left [of "hidx C" n] below_le [of "2 * hidx C + 1" n] by auto
    then show ?thesis using InL Cons.IH full_Suc [of "2 * hidx C + 2" n r] by auto
  next
    case (InR l b x)
    then have "\<not> below (2 * hidx C + 1) n" "below (hidx C) n" "hidx C < n"
      using Cons.prems below_sides [of "hidx C" n] below_right [of "hidx C" n] below_le [of "2 * hidx C + 2" n] by auto
    then show ?thesis using InR Cons.IH full_Suc [of "2 * hidx C + 1" n l] by auto
  qed
qed simp

text \<open>A leaf in the last place can be added or removed.\<close>

lemma full_last: "hidx C = n \<Longrightarrow> full (Suc n) 0 (plug (N E b x E) C) \<longleftrightarrow> full n 0 (plug E C)"
  by (simp add: full_plug full_path_Suc)

lemma full_swap [simp]: "full n i (swap_tree x y s) \<longleftrightarrow> full n i s"
  by (induction s arbitrary: i) auto

section \<open>The n-th timer\<close>

lemma heap_path_0 [simp]: "heap_path 0 = []"
  by (simp add: heap_path.simps)

lemma heap_path_length: "length (heap_path n) \<le> k" if "unat n + 1 < 2 ^ Suc k"
  using that
proof (induction k arbitrary: n)
  case 0
  then show ?case by (simp add: unat_eq_0)
next
  case (Suc k)
  show ?case
  proof (cases "n = 0")
    case False
    then have "unat (timer_linkheap_parent n) + 1 < 2 ^ Suc k" using Suc.prems unat_gt_0 [of n] by (simp add: unat_parent)
    then show ?thesis using Suc.IH [of "timer_linkheap_parent n"] False by (simp add: heap_path.simps [of n])
  qed simp
qed

text \<open>The path of every index fits into the array of 64 entries.\<close>

lemma heap_path_bound: "length (heap_path n) \<le> 64"
  by (rule heap_path_length) (use unsigned_less [where 'a = nat, of n] in simp)

lemma heap_walk_append: "heap_walk t (xs @ ys) p = do { q \<leftarrow> heap_walk t xs p; heap_walk t ys q }"
  by (induction xs arbitrary: p) (auto simp: Option.bind_assoc)

lemma even_word: "(n :: u64) mod 2 = 0 \<longleftrightarrow> even (unat n)"
  by (simp add: unat_eq_0 [symmetric] unat_mod even_iff_mod_2_eq_zero)

lemma nth_at:
  assumes "tree_rep t s" "full n 0 s" "k = 0 \<or> unat (timer_linkheap_parent k) < n"
  shows "\<exists>u C. s = plug u C \<and> hidx C = unat k \<and> timer_linkheap_nth t k = Some (addr_of u)"
  using assms(3)
proof (induction "unat k" arbitrary: k rule: less_induct)
  case less
  show ?case
  proof (cases "k = 0")
    case True
    then show ?thesis using assms(1) by (intro exI [of _ s] exI [of _ "[]"]) (simp add: timer_linkheap_nth_def tree_rep_def at_def)
  next
    case False
    let ?p = "timer_linkheap_parent k"
    have p: "unat ?p < n" using less.prems False by simp
    then have "?p = 0 \<or> unat (timer_linkheap_parent ?p) < n" using parent_less [of ?p] by (metis less_trans)
    from less.hyps [OF parent_less [OF False] this] obtain u C where
      u: "s = plug u C" "hidx C = unat ?p" "timer_linkheap_nth t ?p = Some (addr_of u)" by blast
    have "u \<noteq> E" using assms(2) p u(1,2) full_E by (auto simp: full_plug)
    then obtain l b x r where N: "u = N l b x r" by (cases u) auto
    have "at t (N l b x r) C" using assms(1) u(1) N by (simp add: at_iff_plug)
    note nx = at_node [OF this]
    have walk: "timer_linkheap_nth t k = Some (if even (unat k) then addr_of r else addr_of l)"
      using u(3) False nx N by (simp add: timer_linkheap_nth_def heap_path.simps [of k] heap_walk_append even_word)
    have k: "unat k = 2 * ((unat k - 1) div 2) + (if even (unat k) then 2 else 1)"
      using unat_gt_0 [of k] False by (auto elim!: evenE oddE)
    show ?thesis
    proof (cases "even (unat k)")
      case True
      then show ?thesis using u(1,2) N walk k unat_parent [OF False] by (intro exI [of _ r] exI [of _ "InR l b x # C"]) simp
    next
      case odd: False
      then show ?thesis using u(1,2) N walk k unat_parent [OF False] by (intro exI [of _ l] exI [of _ "InL b x r # C"]) simp
    qed
  qed
qed

section \<open>The order of the timers\<close>

text \<open>No timer of the subtree expires before \<open>k\<close> or before the timer above it.\<close>

fun heapo :: "(ptr \<Rightarrow> u64) \<Rightarrow> u64 \<Rightarrow> 'b ptree \<Rightarrow> bool" where
  "heapo tm k E = True"
| "heapo tm k (N l b x r) = (k \<le> tm x \<and> heapo tm (tm x) l \<and> heapo tm (tm x) r)"

fun ckey :: "(ptr \<Rightarrow> u64) \<Rightarrow> 'b crumb list \<Rightarrow> u64" where
  "ckey tm [] = 0"
| "ckey tm (c # C) = tm (crumb_addr c)"

fun hpath :: "(ptr \<Rightarrow> u64) \<Rightarrow> 'b crumb list \<Rightarrow> bool" where
  "hpath tm [] = True"
| "hpath tm (c # C) = (ckey tm C \<le> tm (crumb_addr c) \<and> heapo tm (tm (crumb_addr c)) (crumb_tree c) \<and> hpath tm C)"

lemma heapo_plug1: "heapo tm k (plug1 c s) \<longleftrightarrow> k \<le> tm (crumb_addr c) \<and> heapo tm (tm (crumb_addr c)) (crumb_tree c) \<and> heapo tm (tm (crumb_addr c)) s"
  by (cases c) auto

lemma heapo_plug: "heapo tm 0 (plug s C) \<longleftrightarrow> heapo tm (ckey tm C) s \<and> hpath tm C"
  by (induction C arbitrary: s) (auto simp: heapo_plug1)

lemma heapo_mono: "heapo tm k s \<Longrightarrow> k' \<le> k \<Longrightarrow> heapo tm k' s"
  by (cases s) auto

lemma heapo_le: "heapo tm k s \<Longrightarrow> y \<in> set (addrs s) \<Longrightarrow> k \<le> tm y"
proof (induction s arbitrary: k)
  case (N l b x r)
  then show ?case using order_trans [of k "tm x" "tm y"] by auto
qed simp

lemma heapo_cong: "(\<And>y. y \<in> set (addrs s) \<Longrightarrow> tm' y = tm y) \<Longrightarrow> heapo tm' k s \<longleftrightarrow> heapo tm k s"
  by (induction s arbitrary: k) auto

lemma hpath_cong: "(\<And>y. y \<in> set (path_addrs C) \<Longrightarrow> tm' y = tm y) \<Longrightarrow> hpath tm' C \<longleftrightarrow> hpath tm C"
  and ckey_cong: "(\<And>y. y \<in> set (path_addrs C) \<Longrightarrow> tm' y = tm y) \<Longrightarrow> ckey tm' C = ckey tm C"
proof (induction C)
  case (Cons c C)
  have c: "crumb_addr c \<in> set (crumb_addrs c)" "set (addrs (crumb_tree c)) \<subseteq> set (crumb_addrs c)" by (cases c; auto)+
  { case 1
    have "heapo tm' k (crumb_tree c) \<longleftrightarrow> heapo tm k (crumb_tree c)" for k using 1 c(2) by (intro heapo_cong) auto
    then show ?case using 1 Cons.IH c(1) by auto
  next
    case 2
    then show ?case using c by auto }
qed simp_all

lemma heapo_swap: "heapo tm k (swap_tree x y s) \<longleftrightarrow> heapo (\<lambda>z. tm (swp x y z)) k s"
  by (induction s arbitrary: k) auto

text \<open>A rearrangement of the timers of \<open>s\<close> that is in order.\<close>

definition sifted :: "(ptr \<Rightarrow> u64) \<Rightarrow> timer_linkheap \<Rightarrow> unit ptree \<Rightarrow> timer_linkheap option \<Rightarrow> bool" where
  "sifted tm t s res \<longleftrightarrow>
     (\<exists>t' s'. res = Some t' \<and> tree_rep t' s' \<and> heapo tm 0 s' \<and> set (addrs s') = set (addrs s) \<and>
        (\<forall>n. full n 0 s' \<longleftrightarrow> full n 0 s) \<and> heap_size t' = heap_size t)"

lemma sifted_stop: "at t s C \<Longrightarrow> heapo tm 0 (plug s C) \<Longrightarrow> sifted tm t (plug s C) (Some t)"
  by (auto simp: sifted_def at_iff_plug)

lemma hidx_readdr [simp]: "hidx (readdr y c # C) = hidx (c # C)" "full_path n (readdr y c # C) = full_path n (c # C)"
  by (cases c; simp)+

lemma readdr_simps [simp]: "crumb_addr (readdr y c) = y" "crumb_tree (readdr y c) = crumb_tree c"
  by (cases c; simp)+

lemma full_node: "full n i (N l b x r) \<longleftrightarrow> full n i (N l b' x' r)"
  by simp

text \<open>After one step of a sift the rest of it starts from the tree with the two timers swapped.\<close>

lemma sifted_step:
  assumes "sifted tm t' (plug (N l b p r) (readdr x c # C)) res" "crumb_addr c = p" "heap_size t' = heap_size t"
  shows "sifted tm t (plug (N l b x r) (c # C)) res"
proof -
  have "set (addrs (plug (N l b p r) (readdr x c # C))) = set (addrs (plug (N l b x r) (c # C)))"
    using assms(2) by (cases c) (auto simp: set_addrs_plug simp del: plug.simps)
  moreover have "full n 0 (plug (N l b p r) (readdr x c # C)) \<longleftrightarrow> full n 0 (plug (N l b x r) (c # C))" for n
    by (simp add: full_plug del: plug.simps)
  ultimately show ?thesis using assms(1,3) unfolding sifted_def by metis
qed

lemma siftup_sifted:
  assumes "at t (N l b x r) C" "hpath tm C" "heapo tm (ckey tm C) l" "heapo tm (ckey tm C) r" "heapo tm (tm x) l" "heapo tm (tm x) r"
  shows "sifted tm t (plug (N l b x r) C) (timer_linkheap_siftup tm t x)"
  using assms
proof (induction C arbitrary: t l b r)
  case Nil
  then show ?case using at_node [OF Nil.prems(1)] sifted_stop [OF Nil.prems(1), of tm]
    by (subst timer_linkheap_siftup.simps) simp
next
  case (Cons c C)
  note nx = at_node [OF Cons.prems(1)] and nc = at_crumb [OF Cons.prems(1)]
  let ?p = "crumb_addr c"
  show ?case
  proof (cases "tm x < tm ?p")
    case True
    obtain t' where t': "timer_linkheap_swap_parentchild t ?p x = Some t'" "at t' (N l b ?p r) (readdr x c # C)" "heap_size t' = heap_size t"
      using swap_parentchild_at [OF Cons.prems(1)] by blast
    have k: "ckey tm C \<le> tm ?p" "heapo tm (tm ?p) (crumb_tree c)" "hpath tm C" using Cons.prems(2) by simp_all
    have sub: "heapo tm (ckey tm C) (N l b ?p r)" "heapo tm (tm x) (N l b ?p r)" "heapo tm (ckey tm C) (crumb_tree c)" "heapo tm (tm x) (crumb_tree c)"
      using Cons.prems(3,4) k True heapo_mono [OF k(2), of "ckey tm C"] heapo_mono [OF k(2), of "tm x"] by simp_all
    have "sifted tm t' (plug (N l b ?p r) (readdr x c # C)) (timer_linkheap_siftup tm t' x)"
      using t'(2) Cons.IH [of t' "N l b ?p r" _ "crumb_tree c"] Cons.IH [of t' "crumb_tree c" _ "N l b ?p r"] sub k(3)
      by (cases c) (simp_all add: at_up)
    from sifted_step [OF this refl t'(3)] show ?thesis using True nx(1,5) nc(1) t'(1)
      by (subst timer_linkheap_siftup.simps) (simp del: plug.simps)
  next
    case False
    then have "heapo tm 0 (plug (N l b x r) (c # C))" using Cons.prems(2-) by (simp add: heapo_plug del: plug.simps)
    then show ?thesis using False nx(1,5) nc(1) sifted_stop [OF Cons.prems(1)]
      by (subst timer_linkheap_siftup.simps) (simp del: plug.simps)
  qed
qed

lemma readdr_mk [simp]: "readdr y (mk d b x u) = mk d b y u"
  by (cases d) simp_all

lemma siftdown_step:
  assumes at: "at t (N l b' c r) (mk d b x far # C)" and lt: "tm c < tm x" and le: "far \<noteq> E \<Longrightarrow> tm c \<le> tm (addr_of far)"
    and ho: "hpath tm C" "heapo tm (ckey tm C) (N l b' c r)" "heapo tm (ckey tm C) far"
    and down: "\<And>t'. at t' (N l b' x r) (mk d b c far # C) \<Longrightarrow> hpath tm (mk d b c far # C) \<Longrightarrow> tm c \<le> tm x \<Longrightarrow>
      heapo tm (tm c) l \<Longrightarrow> heapo tm (tm c) r \<Longrightarrow> sifted tm t' (plug (N l b' x r) (mk d b c far # C)) (timer_linkheap_siftdown tm t' x)"
  shows "sifted tm t (plug (N l b' c r) (mk d b x far # C))
           (do { t \<leftarrow> timer_linkheap_swap_parentchild t x c; timer_linkheap_siftdown tm t x })"
proof -
  obtain t' where t': "timer_linkheap_swap_parentchild t x c = Some t'" "at t' (N l b' x r) (mk d b c far # C)" "heap_size t' = heap_size t"
    using swap_parentchild_at [OF at] by auto
  have "heapo tm (tm c) far" using le ho(3) by (cases far) auto
  then have "hpath tm (mk d b c far # C)" using ho(1,2) by simp
  from down [OF t'(2) this] have "sifted tm t' (plug (N l b' x r) (mk d b c far # C)) (timer_linkheap_siftdown tm t' x)"
    using lt ho(2) by simp
  then show ?thesis using sifted_step [of tm t' l b' x r c "mk d b x far" C _ t] t'(1,3) by (simp del: plug.simps)
qed

lemma siftdown_sifted:
  assumes "at t (N l b x r) C" "full n 0 (plug (N l b x r) C)" "hpath tm C" "ckey tm C \<le> tm x" "heapo tm (ckey tm C) l" "heapo tm (ckey tm C) r"
  shows "sifted tm t (plug (N l b x r) C) (timer_linkheap_siftdown tm t x)"
  using assms
proof (induction "length (addrs l @ addrs r)" arbitrary: t l b r C rule: less_induct)
  case less
  note nx = at_node [OF less.prems(1)]
  have atl: "at t l (mk True b x r # C)" and atr: "at t r (mk False b x l # C)" using less.prems(1) by (simp_all add: at_up)
  note e = at_addr_0 [OF atl] at_addr_0 [OF atr]
  have gap: "l = E \<Longrightarrow> r = E" using less.prems(2) full_E [of n "2 * hidx C + 2" r] by (auto simp: full_plug)
  have stop: "sifted tm t (plug (N l b x r) C) (Some t)"
    if "l \<noteq> E \<Longrightarrow> tm x \<le> tm (addr_of l)" "r \<noteq> E \<Longrightarrow> tm x \<le> tm (addr_of r)"
  proof -
    have "heapo tm (tm x) l" "heapo tm (tm x) r" using that less.prems(5,6) by (cases l; cases r; auto)+
    then show ?thesis using less.prems(3,4) by (intro sifted_stop [OF less.prems(1)]) (simp add: heapo_plug)
  qed
  have step: "sifted tm t (plug (N l b x r) C) (do { t \<leftarrow> timer_linkheap_swap_parentchild t x (addr_of near); timer_linkheap_siftdown tm t x })"
    if eq: "N l b x r = plug1 (mk d b x far) near" and near: "near \<noteq> E" "tm (addr_of near) < tm x" "far \<noteq> E \<Longrightarrow> tm (addr_of near) \<le> tm (addr_of far)"
    for d near far
  proof -
    obtain l' b' c r' where N: "near = N l' b' c r'" using near(1) by (cases near) auto
    have at: "at t (N l' b' c r') (mk d b x far # C)" using less.prems(1) unfolding eq N by (simp add: at_up)
    have ho: "heapo tm (ckey tm C) (N l' b' c r')" "heapo tm (ckey tm C) far" using less.prems(5,6) eq N by (cases d; simp)+
    have len: "length (addrs l' @ addrs r') < length (addrs l @ addrs r)" using eq N by (cases d) auto
    have fu: "full n 0 (plug (N l' b' x r') (mk d b c far # C))" using less.prems(2) unfolding eq N by (cases d) (simp_all add: full_plug)
    have "sifted tm t' (plug (N l' b' x r') (mk d b c far # C)) (timer_linkheap_siftdown tm t' x)"
      if "at t' (N l' b' x r') (mk d b c far # C)" "hpath tm (mk d b c far # C)" "tm c \<le> tm x" "heapo tm (tm c) l'" "heapo tm (tm c) r'" for t'
      using less.hyps [OF len that(1) fu that(2)] that(3-5) by simp
    from siftdown_step [OF at _ _ less.prems(3) ho this] near(2,3) show ?thesis unfolding eq N by simp
  qed
  note left = step [of True r l] and right = step [of False l r]
  show ?case using nx e gap stop left right
    by (subst timer_linkheap_siftdown.simps) (cases "l = E"; cases "r = E"; auto simp: Let_def not_less)
qed

text \<open>A timer whose time changed is moved to its place, by sifting it up or down.\<close>

lemma modify_sifted:
  assumes "tree_rep t s" "heapo tm0 0 s" "full n 0 s" "x \<in> set (addrs s)" "\<And>y. y \<in> set (addrs s) \<Longrightarrow> y \<noteq> x \<Longrightarrow> tm y = tm0 y"
  shows "sifted tm t s (timer_linkheap_modify tm t x)"
proof -
  obtain l b r C where s: "s = plug (N l b x r) C" using node_position [OF assms(4)] by blast
  have at: "at t (N l b x r) C" using assms(1) s by (simp add: at_iff_plug)
  have di: "x \<notin> set (addrs l)" "x \<notin> set (addrs r)" "x \<notin> set (path_addrs C)" using at by (auto simp: at_def)
  have su: "set (addrs s) = set (addrs l) \<union> {x} \<union> set (addrs r) \<union> set (path_addrs C)" unfolding s by (auto simp: set_addrs_plug)
  have same: "hpath tm C = hpath tm0 C" "ckey tm C = ckey tm0 C" "\<And>k. heapo tm k l = heapo tm0 k l" "\<And>k. heapo tm k r = heapo tm0 k r"
    using di assms(5) su by (auto intro!: hpath_cong ckey_cong heapo_cong)
  have o: "hpath tm0 C" "ckey tm0 C \<le> tm0 x" "heapo tm0 (tm0 x) l" "heapo tm0 (tm0 x) r"
    using assms(2) unfolding s by (simp_all add: heapo_plug)
  have ck: "heapo tm0 (ckey tm0 C) l" "heapo tm0 (ckey tm0 C) r" using o(2-4) heapo_mono by blast+
  have up: "sifted tm t s (timer_linkheap_siftup tm t x)" if "tm x \<le> ckey tm C"
    using that o ck same heapo_mono [OF ck(1), of "tm x"] heapo_mono [OF ck(2), of "tm x"] unfolding s by (intro siftup_sifted [OF at]) auto
  have down: "sifted tm t s (timer_linkheap_siftdown tm t x)" if "ckey tm C \<le> tm x"
    using that o ck same assms(3) unfolding s by (intro siftdown_sifted [OF at]) auto
  note nx = at_node [OF at]
  show ?thesis
  proof (cases C)
    case Nil
    then show ?thesis using nx down by (simp add: timer_linkheap_modify_def)
  next
    case (Cons c D)
    then have "crumb_addr c \<noteq> 0" using at at_crumb(1) by blast
    then show ?thesis using nx up down Cons by (simp add: timer_linkheap_modify_def not_less)
  qed
qed

section \<open>Adding and removing\<close>

definition heap_ok :: "(ptr \<Rightarrow> u64) \<Rightarrow> timer_linkheap \<Rightarrow> ptr set \<Rightarrow> bool" where
  "heap_ok tm t A \<longleftrightarrow>
     (\<exists>s. tree_rep t s \<and> heapo tm 0 s \<and> A = set (addrs s) \<and> full (card A) 0 s \<and> unat (heap_size t) = card A)"

lemma at_heap_size [simp]: "at (t\<lparr>heap_size := n\<rparr>) s C \<longleftrightarrow> at t s C" "tree_rep (t\<lparr>heap_size := n\<rparr>) s \<longleftrightarrow> tree_rep t s"
  by (simp_all add: at_def tree_rep_def)

lemma sifted_ok:
  assumes "sifted tm t s res" "set (addrs s) = A" "full (card A) 0 s" "unat (heap_size t) = card A"
  shows "\<exists>t'. res = Some t' \<and> heap_ok tm t' A"
  using assms unfolding sifted_def heap_ok_def by metis

lemma link_leaf_size: "link_leaf t x c = Some t' \<Longrightarrow> heap_size t' = heap_size (t :: timer_linkheap)"
  by (auto simp: link_leaf_def set_left_def set_right_def set_parent_def set_node_def split: crumb.splits if_splits bind_splits)

text \<open>The new timer is linked in the first free place.\<close>

lemma add_links:
  assumes "tree_rep t s" "s \<noteq> E" "full n 0 s" "unat (heap_size t) = n" "new_leaf t () x" "x \<notin> set (addrs s)"
    and t: "t = t0\<lparr>nodes := (nodes t0)(x := (nodes t0 x)\<lparr>left := 0, right := 0\<rparr>)\<rparr>"
  obtains t' C where "timer_linkheap_add tm t0 x = timer_linkheap_siftup tm (t'\<lparr>heap_size := heap_size t' + 1\<rparr>) x"
    "at t' (N E () x E) C" "plug E C = s" "hidx C = n" "heap_size t' = heap_size t"
proof -
  let ?k = "timer_linkheap_parent (heap_size t)"
  have n: "heap_size t \<noteq> 0" "0 < n" using assms(2-4) full_E [OF assms(3)] by (auto simp: unat_eq_0)
  then have k: "unat ?k = (n - 1) div 2" using unat_parent assms(4) by simp
  have "?k = 0 \<or> unat (timer_linkheap_parent ?k) < n" using k n(2) parent_less [of ?k] by (cases "?k = 0") auto
  from nth_at [OF assms(1,3) this] obtain u C where
    u: "s = plug u C" "hidx C = (n - 1) div 2" "timer_linkheap_nth t ?k = Some (addr_of u)" using k by auto
  have fu: "full n ((n - 1) div 2) u" using assms(3) u(1,2) by (simp add: full_plug)
  then obtain l y r where N: "u = N l () y r" using n(2) by (cases u) auto
  have at: "at t (N l () y r) C" using assms(1) u(1) N by (simp add: at_iff_plug)
  note ny = at_node [OF at]
  have x: "x \<noteq> 0" "left (nodes t x) = 0" "right (nodes t x) = 0" "x \<noteq> y" "y \<noteq> x"
    using assms(5,6) u(1) N by (auto simp: new_leaf_def set_addrs_plug)
  define c where "c = (if l = E then InL () y r else InR l () y)"
  have er: "r = E" and nc: "plug E (c # C) = s" "hidx (c # C) = n"
  proof -
    have b: "n \<le> 2 * ((n - 1) div 2) + 2" "2 * ((n - 1) div 2) + 1 \<le> n" using n(2) by linarith+
    show "r = E" using b(1) fu N by (cases r) auto
    have "full n (2 * ((n - 1) div 2) + 1) l" using fu N by simp
    from full_E [OF this] have "n = 2 * ((n - 1) div 2) + (if l = E then 1 else 2)" using b by (cases "l = E"; simp only: if_True if_False) linarith+
    then have "n = 2 * hidx C + (if l = E then 1 else 2)" unfolding u(2) .
    then show "hidx (c # C) = n" by (simp add: c_def)
    show "plug E (c # C) = s" using u(1) N \<open>r = E\<close> by (simp add: c_def)
  qed
  have ca: "crumb_addr c = y" by (simp add: c_def)
  have "at t E (c # C)" using assms(1) nc(1) by (simp only: at_iff_plug)
  moreover have "x \<notin> set (path_addrs (c # C))" using assms(6) nc(1) set_addrs_plug [of E "c # C"] by auto
  ultimately obtain t' where t': "link_leaf t x c = Some t'" "at t' (N E () x E) (c # C)"
    using link_leaf_at [OF _ assms(5)] by blast
  have el: "addr_of l = 0 \<longleftrightarrow> l = E" using at_addr_0 [of t l "InL () y r # C"] at by (simp add: at_up)
  have "root t0 \<noteq> 0" using assms(1,2) tree_rep_root(1,2) [of t s] by (auto simp: t)
  then have "timer_linkheap_add tm t0 x =
      do { t \<leftarrow> do { t \<leftarrow> set_parent t x y;
                   if l = E then do { t \<leftarrow> set_left t y x; r \<leftarrow> get_right t y; if r \<noteq> 0 then None else Some t } else set_right t y x };
           timer_linkheap_siftup tm (t\<lparr>heap_size := heap_size t + 1\<rparr>) x }"
    using x(1,4,5) ny u(3) N er el
    by (cases "l = E") (simp_all add: timer_linkheap_add_def timer_linkheap_last_plus_one_parent_def t [symmetric])
  moreover have "do { t \<leftarrow> set_parent t x y;
                   if l = E then do { t \<leftarrow> set_left t y x; r \<leftarrow> get_right t y; if r \<noteq> 0 then None else Some t } else set_right t y x } = Some t'"
    using t'(1) x ny er by (auto simp: link_leaf_def c_def fun_upd_twist)
  ultimately have "timer_linkheap_add tm t0 x = timer_linkheap_siftup tm (t'\<lparr>heap_size := heap_size t' + 1\<rparr>) x" by simp
  then show ?thesis using that t'(2) nc link_leaf_size [OF t'(1)] by blast
qed

lemma heap_add_ok:
  assumes "heap_ok tm t A" "x \<noteq> 0" "x \<notin> A" "card A + 1 < 2 ^ 64"
  shows "\<exists>t'. timer_linkheap_add tm t x = Some t' \<and> heap_ok tm t' (insert x A)"
proof -
  obtain s where s: "tree_rep t s" "heapo tm 0 s" "A = set (addrs s)" "full (card A) 0 s" "unat (heap_size t) = card A"
    using assms(1) unfolding heap_ok_def by blast
  have card: "card (insert x A) = Suc (card A)" using assms(3) s(3) by simp
  have size: "unat (heap_size t + 1) = Suc (card A)" using s(5) assms(4) by (simp add: unat_word_ariths)
  define t1 where "t1 = t\<lparr>nodes := (nodes t)(x := (nodes t x)\<lparr>left := 0, right := 0\<rparr>)\<rparr>"
  have rep: "tree_rep t1 s" "new_leaf t1 () x" "heap_size t1 = heap_size t"
    using s(1,3) assms(2,3) by (auto simp: t1_def new_leaf_def tree_rep_def at_def intro: subt_cong)
  show ?thesis
  proof (cases "s = E")
    case True
    then have "root t = 0" "A = {}" using tree_rep_root(1) [OF s(1)] s(3) by simp_all
    then show ?thesis using assms(2) size
      by (auto simp: timer_linkheap_add_def heap_ok_def tree_rep_def at_def node_is_def intro!: exI [of _ "N E () x E"])
  next
    case False
    have x: "x \<notin> set (addrs s)" using assms(3) s(3) by simp
    obtain t' C where t': "timer_linkheap_add tm t x = timer_linkheap_siftup tm (t'\<lparr>heap_size := heap_size t' + 1\<rparr>) x"
      "at t' (N E () x E) C" "plug E C = s" "hidx C = card A" "heap_size t' = heap_size t1"
      using add_links [OF rep(1) False s(4) _ rep(2) x t1_def] s(5) rep(3) by metis
    have "hpath tm C" using s(2) t'(3) heapo_plug [of tm E C] by simp
    then have si: "sifted tm (t'\<lparr>heap_size := heap_size t' + 1\<rparr>) (plug (N E () x E) C) (timer_linkheap_add tm t x)"
      unfolding t'(1) using t'(2) by (intro siftup_sifted) simp_all
    have "set (addrs (plug (N E () x E) C)) = insert x A" using s(3) t'(3) set_addrs_plug [of E C] by (auto simp: set_addrs_plug)
    moreover have "full (card (insert x A)) 0 (plug (N E () x E) C)" unfolding card full_last [OF t'(4)] t'(3) by (rule s(4))
    ultimately show ?thesis using size t'(5) rep(3) card by (intro sifted_ok [OF si]) simp_all
  qed
qed

text \<open>The timer in the last place is cut off.\<close>

lemma heap_cut_last_at:
  assumes "at t (N E b x E) C"
  shows "\<exists>t'. heap_cut_last t x = Some t' \<and> at t' E C \<and> heap_size t' = heap_size t"
proof -
  note nx = at_node [OF assms]
  have ch: "C = InL b' p u # D \<Longrightarrow> left (nodes t p) = x" "C = InR u b' p # D \<Longrightarrow> right (nodes t p) = x \<and> left (nodes t p) \<noteq> x" for b' p u D
    using assms addr_of_neq [of x u] by (auto simp: at_def node_is_def)
  have "heap_cut_last t x = put_child t (par_of C) x 0"
  proof (cases C)
    case (Cons c D)
    then have "crumb_addr c \<noteq> 0" using assms at_crumb(1) by blast
    then show ?thesis using nx ch Cons by (cases c) (auto simp: heap_cut_last_def put_child_def reparent_def)
  qed (use nx in \<open>simp add: heap_cut_last_def put_child_def reparent_def\<close>)
  moreover have "heap_size t' = heap_size t" if "heap_cut_last t x = Some t'" for t'
    using that by (auto simp: heap_cut_last_def set_left_def set_right_def set_node_def split: if_splits bind_splits)
  ultimately show ?thesis using put_child_at [OF assms] by auto
qed

lemma heap_cut_swapped_at:
  assumes "at t (N E b x E) C" "C \<noteq> []" "\<And>b' p u D. C = InL b' p u # D \<Longrightarrow> u = E"
  shows "\<exists>t'. heap_cut_swapped t x = Some t' \<and> at t' E C \<and> heap_size t' = heap_size t"
proof -
  note nx = at_node [OF assms(1)]
  obtain c D where C: "C = c # D" using assms(2) by (cases C) auto
  have p: "crumb_addr c \<noteq> 0" "crumb_addr c \<noteq> x" "par_of C = crumb_addr c" using assms(1) at_crumb(1) [of t _ c D] C by (cases c; auto simp: at_def)+
  have ch: "c = InL b' p u \<Longrightarrow> left (nodes t p) = x \<and> right (nodes t p) = 0" "c = InR u b' p \<Longrightarrow> right (nodes t p) = x \<and> left (nodes t p) \<noteq> x" for b' p u
    using assms(1,3) C addr_of_neq [of x u] by (auto simp: at_def node_is_def)
  obtain t1 where t1: "heap_cut_last t x = Some t1" "at t1 E C" "heap_size t1 = heap_size t" using heap_cut_last_at [OF assms(1)] by blast
  have x1: "left (nodes t1 x) = 0" "right (nodes t1 x) = 0" "x \<notin> set (path_addrs C)"
    using t1(1) nx p ch assms(1) C by (cases c; auto simp: heap_cut_last_def at_def split: if_splits)+
  have "heap_cut_swapped t x = do { t \<leftarrow> heap_cut_last t x; t \<leftarrow> set_parent t x 0; m \<leftarrow> node_of t x; if left m \<noteq> 0 \<or> right m \<noteq> 0 then None else Some t }"
    using nx p ch by (cases c) (auto simp: heap_cut_swapped_def heap_cut_last_def)
  then have "heap_cut_swapped t x = Some (t1\<lparr>nodes := (nodes t1)(x := (nodes t1 x)\<lparr>parent := 0\<rparr>)\<rparr>)" using t1(1) nx(1) x1 by simp
  moreover have "at (t1\<lparr>nodes := (nodes t1)(x := (nodes t1 x)\<lparr>parent := 0\<rparr>)\<rparr>) E C"
    using t1(2) x1(3) by (auto simp: at_def intro: path_cong)
  ultimately show ?thesis using t1(3) by simp
qed

lemma hidx_swap [simp]: "hidx (map (swap_crumb x y) C) = hidx C"
  by (induction C rule: hidx.induct) auto

lemma set_addrs_swap: "x \<in> set (addrs s) \<Longrightarrow> y \<in> set (addrs s) \<Longrightarrow> set (addrs (swap_tree x y s)) = set (addrs s)"
proof -
  assume "x \<in> set (addrs s)" "y \<in> set (addrs s)"
  then have "z \<in> set (addrs s) \<Longrightarrow> swp x y z \<in> set (addrs s)" for z by (simp add: swp_def)
  then show ?thesis unfolding addrs_swap set_map by (intro equalityI subsetI) (auto, metis imageI swp_simps(4))
qed

lemma heap_last_at:
  assumes "tree_rep t s" "full n 0 s" "unat (heap_size t) = n" "0 < n"
  obtains y b C where "s = plug (N E b y E) C" "hidx C = n - 1" "timer_linkheap_last t = Some y"
proof -
  have "heap_size t \<noteq> 0" using assms(3,4) by (auto simp: unat_eq_0 [symmetric])
  then have k: "unat (heap_size t - 1) = n - 1" using assms(3) by (simp add: unat_minus_one)
  then have "heap_size t - 1 = 0 \<or> unat (timer_linkheap_parent (heap_size t - 1)) < n"
    using parent_less [of "heap_size t - 1"] assms(4) by (cases "heap_size t - 1 = 0") auto
  from nth_at [OF assms(1,2) this] k obtain u C where
    u: "s = plug u C" "hidx C = n - 1" "timer_linkheap_last t = Some (addr_of u)" unfolding timer_linkheap_last_def by metis
  have fu: "full n (n - 1) u" using assms(2) u(1,2) by (simp add: full_plug)
  then obtain l b y r where N: "u = N l b y r" using assms(4) by (cases u) auto
  then have "l = E" "r = E" using fu assms(4) by (cases l; cases r; auto)+
  then show ?thesis using that u N by simp
qed

lemma heap_remove_ok:
  assumes "heap_ok tm0 t A" "x \<in> A" "\<And>y. y \<noteq> x \<Longrightarrow> tm y = tm0 y"
  shows "\<exists>t'. timer_linkheap_remove tm t x = Some t' \<and> heap_ok tm t' (A - {x})"
proof -
  obtain s where s: "tree_rep t s" "heapo tm0 0 s" "A = set (addrs s)" "full (card A) 0 s" "unat (heap_size t) = card A"
    using assms(1) unfolding heap_ok_def by blast
  have n: "0 < card A" using assms(2) s(3) by (auto simp: card_gt_0_iff)
  obtain m where m: "card A = Suc m" using n by (cases "card A") auto
  have card: "card (A - {x}) = m" using assms(2) m s(3) by simp
  have size: "unat (heap_size t - 1) = m" using s(5) m by (subst unat_minus_one) (auto simp: unat_eq_0 [symmetric])
  obtain y b C where y: "s = plug (N E b y E) C" "hidx C = m" "timer_linkheap_last t = Some y"
    using heap_last_at [OF s(1,4,5) n] m by auto
  have at: "at t (N E b y E) C" using s(1) y(1) by (simp add: at_iff_plug)
  note ny = at_node [OF at]
  show ?thesis
  proof (cases "x = y")
    case True
    obtain t' where t': "heap_cut_last t y = Some t'" "at t' E C" "heap_size t' = heap_size t" using heap_cut_last_at [OF at] by blast
    have "set (addrs (plug E C)) = A - {x}" using at s(3) y(1) True by (auto simp: set_addrs_plug at_def)
    moreover have "full m 0 (plug E C)" using s(4) full_last [OF y(2)] y(1) m by simp
    moreover have "heapo tm0 0 (plug E C)" using s(2) y(1) by (simp add: heapo_plug)
    then have "heapo tm 0 (plug E C)" using heapo_cong [of "plug E C" tm tm0] assms(3) \<open>set (addrs (plug E C)) = A - {x}\<close> by simp
    ultimately show ?thesis using t' ny True y(3) size card
      by (auto simp: timer_linkheap_remove_def heap_ok_def at_iff_plug intro!: exI [of _ "plug E C"])
  next
    case False
    let ?C = "map (swap_crumb x y) C" and ?tm = "\<lambda>z. tm0 (swp x y z)"
    have in_s: "x \<in> set (addrs s)" "y \<in> set (addrs s)" using assms(2) s(3) y(1) by (auto simp: set_addrs_plug)
    have sw: "swap_tree x y s = plug (N E b x E) ?C" using y(1) by (simp add: swap_plug)
    obtain t1 where t1: "timer_linkheap_swap t x y = Some t1" "at t1 (N E b x E) ?C" "heap_size t1 = heap_size t"
      using heap_swap_rep [OF s(1) in_s False] unfolding sw at_iff_plug by blast
    have fu: "full (Suc m) 0 (plug (N E b x E) ?C)" using s(4) m unfolding sw [symmetric] by simp
    have "?C \<noteq> []" using y(1) False in_s(1) by auto
    moreover have "u = E" if "?C = InL b' p u # D" for b' p u D
      using fu y(2) full_E [of "Suc m" "2 * hidx D + 2" u] hidx_swap [of x y C] unfolding full_plug that by auto
    ultimately obtain t2 where t2: "heap_cut_swapped t1 x = Some t2" "at t2 E ?C" "heap_size t2 = heap_size t1"
      using heap_cut_swapped_at [OF t1(2)] by blast
    have su: "set (addrs (plug E ?C)) = A - {x}"
      using set_addrs_swap [OF in_s] t1(2) unfolding sw s(3) by (auto simp: set_addrs_plug at_def)
    have "heapo ?tm 0 (swap_tree x y s)" using s(2) by (simp add: heapo_swap)
    then have ho: "heapo ?tm 0 (plug E ?C)" unfolding sw by (simp add: heapo_plug)
    have fm: "full m 0 (plug E ?C)" using fu full_last [of ?C m b x] y(2) by simp
    have si: "sifted tm (t2\<lparr>heap_size := heap_size t2 - 1\<rparr>) (plug E ?C) (timer_linkheap_modify tm (t2\<lparr>heap_size := heap_size t2 - 1\<rparr>) y)"
    proof (rule modify_sifted [OF _ ho fm])
      show "tree_rep (t2\<lparr>heap_size := heap_size t2 - 1\<rparr>) (plug E ?C)" using t2(2) by (simp add: at_iff_plug)
      show "y \<in> set (addrs (plug E ?C))" using su in_s(2) s(3) False by simp
      show "tm z = ?tm z" if "z \<in> set (addrs (plug E ?C))" "z \<noteq> y" for z using that su assms(3) by simp
    qed
    have "timer_linkheap_remove tm t x = timer_linkheap_modify tm (t2\<lparr>heap_size := heap_size t2 - 1\<rparr>) y"
      using y(3) ny False t1(1) t2(1) by (simp add: timer_linkheap_remove_def)
    then show ?thesis using sifted_ok [OF si su] fm size card t1(3) t2(3) by simp
  qed
qed

text \<open>The check of the code accepts the heap.\<close>

lemma verify_tree_at: "at t s C \<Longrightarrow> s \<noteq> E \<Longrightarrow> heapo tm (ckey tm C) s \<Longrightarrow> full n (hidx C) s \<Longrightarrow> timer_linkheap_verify_tree tm t (addr_of s) = Some True"
proof (induction s arbitrary: C)
  case (N l b y r)
  have atl: "at t l (InL b y r # C)" and atr: "at t r (InR l b y # C)" using N.prems(1) by (simp_all add: at_up)
  have p: "l \<noteq> E \<Longrightarrow> parent (nodes t (addr_of l)) = y" "r \<noteq> E \<Longrightarrow> parent (nodes t (addr_of r)) = y"
    using N.prems(1) by (cases l; cases r; auto simp: at_def node_is_def)+
  have up: "par_of C = 0 \<or> tm (par_of C) \<le> tm y" using N.prems(3) by (cases C) auto
  have gap: "l = E \<Longrightarrow> r = E" using N.prems(4) full_E [of n "2 * hidx C + 2" r] by auto
  show ?case using at_node [OF N.prems(1)] at_addr_0 [OF atl] at_addr_0 [OF atr] N.IH(1) [OF atl] N.IH(2) [OF atr] p up gap N.prems(3,4)
    by (subst timer_linkheap_verify_tree.simps) (cases "l = E"; cases "r = E"; simp add: not_less)
qed simp

lemma heap_verify_ok: "heap_ok tm t A \<Longrightarrow> timer_linkheap_verify tm t = Some True"
proof -
  assume "heap_ok tm t A"
  then obtain s where s: "tree_rep t s" "heapo tm 0 s" "full (card A) 0 s" unfolding heap_ok_def by blast
  then show ?thesis using verify_tree_at [of t s "[]" tm "card A"] tree_rep_root(1,2) [OF s(1)]
    by (auto simp: timer_linkheap_verify_def tree_rep_def)
qed

section \<open>Contract\<close>

interpretation heap_queue: timer_queue heap_ok timer_linkheap_add timer_linkheap_remove timer_linkheap_modify timer_linkheap_next_expiry_timer
proof
  show "\<exists>q'. timer_linkheap_modify tm' q x = Some q' \<and> heap_ok tm' q' A"
    if h: "heap_ok tm q A" "x \<in> A" "\<And>y. y \<noteq> x \<Longrightarrow> tm' y = tm y" for tm tm' q A x
  proof -
    from h(1) obtain s where s: "tree_rep q s" "heapo tm 0 s" "A = set (addrs s)" "full (card A) 0 s" "unat (heap_size q) = card A"
      unfolding heap_ok_def by blast
    show ?thesis using modify_sifted [OF s(1,2,4), of x tm'] h(2,3) s(3-5) by (intro sifted_ok) auto
  qed
  show "timer_linkheap_next_expiry_timer q \<in> A \<and> (\<forall>y\<in>A. tm (timer_linkheap_next_expiry_timer q) \<le> tm y)"
    if h: "heap_ok tm q A" "A \<noteq> {}" for tm q A
  proof -
    from h(1) obtain s where s: "tree_rep q s" "heapo tm 0 s" "A = set (addrs s)" unfolding heap_ok_def by blast
    then obtain l b x r where N: "s = N l b x r" using h(2) by (cases s) auto
    then show ?thesis using s tree_rep_root [OF s(1)] heapo_le [of tm "tm x" l] heapo_le [of tm "tm x" r]
      by (auto simp: timer_linkheap_next_expiry_timer_def)
  qed
  show "heap_ok tm' q A" if "heap_ok tm q A" "\<And>y. y \<in> A \<Longrightarrow> tm' y = tm y" for tm tm' q A
    using that heapo_cong [of _ tm' tm] unfolding heap_ok_def by metis
qed ((rule heap_add_ok heap_remove_ok; assumption) | auto simp: heap_ok_def timer_linkheap_next_expiry_timer_def dest: tree_rep_root)+

end
