(* ===== verification/TimerQueues.thy ===== *)
theory TimerQueues
  imports TimerTree LinkHeap
begin

text \<open>
  The red-black tree, the AVL tree and the linked heap of timers side by side: run on the same calls
  they agree with the map of pending timers, hence with each other.
\<close>

lemma timerrb_verify_ok: "timerrb_ok tm rb A \<Longrightarrow> timerrb_verify rb = Some True"
  using rb_holds_checks(1) by (auto simp: timerrb_ok_def timerrb_verify_def rb_tree_wrappers)

lemma timeravl_verify_ok: "timeravl_ok tm avl A \<Longrightarrow> timeravl_verify avl = Some True"
  using avl_holds_checks(1) by (auto simp: timeravl_ok_def timeravl_verify_def)

lemma empty_queues:
  "rb_next rb0 = 0 \<Longrightarrow> queue_holds timerrb_ok Map.empty (tm0, timerrb_init rb0)"
  "avl_next avl0 = 0 \<Longrightarrow> queue_holds timeravl_ok Map.empty (tm0, timeravl_init avl0)"
  "queue_holds heap_ok Map.empty (tm0, timer_linkheap_init heap0)"
  by (auto simp: queue_holds_def timerrb_ok_def timerrb_init_def rb_tree_wrappers timeravl_ok_def timeravl_init_def
      heap_ok_def timer_linkheap_init_def tree_rep_def at_def intro!: exI [of _ E])

text \<open>
  C40: Whatever timers the user adds, removes and modifies, the red-black tree, the AVL tree and the
  linked heap return from every call, are accepted by the checks of the code, and give the same next
  expiry time: that of a pending timer which expires first, and the largest value when none is
  pending.  The trees start with an empty field \<^verbatim>\<open>next\<close>, which their initialisation does not write.
\<close>

theorem timer_queues_agree:
  assumes "run_ops pending_step Map.empty ops = Some m" "length ops < 2 ^ 64"
    and "rb_next rb0 = 0" "avl_next avl0 = 0"
  shows "(\<exists>tm rb. run_ops (queue_step timerrb_add (\<lambda>_. timerrb_remove) timerrb_modify) (tm0, timerrb_init rb0) ops =
        Some (tm, rb) \<and> timerrb_verify rb = Some True \<and>
      earliest m (timerrb_next_expiry_timer rb) (timerrb_next_expiry_time tm rb)) \<and>
    (\<exists>tm avl. run_ops (queue_step timeravl_add (\<lambda>_. timeravl_remove) timeravl_modify) (tm0, timeravl_init avl0) ops =
        Some (tm, avl) \<and> timeravl_verify avl = Some True \<and>
      earliest m (timeravl_next_expiry_timer avl) (timeravl_next_expiry_time tm avl)) \<and>
    (\<exists>tm heap. run_ops (queue_step timer_linkheap_add timer_linkheap_remove timer_linkheap_modify)
        (tm0, timer_linkheap_init heap0) ops = Some (tm, heap) \<and> timer_linkheap_verify tm heap = Some True \<and>
      earliest m (timer_linkheap_next_expiry_timer heap) (timer_linkheap_next_expiry_time tm heap))"
proof (intro conjI)
  have len: "card (dom (Map.empty :: ptr \<rightharpoonup> u64)) + length ops < 2 ^ 64" using assms(2) by simp
  obtain tm rb where "run_ops (queue_step timerrb_add (\<lambda>_. timerrb_remove) timerrb_modify) (tm0, timerrb_init rb0) ops =
      Some (tm, rb)" "queue_holds timerrb_ok m (tm, rb)"
    using timerrb_queue.run_holds [OF empty_queues(1) [OF assms(3)] assms(1) len, of tm0] by auto
  then show "\<exists>tm rb. run_ops (queue_step timerrb_add (\<lambda>_. timerrb_remove) timerrb_modify) (tm0, timerrb_init rb0) ops =
      Some (tm, rb) \<and> timerrb_verify rb = Some True \<and>
      earliest m (timerrb_next_expiry_timer rb) (timerrb_next_expiry_time tm rb)"
    using timerrb_queue.next_earliest [of m tm rb] timerrb_verify_ok [of tm rb "dom m"]
    by (auto simp: queue_holds_def timerrb_next_expiry_time_def timerrb_next_expiry_timer_def)
  obtain tm avl where "run_ops (queue_step timeravl_add (\<lambda>_. timeravl_remove) timeravl_modify) (tm0, timeravl_init avl0) ops =
      Some (tm, avl)" "queue_holds timeravl_ok m (tm, avl)"
    using timeravl_queue.run_holds [OF empty_queues(2) [OF assms(4)] assms(1) len, of tm0] by auto
  then show "\<exists>tm avl. run_ops (queue_step timeravl_add (\<lambda>_. timeravl_remove) timeravl_modify) (tm0, timeravl_init avl0) ops =
      Some (tm, avl) \<and> timeravl_verify avl = Some True \<and>
      earliest m (timeravl_next_expiry_timer avl) (timeravl_next_expiry_time tm avl)"
    using timeravl_queue.next_earliest [of m tm avl] timeravl_verify_ok [of tm avl "dom m"]
    by (auto simp: queue_holds_def timeravl_next_expiry_time_def timeravl_next_expiry_timer_def)
  obtain tm heap where "run_ops (queue_step timer_linkheap_add timer_linkheap_remove timer_linkheap_modify)
      (tm0, timer_linkheap_init heap0) ops = Some (tm, heap)" "queue_holds heap_ok m (tm, heap)"
    using heap_queue.run_holds [OF empty_queues(3) assms(1) len, of tm0 heap0] by auto
  then show "\<exists>tm heap. run_ops (queue_step timer_linkheap_add timer_linkheap_remove timer_linkheap_modify)
      (tm0, timer_linkheap_init heap0) ops = Some (tm, heap) \<and> timer_linkheap_verify tm heap = Some True \<and>
      earliest m (timer_linkheap_next_expiry_timer heap) (timer_linkheap_next_expiry_time tm heap)"
    using heap_queue.next_earliest [of m tm heap] heap_verify_ok [of tm heap "dom m"]
    by (auto simp: queue_holds_def timer_linkheap_next_expiry_time_def timer_linkheap_next_expiry_timer_def)
qed

text \<open>Two timers are added, the second one expires first until the first one is moved before it, which is then removed.\<close>

theorem timer_queues_agree_witness:
  "\<exists>tm heap. run_ops (queue_step timer_linkheap_add timer_linkheap_remove timer_linkheap_modify)
       (\<lambda>_. 0, timer_linkheap_init \<lparr>nodes = \<lambda>_. \<lparr>tag = (), left = 7, right = 7, parent = 7\<rparr>, root = 9, heap_size = 5\<rparr>)
       [Add_Timer 1 50, Add_Timer 2 30, Modify_Timer 1 10, Remove_Timer 1] = Some (tm, heap) \<and>
     timer_linkheap_next_expiry_time tm heap = 30"
proof -
  let ?ops = "[Add_Timer 1 50, Add_Timer 2 30, Modify_Timer 1 10, Remove_Timer 1]"
  have "run_ops pending_step Map.empty ?ops = Some [2 \<mapsto> 30]" by (simp add: fun_eq_iff)
  then show ?thesis
    using timer_queues_agree [of ?ops "[2 \<mapsto> 30]"
      "\<lparr>rb_tree = \<lparr>nodes = \<lambda>_. \<lparr>tag = False, left = 7, right = 7, parent = 7\<rparr>, root = 9\<rparr>, rb_next = 0\<rparr>"
      "\<lparr>avl_tree = \<lparr>nodes = \<lambda>_. \<lparr>tag = 0, left = 7, right = 7, parent = 7\<rparr>, root = 9\<rparr>, avl_next = 0\<rparr>"
      "\<lambda>_. 0" "\<lparr>nodes = \<lambda>_. \<lparr>tag = (), left = 7, right = 7, parent = 7\<rparr>, root = 9, heap_size = 5\<rparr>"]
    by (auto simp: earliest_def split: if_splits)
qed

end
