(* ===== verification/Spec2Isabelle.thy ===== *)
theory Spec2Isabelle
  imports PcpHdr TcpOpts FragReass Rfc791 Combo Queue Databuf TimerQueues
begin

text \<open>
  Verification of pptk, a packet processing toolkit in C (sources under \<^verbatim>\<open>src\<close>).

  \<^bold>\<open>Parts of the program and their theories.\<close>
  \<^item> \<open>Prelude\<close>, \<open>Hdr\<close>: C integers as words, host byte order, byte memories and the unaligned
    accessors of \<^verbatim>\<open>misc/hdr.h\<close> and \<^verbatim>\<open>misc/byteswap.h\<close>.
  \<^item> \<open>PcpHdr\<close>, \<open>LinkHdr\<close>, \<open>IpHdr\<close>, \<open>L4Hdr\<close>: the header accessors of \<^verbatim>\<open>iphdr/iphdr.h\<close>, one definition
    per C function, and the walk over IPv6 extension headers.
  \<^item> \<open>IpCksum\<close>, \<open>CksumUpdate\<close>, \<open>CksumSack\<close>, \<open>CksumProps\<close>: \<^verbatim>\<open>iphdr/ipcksum.c\<close> and
    \<^verbatim>\<open>iphdr/ipcksum.h\<close>, the checksum functions and the incremental updates.
  \<^item> \<open>TcpOpts\<close>: the TCP option parsers of \<^verbatim>\<open>iphdr/iphdr.c\<close>.
  \<^item> \<open>LinkedList\<close>: the doubly linked lists of \<^verbatim>\<open>linkedlist/linkedlist.h\<close> in a store.
  \<^item> \<open>Packet\<close>, \<open>IpFrag\<close>: packets, the allocator interface and \<^verbatim>\<open>fragment4\<close> of \<^verbatim>\<open>ipfrag/ipfrag.c\<close>.
  \<^item> \<open>Reass\<close>: what a reassembler promises, as an abstract state and the locale \<open>reassembler\<close>;
    \<open>IpReass\<close>, \<open>Rfc791\<close>, \<open>Rfc815\<close>, \<open>Combo\<close>: the contexts of \<^verbatim>\<open>ipfrag/ipreass.c\<close>, \<^verbatim>\<open>rfc791.c\<close>,
    \<^verbatim>\<open>rfc815.c\<close> and \<^verbatim>\<open>combo.c\<close>; \<open>FragReass\<close>: fragmentation followed by reassembly.
  \<^item> \<open>Queue\<close>: the bounded queue between threads of \<^verbatim>\<open>queue\<close>.
  \<^item> \<open>Databuf\<close>: the byte buffers of \<^verbatim>\<open>databuf\<close>.
  \<^item> \<open>TreeStore\<close>: nodes with two children and a parent pointer in a store; \<open>TreeRep\<close>, \<open>TreeSearch\<close>,
    \<open>TreeSwap\<close>, \<open>TreeOrder\<close>: what it means that such a store represents a tree, descending in it,
    exchanging two nodes, and the locales of trees whose nodes are ordered by a key.
  \<^item> \<open>RbTree\<close>: the operations of \<^verbatim>\<open>rbtree/rbtree.c\<close> and \<^verbatim>\<open>rbtree.h\<close>; \<open>RbRep\<close>, \<open>RbInsert\<close>,
    \<open>RbSearch\<close>, \<open>RbDelete\<close>, \<open>RbOrder\<close>: the red-black invariant and what each of them does.
  \<^item> \<open>AvlTree\<close>: the operations of \<^verbatim>\<open>avltree/avltree.c\<close> and \<^verbatim>\<open>avltree.h\<close>; \<open>AvlRep\<close>, \<open>AvlBal\<close>: rotations,
    stored balances and the AVL invariant.
  \<^item> \<open>Timers\<close>: the contract of a queue of timers, as the locale \<open>timer_queue\<close>; \<open>TimerTree\<close>: the queues of
    \<^verbatim>\<open>timerrb\<close> and \<^verbatim>\<open>timeravl\<close> on the trees above; \<open>TimerLink\<close>, \<open>LinkSwap\<close>, \<open>LinkHeap\<close>: the linked heap of
    \<^verbatim>\<open>timerlinkheap/timerlink.c\<close>, the exchange of its nodes and its invariant; \<open>TimerQueues\<close>: the three
    queues side by side.

  \<^bold>\<open>Conventions.\<close>  A memory is a function from addresses to bytes.  In the header theories
  \<^verbatim>\<open>abort()\<close> is the result \<open>None\<close>; from \<open>Packet\<close> on a fault is a value of type \<open>fault\<close>, and copies
  between objects check both bounds, except for the stores into the buffer of \<open>Rfc815\<close>, where a store
  behind the array changes the memory there.  In the tree theories \<open>None\<close> is a call of \<^verbatim>\<open>abort()\<close> or a
  read through a null pointer.  The host is little-endian.  Loops that follow pointers are
  \<open>partial_function (option)\<close>: a result \<open>None\<close> is a call that does not return, and the theorems prove that the calls return.
  No fuel is used.  Code outside \<^verbatim>\<open>src\<close> is a parameter: \<^verbatim>\<open>malloc\<close> and \<^verbatim>\<open>realloc\<close> by their
  result, allocators by the record \<open>allocif\<close>, comparison functions by a function.

  \<^bold>\<open>What is shown.\<close>  The checksum functions equal the reference of RFC 1071 and the incremental
  updates keep a valid checksum valid (an ICMP one if type and code are not both 0), except that the one
  for SACK blocks at an odd offset never returns and that a UDP checksum can become 0; the option parsers invert an encoder and return, except on
  inputs for which they are shown to loop; the linked lists refine lists; fragmentation followed by
  reassembly in any order is the identity; every reassembler is compared with one abstract
  specification, and the places where one of them leaves its buffer or gives a wrong answer are
  theorems too; the queue delivers each item once and in order under every interleaving and loses
  no wake-up; values written to a data buffer are read back; insertion into and deletion from the trees
  keep their invariants and the order of the nodes; the three timer queues report the timer that expires
  first.

  \<^bold>\<open>Not modelled.\<close>  Input and output (\<^verbatim>\<open>ldp\<close>, \<^verbatim>\<open>netmap\<close>, \<^verbatim>\<open>tuntap\<close>, \<^verbatim>\<open>ports\<close>, \<^verbatim>\<open>log\<close>, the file
  functions of \<^verbatim>\<open>mypcap\<close>) consists of calls of the kernel or of third-party libraries.  The timer wheels
  and the skip list, hash tables, allocators, DNS messages, TCP reassembly, the reassemblers on red-black
  trees, hash functions, random numbers and the ARP cache are not covered.  The test and performance
  programs are clients of the library.
\<close>

end
